theory Spec2Isabelle
  imports Complex_Main
begin

section \<open>Characters, strings and the C library's tokenizer\<close>

text \<open>
  A C string is modelled by the list of its characters up to the terminating NUL.
  The program never calls \<^verbatim>\<open>setlocale\<close>, so \<^verbatim>\<open>isspace\<close> is the one of the "C" locale:
  space, and the five control characters from horizontal tab to carriage return.
\<close>

definition safeIsspace :: "char \<Rightarrow> bool" where
  "safeIsspace t =
     (let n = (of_char t :: nat) in n = 32 \<or> (9 \<le> n \<and> n \<le> 13))"

abbreviation newline :: char where
  "newline \<equiv> CHR 0x0A"

text \<open>
  One call of \<^verbatim>\<open>strtok_r\<close>: skip every leading delimiter; at the end of the string there
  is no token; otherwise the token runs up to the next delimiter (or the end), and the saved
  position is just behind that delimiter.
\<close>

definition strtok_r :: "string \<Rightarrow> string \<Rightarrow> (string \<times> string) option" where
  "strtok_r s delim =
     (let s1 = dropWhile (\<lambda>c. c \<in> set delim) s
      in if s1 = [] then None
         else Some (takeWhile (\<lambda>c. c \<notin> set delim) s1,
                    drop 1 (dropWhile (\<lambda>c. c \<notin> set delim) s1)))"

text \<open>
  The sequence of tokens that the calls \<^verbatim>\<open>strtok_r(buffer, ",", &state)\<close>,
  \<^verbatim>\<open>strtok_r(NULL, ",", &state)\<close>, ... return until the first \<^verbatim>\<open>NULL\<close>. The loop bodies
  of the program only move the token pointer forward inside the token, so the sequence
  depends on the line alone.
\<close>

function strtok_tokens :: "string \<Rightarrow> string \<Rightarrow> string list" where
  "strtok_tokens s delim =
     (case strtok_r s delim of
        None \<Rightarrow> []
      | Some (tok, rest) \<Rightarrow> tok # strtok_tokens rest delim)"
  by pat_completeness auto
termination
proof (relation "measure (\<lambda>(s, delim). length s)")
  show "wf (measure (\<lambda>(s, delim). length s))" by simp
next
  fix s delim :: string and x2 :: "string \<times> string" and tok rest :: string
  assume a: "strtok_r s delim = Some x2" and x2: "(tok, rest) = x2"
  let ?s1 = "dropWhile (\<lambda>c. c \<in> set delim) s"
  from a x2 have ne: "?s1 \<noteq> []"
    and r: "rest = drop 1 (dropWhile (\<lambda>c. c \<notin> set delim) ?s1)"
    by (auto simp: strtok_r_def Let_def split: if_splits)
  from ne obtain c cs where c: "?s1 = c # cs" by (cases ?s1) auto
  then have "c \<notin> set delim"
    by (metis (mono_tags, lifting) hd_dropWhile list.sel(1) ne)
  with c have "length rest \<le> length cs"
    using r length_dropWhile_le [of "\<lambda>c. c \<notin> set delim" cs] by simp
  moreover have "length ?s1 \<le> length s" by (rule length_dropWhile_le)
  ultimately have "length rest < length s" using c by simp
  then show "((rest, delim), (s, delim)) \<in> measure (\<lambda>(s, delim). length s)" by simp
qed

declare strtok_tokens.simps [simp del]

text \<open>\<^verbatim>\<open>strncmp(a, b, n) == 0\<close> on NUL-free contents.\<close>

definition strncmp_eq :: "string \<Rightarrow> string \<Rightarrow> nat \<Rightarrow> bool" where
  "strncmp_eq a b n = (take n a = take n b)"

text \<open>\<^verbatim>\<open>strstr(haystack, needle) != NULL\<close>.\<close>

fun strstr :: "string \<Rightarrow> string \<Rightarrow> bool" where
  "strstr [] needle = (needle = [])"
| "strstr (c # cs) needle = (take (length needle) (c # cs) = needle \<or> strstr cs needle)"

section \<open>Return codes and diagnostics\<close>

text \<open>
  Every function of the CSV reader returns \<^verbatim>\<open>kCommonConstantReturnTypeError\<close> after
  printing one diagnostic. The model keeps the diagnostic as the error value, so that
  which error is reported can be stated. \<open>Fatal\<close> is the call of \<^verbatim>\<open>fatal\<close>, which ends
  the process. \<open>BufferOverrun\<close> and the two array errors of the statistics stand for
  accesses outside an allocated array, which C leaves undefined.
\<close>

datatype csv_error =
    MoreThanExpectedHeaders
  | HeaderMismatch nat string string
  | HeaderTrailingCharacters nat string string
  | LessThanExpectedHeaders
  | CannotOpenFile string
  | PipelineNotImplemented
  | TooManyRows int
  | MoreThanExpectedEntries int
  | NotAValidNumber int nat string
  | LessThanExpectedEntries int
  | Fatal
  | BufferOverrun nat nat

datatype CommonConstantReturnType =
    kCommonConstantReturnTypeError
  | kCommonConstantReturnTypeSuccess

definition returnCode :: "csv_error + 'a \<Rightarrow> CommonConstantReturnType" where
  "returnCode r = (case r of Inl _ \<Rightarrow> kCommonConstantReturnTypeError
                           | Inr _ \<Rightarrow> kCommonConstantReturnTypeSuccess)"

section \<open>Header validation\<close>

text \<open>
  The loop of \<^verbatim>\<open>validateInputDistributionCSVHeader\<close> over the tokens of the header row;
  \<open>columnCount\<close> is the loop counter.
\<close>

fun validateHeaderTokens :: "string list \<Rightarrow> string list \<Rightarrow> nat \<Rightarrow> csv_error + unit" where
  "validateHeaderTokens expectedHeaders [] columnCount =
     (if columnCount \<noteq> length expectedHeaders then Inl LessThanExpectedHeaders
      else Inr ())"
| "validateHeaderTokens expectedHeaders (tok # rest) columnCount =
     (if columnCount = length expectedHeaders then Inl MoreThanExpectedHeaders
      else
        let expected = expectedHeaders ! columnCount;
            expectedHeaderLength = length expected;
            token = dropWhile safeIsspace tok
        in if \<not> strncmp_eq token expected expectedHeaderLength
           then Inl (HeaderMismatch columnCount expected token)
           else if \<not> list_all safeIsspace (drop expectedHeaderLength token)
           then Inl (HeaderTrailingCharacters columnCount expected token)
           else validateHeaderTokens expectedHeaders rest (Suc columnCount))"

definition validateInputDistributionCSVHeader :: "string \<Rightarrow> string list \<Rightarrow> csv_error + unit" where
  "validateInputDistributionCSVHeader actualHeaderRow expectedHeaders =
     validateHeaderTokens expectedHeaders (strtok_tokens actualHeaderRow '','') 0"

section \<open>The CSV reader\<close>

subsection \<open>What the reader takes from its platform\<close>

text \<open>
  \<^verbatim>\<open>strtof\<close> and \<^verbatim>\<open>strtod\<close> come from the C library, the two conversions from samples to a
  distribution from \<^verbatim>\<open>uxhw.h\<close>, and the content of a file from the file system. They are
  parameters of the model. A numeric conversion returns the value, the number of characters
  it consumed (\<^verbatim>\<open>end - str\<close>) and whether it set \<^verbatim>\<open>errno\<close> to \<^verbatim>\<open>ERANGE\<close>. An opened file is
  the list of the buffers that the successive calls of \<^verbatim>\<open>fgets\<close> fill, each with its
  newline when the line has one. The type \<open>'v\<close> is the type of the values, single or double
  precision, with or without distribution information.
\<close>

record 'v platform =
  strtof :: "string \<Rightarrow> 'v \<times> nat \<times> bool"
  strtod :: "string \<Rightarrow> 'v \<times> nat \<times> bool"
  UxHwFloatDistFromSamples :: "'v list \<Rightarrow> nat \<Rightarrow> 'v"
  UxHwDoubleDistFromSamples :: "'v list \<Rightarrow> nat \<Rightarrow> 'v"
  fopen_read :: "string \<Rightarrow> string list option"

datatype FloatingPointVariableType =
    kFloatingPointVariableTypeUnknown
  | kFloatingPointVariableTypeFloat
  | kFloatingPointVariableTypeDouble

definition kCommonConstantMaxNumberOfInputSamples :: nat where
  "kCommonConstantMaxNumberOfInputSamples = 10000"

subsection \<open>Checked parsing\<close>

definition parseFloatChecked :: "'v platform \<Rightarrow> string \<Rightarrow> 'v option" where
  "parseFloatChecked P str =
     (case strtof P str of (tmp, consumed, erange) \<Rightarrow>
        if erange then None
        else if consumed = 0 then None
        else Some tmp)"

definition parseDoubleChecked :: "'v platform \<Rightarrow> string \<Rightarrow> 'v option" where
  "parseDoubleChecked P str =
     (case strtod P str of (tmp, consumed, erange) \<Rightarrow>
        if erange then None
        else if consumed = 0 then None
        else Some tmp)"

subsection \<open>The state of one read\<close>

text \<open>
  \<open>sampleValues\<close> is \<^verbatim>\<open>inputFloatSampleValues\<close> or \<^verbatim>\<open>inputDoubleSampleValues\<close>, whichever
  the type of the read allocates: one zeroed buffer of
  \<^verbatim>\<open>kCommonConstantMaxNumberOfInputSamples\<close> values per column.
\<close>

record 'v csv_state =
  sampleValues :: "'v list list"
  sampleCounts :: "nat list"
  uxColumns :: "bool list"

definition initialState :: "nat \<Rightarrow> ('v::zero) csv_state" where
  "initialState numberOfDistributions =
     \<lparr> sampleValues = replicate numberOfDistributions
                        (replicate kCommonConstantMaxNumberOfInputSamples 0),
       sampleCounts = replicate numberOfDistributions 0,
       uxColumns = replicate numberOfDistributions False \<rparr>"

text \<open>
  The assignment \<^verbatim>\<open>inputSampleValues[columnCount][index] = value\<close>. A write behind the end
  of the buffer is undefined in C; the model reports it, and the reader is shown below
  never to do it.
\<close>

definition storeSample :: "'v csv_state \<Rightarrow> nat \<Rightarrow> nat \<Rightarrow> 'v \<Rightarrow> csv_error + 'v csv_state" where
  "storeSample st columnCount index v =
     (if index < length (sampleValues st ! columnCount)
      then Inr (st\<lparr>sampleValues :=
                    (sampleValues st)[columnCount := (sampleValues st ! columnCount)[index := v]]\<rparr>)
      else Inl (BufferOverrun columnCount index))"

text \<open>The loop that sets \<^verbatim>\<open>shouldIgnore\<close>: a minus sign followed by white space only.\<close>

definition shouldIgnoreToken :: "string \<Rightarrow> bool" where
  "shouldIgnoreToken token =
     (case token of [] \<Rightarrow> False | c # cs \<Rightarrow> c = CHR ''-'' \<and> list_all safeIsspace cs)"

definition parseChecked :: "'v platform \<Rightarrow> FloatingPointVariableType \<Rightarrow> string \<Rightarrow> 'v option" where
  "parseChecked P inputDistributionsType token =
     (if inputDistributionsType = kFloatingPointVariableTypeFloat
      then parseFloatChecked P token
      else parseDoubleChecked P token)"

text \<open>
  The body of the token loop behind the check of the column count: everything inside
  \<^verbatim>\<open>if (!uxColumns[columnCount])\<close>, for the token with its leading white space removed.
\<close>

definition processCell ::
  "('v::zero) platform \<Rightarrow> FloatingPointVariableType \<Rightarrow> int \<Rightarrow> nat \<Rightarrow> string
     \<Rightarrow> 'v csv_state \<Rightarrow> csv_error + 'v csv_state" where
  "processCell P inputDistributionsType rowCount columnCount token st =
     (if \<not> uxColumns st ! columnCount then
        let st1 = (if rowCount = 0 \<and> strstr token ''Ux''
                   then st\<lparr>uxColumns := (uxColumns st)[columnCount := True]\<rparr>
                   else st);
            shouldIgnore = shouldIgnoreToken token;
            index = sampleCounts st1 ! columnCount
        in if shouldIgnore then storeSample st1 columnCount index 0
           else (case parseChecked P inputDistributionsType token of
                   None \<Rightarrow> Inl (NotAValidNumber rowCount columnCount token)
                 | Some parsedValue \<Rightarrow>
                     (case storeSample st1 columnCount index parsedValue of
                        Inl e \<Rightarrow> Inl e
                      | Inr st2 \<Rightarrow>
                          Inr (st2\<lparr>sampleCounts :=
                                     (sampleCounts st2)[columnCount := Suc index]\<rparr>)))
      else Inr st)"

text \<open>
  The token loop of one data row. It returns the final \<open>columnCount\<close> with the state.
\<close>

fun processTokens ::
  "('v::zero) platform \<Rightarrow> FloatingPointVariableType \<Rightarrow> nat \<Rightarrow> int \<Rightarrow> string list \<Rightarrow> nat
     \<Rightarrow> 'v csv_state \<Rightarrow> csv_error + (nat \<times> 'v csv_state)" where
  "processTokens P ty numberOfDistributions rowCount [] columnCount st = Inr (columnCount, st)"
| "processTokens P ty numberOfDistributions rowCount (tok # rest) columnCount st =
     (let token = dropWhile safeIsspace tok
      in if columnCount = numberOfDistributions then Inl (MoreThanExpectedEntries rowCount)
         else (case processCell P ty rowCount columnCount token st of
                 Inl e \<Rightarrow> Inl e
               | Inr st' \<Rightarrow>
                   processTokens P ty numberOfDistributions rowCount rest (Suc columnCount) st'))"

text \<open>
  The loop over the lines of the file, from \<^verbatim>\<open>rowCount = -1\<close>. It returns the final
  \<open>rowCount\<close> with the state.
\<close>

fun readLines ::
  "('v::zero) platform \<Rightarrow> FloatingPointVariableType \<Rightarrow> string list \<Rightarrow> string list \<Rightarrow> int
     \<Rightarrow> 'v csv_state \<Rightarrow> csv_error + (int \<times> 'v csv_state)" where
  "readLines P ty expectedHeaders [] rowCount st = Inr (rowCount, st)"
| "readLines P ty expectedHeaders (buffer # rest) rowCount st =
     (if rowCount = - 1 then
        (case validateInputDistributionCSVHeader buffer expectedHeaders of
           Inl e \<Rightarrow> Inl e
         | Inr _ \<Rightarrow> readLines P ty expectedHeaders rest (rowCount + 1) st)
      else if rowCount \<ge> int kCommonConstantMaxNumberOfInputSamples then Inl (TooManyRows rowCount)
      else
        (case processTokens P ty (length expectedHeaders) rowCount
                (strtok_tokens buffer '','') 0 st of
           Inl e \<Rightarrow> Inl e
         | Inr (columnCount, st') \<Rightarrow>
             if columnCount \<noteq> length expectedHeaders then Inl (LessThanExpectedEntries rowCount)
             else readLines P ty expectedHeaders rest (rowCount + 1) st'))"

text \<open>The loop that fills \<^verbatim>\<open>inputDistributions\<close> after the last line.\<close>

definition distributionsOfState ::
  "'v platform \<Rightarrow> FloatingPointVariableType \<Rightarrow> nat \<Rightarrow> 'v csv_state \<Rightarrow> 'v list" where
  "distributionsOfState P ty numberOfDistributions st =
     map (\<lambda>ii. if uxColumns st ! ii then sampleValues st ! ii ! 0
               else if ty = kFloatingPointVariableTypeFloat
                    then UxHwFloatDistFromSamples P (sampleValues st ! ii) (sampleCounts st ! ii)
                    else UxHwDoubleDistFromSamples P (sampleValues st ! ii) (sampleCounts st ! ii))
         [0..<numberOfDistributions]"

text \<open>
  \<^verbatim>\<open>readInputDistributionsFromCSV\<close>. The expected headers are a list, whose length is
  \<open>numberOfDistributions\<close>. The result is the error, or the \<open>numberOfDistributions\<close>
  values written to \<^verbatim>\<open>inputDistributions\<close>; on an error the function writes none.
\<close>

definition readInputDistributionsFromCSV ::
  "('v::zero) platform \<Rightarrow> string \<Rightarrow> string list \<Rightarrow> FloatingPointVariableType
     \<Rightarrow> csv_error + 'v list" where
  "readInputDistributionsFromCSV P inputFilePath expectedHeaders inputDistributionsType =
     (let numberOfDistributions = length expectedHeaders
      in if numberOfDistributions = 0 then Inr []
         else if inputDistributionsType = kFloatingPointVariableTypeUnknown then Inl Fatal
         else if inputFilePath = ''stdin'' then Inl PipelineNotImplemented
         else (case fopen_read P inputFilePath of
                 None \<Rightarrow> Inl (CannotOpenFile inputFilePath)
               | Some lines \<Rightarrow>
                   (case readLines P inputDistributionsType expectedHeaders lines (- 1)
                           (initialState numberOfDistributions) of
                      Inl e \<Rightarrow> Inl e
                    | Inr (rowCount, st) \<Rightarrow>
                        Inr (distributionsOfState P inputDistributionsType
                               numberOfDistributions st))))"

definition readInputFloatDistributionsFromCSV ::
  "('v::zero) platform \<Rightarrow> string \<Rightarrow> string list \<Rightarrow> csv_error + 'v list" where
  "readInputFloatDistributionsFromCSV P inputFilePath expectedHeaders =
     readInputDistributionsFromCSV P inputFilePath expectedHeaders kFloatingPointVariableTypeFloat"

definition readInputDoubleDistributionsFromCSV ::
  "('v::zero) platform \<Rightarrow> string \<Rightarrow> string list \<Rightarrow> csv_error + 'v list" where
  "readInputDoubleDistributionsFromCSV P inputFilePath expectedHeaders =
     readInputDistributionsFromCSV P inputFilePath expectedHeaders kFloatingPointVariableTypeDouble"

section \<open>Statistics of sample arrays\<close>

subsection \<open>Floating-point arithmetic\<close>

text \<open>
  The arithmetic of the sample type is a parameter of the statistics: the zero that
  \<^verbatim>\<open>sum\<close> and \<^verbatim>\<open>sumOfSquares\<close> start from, the four operations, and the conversion of a
  \<^verbatim>\<open>size_t\<close> to the type, which C applies to the integer operand of
  \<^verbatim>\<open>sum / dataArraySize\<close> and of \<^verbatim>\<open>quantilePercentage * dataArraySize\<close>. Every operation
  rounds its result to the sample type on its own: no fused multiply-add and no
  intermediate result of a higher precision.
\<close>

record 'a arith =
  fzero :: 'a
  fadd :: "'a \<Rightarrow> 'a \<Rightarrow> 'a"
  fsub :: "'a \<Rightarrow> 'a \<Rightarrow> 'a"
  fmul :: "'a \<Rightarrow> 'a \<Rightarrow> 'a"
  fdiv :: "'a \<Rightarrow> 'a \<Rightarrow> 'a"
  ofSize :: "nat \<Rightarrow> 'a"

text \<open>Arithmetic without rounding.\<close>

definition exactArith :: "real arith" where
  "exactArith = \<lparr> fzero = 0, fadd = (+), fsub = (-), fmul = (*), fdiv = (/), ofSize = real \<rparr>"

text \<open>
  Rounding to the nearest number with a significand of \<open>p\<close> bits, ties to the even
  significand, as IEEE 754 arithmetic does in its default mode. The range of the exponent
  is not bounded in \<open>roundToPrecision\<close>; \<open>roundToFormat\<close> below adds the range.
\<close>

definition roundTiesToEven :: "real \<Rightarrow> int" where
  "roundTiesToEven m =
     (let f = \<lfloor>m\<rfloor>; d = m - of_int f
      in if d < 1 / 2 then f
         else if 1 / 2 < d then f + 1
         else if even f then f else f + 1)"

definition roundToPrecision :: "nat \<Rightarrow> real \<Rightarrow> real" where
  "roundToPrecision p x =
     (if x = 0 then 0
      else let e = \<lfloor>log 2 \<bar>x\<bar>\<rfloor> - int p + 1
           in of_int (roundTiesToEven (x / 2 powr (of_int e))) * 2 powr (of_int e))"

text \<open>
  The arithmetic on the real numbers that rounds to \<open>p\<close> bits. The quantile functions use
  it for one product, that of the fraction and the array size, of which only the integral
  part is looked at. For a fraction that is a finite number the exponent range plays no
  role there: a product too small for the normal range has the integral part zero with
  and without gradual underflow, and a product beyond the largest finite number is beyond
  the range of \<^verbatim>\<open>int\<close> in both.
\<close>

definition roundedArith :: "nat \<Rightarrow> real arith" where
  "roundedArith p =
     \<lparr> fzero = 0,
       fadd = (\<lambda>a b. roundToPrecision p (a + b)),
       fsub = (\<lambda>a b. roundToPrecision p (a - b)),
       fmul = (\<lambda>a b. roundToPrecision p (a * b)),
       fdiv = (\<lambda>a b. roundToPrecision p (a / b)),
       ofSize = (\<lambda>n. roundToPrecision p (real n)) \<rparr>"

definition binary32Arith :: "real arith" where
  "binary32Arith = roundedArith 24"

definition binary64Arith :: "real arith" where
  "binary64Arith = roundedArith 53"

text \<open>
  The values of a \<^verbatim>\<open>float\<close> or \<^verbatim>\<open>double\<close>: the finite numbers, the two infinities and
  NaN. The sign of a zero is not kept. It would show in a division by a negative zero
  only, and the divisors of this program are converted sizes.
\<close>

datatype fpValue = Finite real | PlusInfinity | MinusInfinity | NaN

text \<open>
  Rounding to a binary format with \<open>p\<close> bits of significand and the largest exponent
  \<open>emax\<close> (the smallest is \<open>1 - emax\<close>): below the normal range the result is a multiple of
  the smallest subnormal number (gradual underflow), and a result that rounds beyond the
  largest finite number is an infinity.
\<close>

definition roundToFormat :: "nat \<Rightarrow> int \<Rightarrow> real \<Rightarrow> fpValue" where
  "roundToFormat p emax x =
     (let emin = 1 - emax;
          quantum = 2 powr (of_int (emin - int p + 1));
          r = (if \<bar>x\<bar> < 2 powr (of_int emin)
               then of_int (roundTiesToEven (x / quantum)) * quantum
               else roundToPrecision p x)
      in if 2 powr (of_int (emax + 1)) \<le> \<bar>r\<bar>
         then (if 0 < x then PlusInfinity else MinusInfinity)
         else Finite r)"

fun fpNegative :: "fpValue \<Rightarrow> bool" where
  "fpNegative (Finite x) = (x < 0)"
| "fpNegative PlusInfinity = False"
| "fpNegative MinusInfinity = True"
| "fpNegative NaN = False"

definition infinityWithSign :: "bool \<Rightarrow> fpValue" where
  "infinityWithSign negative = (if negative then MinusInfinity else PlusInfinity)"

fun fpNeg :: "fpValue \<Rightarrow> fpValue" where
  "fpNeg (Finite x) = Finite (- x)"
| "fpNeg PlusInfinity = MinusInfinity"
| "fpNeg MinusInfinity = PlusInfinity"
| "fpNeg NaN = NaN"

text \<open>
  The four operations of IEEE 754: NaN for a NaN operand, for the sum of the two opposite
  infinities, for zero times an infinity, for zero divided by zero and for an infinity
  divided by an infinity; an infinity for a nonzero number divided by zero.
\<close>

fun fpAdd :: "nat \<Rightarrow> int \<Rightarrow> fpValue \<Rightarrow> fpValue \<Rightarrow> fpValue" where
  "fpAdd p emax (Finite x) (Finite y) = roundToFormat p emax (x + y)"
| "fpAdd p emax NaN b = NaN"
| "fpAdd p emax a NaN = NaN"
| "fpAdd p emax (Finite x) b = b"
| "fpAdd p emax a (Finite y) = a"
| "fpAdd p emax a b = (if a = b then a else NaN)"

definition fpSub :: "nat \<Rightarrow> int \<Rightarrow> fpValue \<Rightarrow> fpValue \<Rightarrow> fpValue" where
  "fpSub p emax a b = fpAdd p emax a (fpNeg b)"

fun fpMul :: "nat \<Rightarrow> int \<Rightarrow> fpValue \<Rightarrow> fpValue \<Rightarrow> fpValue" where
  "fpMul p emax (Finite x) (Finite y) = roundToFormat p emax (x * y)"
| "fpMul p emax NaN b = NaN"
| "fpMul p emax a NaN = NaN"
| "fpMul p emax a b =
     (if a = Finite 0 \<or> b = Finite 0 then NaN
      else infinityWithSign (fpNegative a \<noteq> fpNegative b))"

fun fpDiv :: "nat \<Rightarrow> int \<Rightarrow> fpValue \<Rightarrow> fpValue \<Rightarrow> fpValue" where
  "fpDiv p emax (Finite x) (Finite y) =
     (if y = 0 then (if x = 0 then NaN else infinityWithSign (x < 0))
      else roundToFormat p emax (x / y))"
| "fpDiv p emax NaN b = NaN"
| "fpDiv p emax a NaN = NaN"
| "fpDiv p emax (Finite x) b = Finite 0"
| "fpDiv p emax a (Finite y) = infinityWithSign (fpNegative a \<noteq> (y < 0))"
| "fpDiv p emax a b = NaN"

definition ieeeArith :: "nat \<Rightarrow> int \<Rightarrow> fpValue arith" where
  "ieeeArith p emax =
     \<lparr> fzero = Finite 0,
       fadd = fpAdd p emax,
       fsub = fpSub p emax,
       fmul = fpMul p emax,
       fdiv = fpDiv p emax,
       ofSize = (\<lambda>n. roundToFormat p emax (real n)) \<rparr>"

text \<open>The formats of \<^verbatim>\<open>float\<close> and of \<^verbatim>\<open>double\<close>.\<close>

definition ieeeBinary32 :: "fpValue arith" where
  "ieeeBinary32 = ieeeArith 24 127"

definition ieeeBinary64 :: "fpValue arith" where
  "ieeeBinary64 = ieeeArith 53 1023"

text \<open>
  The conversion \<^verbatim>\<open>(int)x\<close> of a floating-point value: the fraction is discarded, and the
  behaviour is undefined when the integral part is not an \<^verbatim>\<open>int\<close> (32 bits).
\<close>

definition truncToInt :: "real \<Rightarrow> int option" where
  "truncToInt x =
     (let t = (if 0 \<le> x then \<lfloor>x\<rfloor> else \<lceil>x\<rceil>)
      in if - (2 ^ 31) \<le> t \<and> t < 2 ^ 31 then Some t else None)"

datatype undefined_behaviour =
    IntConversionOutOfRange
  | IndexOutOfBounds int nat
  | MatrixTooSmall

subsection \<open>Mean and variance\<close>

record 'a MeanAndVariance =
  mean :: 'a
  variance :: 'a

text \<open>The loop over the samples, on the pair of \<^verbatim>\<open>sum\<close> (here \<open>sumOfSamples\<close>) and \<^verbatim>\<open>sumOfSquares\<close>.\<close>

fun accumulateSamples :: "'a arith \<Rightarrow> 'a list \<Rightarrow> 'a \<times> 'a \<Rightarrow> 'a \<times> 'a" where
  "accumulateSamples A [] (sumOfSamples, sumOfSquares) = (sumOfSamples, sumOfSquares)"
| "accumulateSamples A (x # xs) (sumOfSamples, sumOfSquares) =
     accumulateSamples A xs (fadd A sumOfSamples x, fadd A sumOfSquares (fmul A x x))"

definition calculateMeanAndVarianceOfSamples :: "'a arith \<Rightarrow> 'a list \<Rightarrow> 'a MeanAndVariance" where
  "calculateMeanAndVarianceOfSamples A dataArray =
     (case accumulateSamples A dataArray (fzero A, fzero A) of (sumOfSamples, sumOfSquares) \<Rightarrow>
        let dataArraySize = ofSize A (length dataArray);
            mean = fdiv A sumOfSamples dataArraySize;
            variance = fsub A (fdiv A sumOfSquares dataArraySize) (fmul A mean mean)
        in \<lparr> mean = mean, variance = variance \<rparr>)"

text \<open>
  The single-precision function converts its two results to \<^verbatim>\<open>double\<close>, which changes no
  value.
\<close>

definition calculateMeanAndVarianceOfFloatSamples :: "fpValue list \<Rightarrow> fpValue MeanAndVariance" where
  "calculateMeanAndVarianceOfFloatSamples = calculateMeanAndVarianceOfSamples ieeeBinary32"

definition calculateMeanAndVarianceOfDoubleSamples :: "fpValue list \<Rightarrow> fpValue MeanAndVariance" where
  "calculateMeanAndVarianceOfDoubleSamples = calculateMeanAndVarianceOfSamples ieeeBinary64"

subsection \<open>Mean and variance of the columns of a matrix\<close>

text \<open>
  The inner loop over the rows \<open>ii\<close> for the column \<open>jj\<close>, reading
  \<^verbatim>\<open>dataArray[ii][jj]\<close>.
\<close>

fun accumulateColumn ::
  "'a arith \<Rightarrow> 'a list list \<Rightarrow> nat \<Rightarrow> nat list \<Rightarrow> 'a \<times> 'a \<Rightarrow> 'a \<times> 'a" where
  "accumulateColumn A dataArray jj [] (sumOfSamples, sumOfSquares) = (sumOfSamples, sumOfSquares)"
| "accumulateColumn A dataArray jj (ii # iis) (sumOfSamples, sumOfSquares) =
     accumulateColumn A dataArray jj iis
       (fadd A sumOfSamples (dataArray ! ii ! jj),
        fadd A sumOfSquares (fmul A (dataArray ! ii ! jj) (dataArray ! ii ! jj)))"

definition columnMeanAndVariance ::
  "'a arith \<Rightarrow> 'a list list \<Rightarrow> nat \<Rightarrow> nat \<Rightarrow> 'a \<times> 'a" where
  "columnMeanAndVariance A dataArray dataArrayRows jj =
     (case accumulateColumn A dataArray jj [0..<dataArrayRows] (fzero A, fzero A) of
        (sumOfSamples, sumOfSquares) \<Rightarrow>
          let meanValue = fdiv A sumOfSamples (ofSize A dataArrayRows)
          in (meanValue,
              fsub A (fdiv A sumOfSquares (ofSize A dataArrayRows)) (fmul A meanValue meanValue)))"

text \<open>
  The matrix is an array of \<open>dataArrayRows\<close> pointers to rows of \<open>dataArrayColumns\<close>
  values. Reading a row or an entry that the caller did not provide is undefined. The
  result is the pair of \<^verbatim>\<open>meanValueArray\<close> and \<^verbatim>\<open>varianceArray\<close>.
\<close>

definition calculateMeanAndVarianceOfMultiDimensionalSamples ::
  "'a arith \<Rightarrow> 'a list list \<Rightarrow> nat \<Rightarrow> nat \<Rightarrow> undefined_behaviour + ('a list \<times> 'a list)" where
  "calculateMeanAndVarianceOfMultiDimensionalSamples A dataArray dataArrayRows dataArrayColumns =
     (if dataArrayColumns > 0 \<and>
         (length dataArray < dataArrayRows
          \<or> (\<exists>row \<in> set (take dataArrayRows dataArray). length row < dataArrayColumns))
      then Inl MatrixTooSmall
      else Inr (map (\<lambda>jj. fst (columnMeanAndVariance A dataArray dataArrayRows jj))
                    [0..<dataArrayColumns],
                map (\<lambda>jj. snd (columnMeanAndVariance A dataArray dataArrayRows jj))
                    [0..<dataArrayColumns]))"

definition calculateMeanAndVarianceOfMultiDimensionalFloatSamples ::
  "fpValue list list \<Rightarrow> nat \<Rightarrow> nat \<Rightarrow> undefined_behaviour + (fpValue list \<times> fpValue list)" where
  "calculateMeanAndVarianceOfMultiDimensionalFloatSamples =
     calculateMeanAndVarianceOfMultiDimensionalSamples ieeeBinary32"

definition calculateMeanAndVarianceOfMultiDimensionalDoubleSamples ::
  "fpValue list list \<Rightarrow> nat \<Rightarrow> nat \<Rightarrow> undefined_behaviour + (fpValue list \<times> fpValue list)" where
  "calculateMeanAndVarianceOfMultiDimensionalDoubleSamples =
     calculateMeanAndVarianceOfMultiDimensionalSamples ieeeBinary64"

subsection \<open>Quantiles\<close>

text \<open>
  The samples of the quantile functions are only copied and compared, never computed
  with. They are modelled by the real numbers they denote, which leaves NaN out: against a
  NaN the comparison below answers "equal" to every value, and the order that \<^verbatim>\<open>qsort\<close>
  produces is then not determined.

  \<^verbatim>\<open>compareFloats\<close> and \<^verbatim>\<open>compareDoubles\<close>: the sign of the rounded difference.
\<close>

definition compareSamples :: "real arith \<Rightarrow> real \<Rightarrow> real \<Rightarrow> int" where
  "compareSamples A a b =
     (let diff = fsub A a b
      in (if diff > 0 then 1 else 0) - (if diff < 0 then 1 else 0))"

text \<open>
  \<^verbatim>\<open>qsort\<close> comes from the C library. It is modelled by insertion sort under the comparison
  function: for a comparison that agrees with the order of the values, equal elements
  cannot be told apart, and every sorting algorithm returns the same array.
\<close>

fun insertBy :: "('a \<Rightarrow> 'a \<Rightarrow> int) \<Rightarrow> 'a \<Rightarrow> 'a list \<Rightarrow> 'a list" where
  "insertBy cmp x [] = [x]"
| "insertBy cmp x (y # ys) = (if cmp x y \<le> 0 then x # y # ys else y # insertBy cmp x ys)"

definition qsort :: "('a \<Rightarrow> 'a \<Rightarrow> int) \<Rightarrow> 'a list \<Rightarrow> 'a list" where
  "qsort cmp xs = foldr (insertBy cmp) xs []"

text \<open>
  The quantile functions. The samples are copied, the copy is sorted, and the element at
  the index \<^verbatim>\<open>(int)(quantilePercentage * dataArraySize)\<close> of the copy is returned; reading
  the copy outside its \<open>dataArraySize\<close> elements is undefined. The result carries the content
  of the caller's \<^verbatim>\<open>dataArray\<close> after the call, beside the quantile. (For an empty array
  the allocation of zero bytes may also fail; the model does not follow that.)
\<close>

definition calculatePercentageQuantileOfSamples ::
  "real arith \<Rightarrow> real list \<Rightarrow> real \<Rightarrow> undefined_behaviour + (real \<times> real list)" where
  "calculatePercentageQuantileOfSamples A dataArray quantilePercentage =
     (let dataArraySize = length dataArray;
          dataArrayCopy = qsort (compareSamples A) dataArray
      in case truncToInt (fmul A quantilePercentage (ofSize A dataArraySize)) of
           None \<Rightarrow> Inl IntConversionOutOfRange
         | Some index \<Rightarrow>
             if 0 \<le> index \<and> index < int dataArraySize
             then Inr (dataArrayCopy ! nat index, dataArray)
             else Inl (IndexOutOfBounds index dataArraySize))"

definition calculatePercentageQuantileOfFloatSamples ::
  "real list \<Rightarrow> real \<Rightarrow> undefined_behaviour + (real \<times> real list)" where
  "calculatePercentageQuantileOfFloatSamples =
     calculatePercentageQuantileOfSamples binary32Arith"

definition calculatePercentageQuantileOfDoubleSamples ::
  "real list \<Rightarrow> real \<Rightarrow> undefined_behaviour + (real \<times> real list)" where
  "calculatePercentageQuantileOfDoubleSamples =
     calculatePercentageQuantileOfSamples binary64Arith"

section \<open>Vocabulary of the properties\<close>

subsection \<open>Header validation\<close>

text \<open>
  The two value checks that the header loop applies to the token of one column, and the
  diagnostic it prints when one of them fails.
\<close>

definition headerTokenOK :: "string \<Rightarrow> string \<Rightarrow> bool" where
  "headerTokenOK expected tok =
     (let token = dropWhile safeIsspace tok
      in strncmp_eq token expected (length expected)
         \<and> list_all safeIsspace (drop (length expected) token))"

definition headerValueError :: "nat \<Rightarrow> string \<Rightarrow> string \<Rightarrow> csv_error" where
  "headerValueError columnCount expected tok =
     (let token = dropWhile safeIsspace tok
      in if \<not> strncmp_eq token expected (length expected)
         then HeaderMismatch columnCount expected token
         else HeaderTrailingCharacters columnCount expected token)"

definition isColumnCountError :: "csv_error + unit \<Rightarrow> bool" where
  "isColumnCountError r = (r = Inl MoreThanExpectedHeaders \<or> r = Inl LessThanExpectedHeaders)"

subsection \<open>Statistics\<close>

text \<open>Column \<open>jj\<close> of a matrix of \<open>dataArrayRows\<close> rows, as a sample array.\<close>

definition matrixColumn :: "'a list list \<Rightarrow> nat \<Rightarrow> nat \<Rightarrow> 'a list" where
  "matrixColumn dataArray dataArrayRows jj = map (\<lambda>row. row ! jj) (take dataArrayRows dataArray)"

text \<open>
  The two running sums of the mean and variance, accumulated from the left in the
  arithmetic of the sample type.
\<close>

definition roundedSum :: "'a arith \<Rightarrow> 'a list \<Rightarrow> 'a" where
  "roundedSum A xs = foldl (fadd A) (fzero A) xs"

definition roundedSumOfSquares :: "'a arith \<Rightarrow> 'a list \<Rightarrow> 'a" where
  "roundedSumOfSquares A xs = foldl (\<lambda>q x. fadd A q (fmul A x x)) (fzero A) xs"

text \<open>
  A value \<open>v\<close> lies within the factors \<open>lo\<close> and \<open>hi\<close> of a reference value \<open>c\<close>: the
  form in which the rounding errors of a computation are followed.
\<close>

definition scaledWithin :: "real \<Rightarrow> real \<Rightarrow> real \<Rightarrow> real \<Rightarrow> bool" where
  "scaledWithin c lo hi v \<longleftrightarrow> (\<exists>r. v = c * r \<and> lo \<le> r \<and> r \<le> hi)"

text \<open>
  A computed value \<open>x\<close> is close to the ideal value \<open>y\<close>: their distance is at most the
  fraction \<open>g - 1\<close> of \<open>y\<close> and the absolute amount \<open>\<eta>\<close> together. Half the distance of two
  neighbouring subnormal numbers is the absolute error of a rounding below the normal
  range.
\<close>

definition closeTo :: "real \<Rightarrow> real \<Rightarrow> real \<Rightarrow> real \<Rightarrow> bool" where
  "closeTo y g \<eta> x \<longleftrightarrow> \<bar>x - y\<bar> \<le> (g - 1) * \<bar>y\<bar> + \<eta>"

definition halfQuantum :: "nat \<Rightarrow> int \<Rightarrow> real" where
  "halfQuantum p emax = 2 powr (of_int (1 - emax - int p))"

subsection \<open>The CSV reader\<close>

text \<open>
  The tokens of a data row as the token loop sees them, each with its leading white space
  removed.
\<close>

definition rowTokens :: "string \<Rightarrow> string list" where
  "rowTokens buffer = map (dropWhile safeIsspace) (strtok_tokens buffer '','')"

text \<open>
  The tokens of column \<open>c\<close>, one for every data row, from the first row down.
\<close>

definition columnTokens :: "string list \<Rightarrow> nat \<Rightarrow> string list" where
  "columnTokens rows c = map (\<lambda>buffer. rowTokens buffer ! c) rows"

text \<open>
  What the reader holds for one column: its flag in \<^verbatim>\<open>uxColumns\<close>, its sample buffer and
  its entry of \<^verbatim>\<open>sampleCounts\<close>.
\<close>

type_synonym 'v column_state = "bool \<times> 'v list \<times> nat"

text \<open>
  Reading and writing the three entries of one column in the state.
\<close>

definition columnOf :: "'v csv_state \<Rightarrow> nat \<Rightarrow> 'v column_state" where
  "columnOf st c = (uxColumns st ! c, sampleValues st ! c, sampleCounts st ! c)"

definition setColumn :: "'v csv_state \<Rightarrow> nat \<Rightarrow> 'v column_state \<Rightarrow> 'v csv_state" where
  "setColumn st c s =
     (case s of (u, buf, cnt) \<Rightarrow>
        st\<lparr>sampleValues := (sampleValues st)[c := buf],
           sampleCounts := (sampleCounts st)[c := cnt],
           uxColumns := (uxColumns st)[c := u]\<rparr>)"

text \<open>
  The three arrays of the state have one entry for each of the \<open>n\<close> columns.
\<close>

definition wfState :: "nat \<Rightarrow> 'v csv_state \<Rightarrow> bool" where
  "wfState n st = (length (sampleValues st) = n \<and> length (sampleCounts st) = n
                    \<and> length (uxColumns st) = n)"

text \<open>
  \<open>processCell\<close> seen from the column it works on: the same tests in the same order, on the
  flag, the buffer and the count of that column.
\<close>

definition cellStep ::
  "('v::zero) platform \<Rightarrow> FloatingPointVariableType \<Rightarrow> int \<Rightarrow> nat \<Rightarrow> string
     \<Rightarrow> 'v column_state \<Rightarrow> csv_error + 'v column_state" where
  "cellStep P ty rowCount columnCount token s =
     (case s of (u, buf, cnt) \<Rightarrow>
        if u then Inr (u, buf, cnt)
        else if shouldIgnoreToken token then
               (if cnt < length buf
                then Inr (rowCount = 0 \<and> strstr token ''Ux'', buf[cnt := 0], cnt)
                else Inl (BufferOverrun columnCount cnt))
        else (case parseChecked P ty token of
                None \<Rightarrow> Inl (NotAValidNumber rowCount columnCount token)
              | Some v \<Rightarrow>
                  if cnt < length buf
                  then Inr (rowCount = 0 \<and> strstr token ''Ux'', buf[cnt := v], Suc cnt)
                  else Inl (BufferOverrun columnCount cnt)))"

text \<open>
  The cells of one column taken row after row, the row count growing by one with each.
\<close>

fun columnRun ::
  "('v::zero) platform \<Rightarrow> FloatingPointVariableType \<Rightarrow> nat \<Rightarrow> int \<Rightarrow> string list
     \<Rightarrow> 'v column_state \<Rightarrow> csv_error + 'v column_state" where
  "columnRun P ty c rowCount [] s = Inr s"
| "columnRun P ty c rowCount (t # ts) s =
     (case cellStep P ty rowCount c t s of
        Inl e \<Rightarrow> Inl e
      | Inr s' \<Rightarrow> columnRun P ty c (rowCount + 1) ts s')"

text \<open>
  A token that the reader takes without an error in a column that is not a distribution
  column: the ignore pattern, or a token that the checked parser of the read accepts.
\<close>

definition acceptableToken :: "('v::zero) platform \<Rightarrow> FloatingPointVariableType \<Rightarrow> string \<Rightarrow> bool" where
  "acceptableToken P ty t = (shouldIgnoreToken t \<or> parseChecked P ty t \<noteq> None)"

text \<open>
  The samples a list of tokens leaves in a buffer: the parsed values of the tokens that
  are not the ignore pattern.
\<close>

definition parsedSamples :: "('v::zero) platform \<Rightarrow> FloatingPointVariableType \<Rightarrow> string list \<Rightarrow> 'v list" where
  "parsedSamples P ty toks =
     map (\<lambda>t. the (parseChecked P ty t)) (filter (\<lambda>t. \<not> shouldIgnoreToken t) toks)"

text \<open>
  The tokens of a whole column are accepted: with the marker in the first token that token
  must parse and the others are free; without it every token must be acceptable.
\<close>

definition columnAccepted :: "('v::zero) platform \<Rightarrow> FloatingPointVariableType \<Rightarrow> string list \<Rightarrow> bool" where
  "columnAccepted P ty toks =
     (case toks of
        [] \<Rightarrow> True
      | t0 # ts \<Rightarrow> if strstr t0 ''Ux'' then parseChecked P ty t0 \<noteq> None
                  else list_all (acceptableToken P ty) toks)"

text \<open>
  The flag, the buffer and the count of a column after all its tokens.
\<close>

definition columnResult ::
  "('v::zero) platform \<Rightarrow> FloatingPointVariableType \<Rightarrow> string list \<Rightarrow> 'v column_state" where
  "columnResult P ty toks =
     (case toks of
        [] \<Rightarrow> (False, replicate kCommonConstantMaxNumberOfInputSamples 0, 0)
      | t0 # ts \<Rightarrow>
          if strstr t0 ''Ux''
          then (True, the (parseChecked P ty t0)
                        # replicate (kCommonConstantMaxNumberOfInputSamples - 1) 0, 1)
          else (False,
                parsedSamples P ty toks
                  @ replicate (kCommonConstantMaxNumberOfInputSamples - length (parsedSamples P ty toks)) 0,
                length (parsedSamples P ty toks)))"

text \<open>
  The conversion of \<^verbatim>\<open>uxhw.h\<close> that the read applies to a buffer and its count.
\<close>

definition samplesToDistribution ::
  "'v platform \<Rightarrow> FloatingPointVariableType \<Rightarrow> 'v list \<Rightarrow> nat \<Rightarrow> 'v" where
  "samplesToDistribution P ty samples sampleCount =
     (if ty = kFloatingPointVariableTypeFloat
      then UxHwFloatDistFromSamples P samples sampleCount
      else UxHwDoubleDistFromSamples P samples sampleCount)"

text \<open>
  The entry of \<^verbatim>\<open>inputDistributions\<close> for a column with the given tokens: the value
  captured from the first row for a distribution column, and otherwise the distribution of
  the accumulated samples.
\<close>

definition expectedDistribution ::
  "('v::zero) platform \<Rightarrow> FloatingPointVariableType \<Rightarrow> string list \<Rightarrow> 'v" where
  "expectedDistribution P ty toks =
     (if strstr (hd toks) ''Ux'' then the (parseChecked P ty (hd toks))
      else samplesToDistribution P ty
             (parsedSamples P ty toks
                @ replicate (kCommonConstantMaxNumberOfInputSamples - length (parsedSamples P ty toks)) 0)
             (length (parsedSamples P ty toks)))"

text \<open>
  The row count and the state of the reader after the header line and the first \<open>k\<close> data
  rows of a file.
\<close>

definition readerAfter ::
  "('v::zero) platform \<Rightarrow> FloatingPointVariableType \<Rightarrow> string list \<Rightarrow> string \<Rightarrow> string list
     \<Rightarrow> nat \<Rightarrow> csv_error + (int \<times> 'v csv_state)" where
  "readerAfter P ty expectedHeaders header rows k =
     readLines P ty expectedHeaders (header # take k rows) (- 1)
       (initialState (length expectedHeaders))"

text \<open>
  The examples below run the reader on a small platform. Its \<^verbatim>\<open>strtof\<close> and \<^verbatim>\<open>strtod\<close>
  read decimal integers only: optional white space, an optional sign and digits. On the
  tokens of the examples this is what the C library does: such a number followed by a
  newline or by \<^verbatim>\<open>Ux\<close> is converted up to its last digit, and of a token without a
  numeric prefix no character is consumed. The distribution of the samples is their mean,
  and there is one file, \<^verbatim>\<open>input.csv\<close>.
\<close>

definition isDecimalDigit :: "char \<Rightarrow> bool" where
  "isDecimalDigit c = (48 \<le> (of_char c :: nat) \<and> (of_char c :: nat) \<le> 57)"

definition decimalValue :: "string \<Rightarrow> nat" where
  "decimalValue ds = foldl (\<lambda>a c. 10 * a + (of_char c - 48)) 0 ds"

definition strtoDecimal :: "string \<Rightarrow> real \<times> nat \<times> bool" where
  "strtoDecimal str =
     (let ws = takeWhile safeIsspace str;
          s1 = dropWhile safeIsspace str;
          signed = (s1 \<noteq> [] \<and> (hd s1 = CHR ''-'' \<or> hd s1 = CHR ''+''));
          s2 = (if signed then tl s1 else s1);
          ds = takeWhile isDecimalDigit s2
      in if ds = [] then (0, 0, False)
         else ((if signed \<and> hd s1 = CHR ''-'' then - 1 else 1) * real (decimalValue ds),
               length ws + (if signed then 1 else 0) + length ds,
               False))"

definition meanOfSamples :: "real list \<Rightarrow> nat \<Rightarrow> real" where
  "meanOfSamples samples sampleCount = sum_list (take sampleCount samples) / real sampleCount"

definition examplePlatform :: "(string \<Rightarrow> string list option) \<Rightarrow> real platform" where
  "examplePlatform files =
     \<lparr> strtof = strtoDecimal, strtod = strtoDecimal,
       UxHwFloatDistFromSamples = meanOfSamples, UxHwDoubleDistFromSamples = meanOfSamples,
       fopen_read = files \<rparr>"

definition exampleFile :: "string list \<Rightarrow> string \<Rightarrow> string list option" where
  "exampleFile content path = (if path = ''input.csv'' then Some content else None)"

text \<open>
  While the reader is at data row \<open>rowCount\<close>, every buffer has its full length and no
  column holds more samples than rows were read.
\<close>

definition capacityInvariant :: "nat \<Rightarrow> int \<Rightarrow> 'v csv_state \<Rightarrow> bool" where
  "capacityInvariant n rowCount st =
     (0 \<le> rowCount \<and> wfState n st
      \<and> (\<forall>c<n. length (sampleValues st ! c) = kCommonConstantMaxNumberOfInputSamples
                \<and> int (sampleCounts st ! c) \<le> rowCount))"

text \<open>
  The fields of a line in the usual sense of comma-separated text: the line is cut at every
  comma, and two commas in a row (or a comma at either end) enclose an empty field.
\<close>

fun csvFields :: "string \<Rightarrow> string list" where
  "csvFields [] = [[]]"
| "csvFields (c # cs) =
     (if c = CHR '','' then [] # csvFields cs
      else (case csvFields cs of [] \<Rightarrow> [[c]] | f # fs \<Rightarrow> (c # f) # fs))"

section \<open>Properties of the header validation\<close>

lemma validateHeaderTokens_all_ok:
  "cc \<le> length hdrs \<Longrightarrow>
   (\<And>i. i < length toks \<Longrightarrow> cc + i < length hdrs \<Longrightarrow> headerTokenOK (hdrs ! (cc + i)) (toks ! i)) \<Longrightarrow>
   validateHeaderTokens hdrs toks cc =
     (if length hdrs < cc + length toks then Inl MoreThanExpectedHeaders
      else if cc + length toks < length hdrs then Inl LessThanExpectedHeaders
      else Inr ())"
proof (induction toks arbitrary: cc)
  case Nil
  then show ?case by auto
next
  case (Cons tok rest)
  show ?case
  proof (cases "cc = length hdrs")
    case True
    then show ?thesis by simp
  next
    case False
    with Cons.prems(1) have lt: "cc < length hdrs" by simp
    from Cons.prems(2) [of 0] lt have ok: "headerTokenOK (hdrs ! cc) tok" by simp
    have rest_ok: "\<And>i. i < length rest \<Longrightarrow> Suc cc + i < length hdrs
                     \<Longrightarrow> headerTokenOK (hdrs ! (Suc cc + i)) (rest ! i)"
      using Cons.prems(2) by force
    have "validateHeaderTokens hdrs (tok # rest) cc = validateHeaderTokens hdrs rest (Suc cc)"
      using False ok by (simp add: headerTokenOK_def Let_def)
    also have "\<dots> = (if length hdrs < Suc cc + length rest then Inl MoreThanExpectedHeaders
      else if Suc cc + length rest < length hdrs then Inl LessThanExpectedHeaders
      else Inr ())"
      using lt rest_ok by (intro Cons.IH) auto
    finally show ?thesis by simp
  qed
qed

lemma validateHeaderTokens_first_bad:
  "i < length toks \<Longrightarrow> cc + i < length hdrs \<Longrightarrow>
   \<not> headerTokenOK (hdrs ! (cc + i)) (toks ! i) \<Longrightarrow>
   (\<And>j. j < i \<Longrightarrow> headerTokenOK (hdrs ! (cc + j)) (toks ! j)) \<Longrightarrow>
   validateHeaderTokens hdrs toks cc = Inl (headerValueError (cc + i) (hdrs ! (cc + i)) (toks ! i))"
proof (induction toks arbitrary: cc i)
  case Nil
  then show ?case by simp
next
  case (Cons tok rest)
  show ?case
  proof (cases i)
    case 0
    with Cons.prems show ?thesis
      by (auto simp: headerTokenOK_def headerValueError_def Let_def)
  next
    case (Suc k)
    from Cons.prems(2) Suc have ne: "cc \<noteq> length hdrs" by simp
    from Cons.prems(4) [of 0] Suc have ok: "headerTokenOK (hdrs ! cc) tok" by simp
    have step: "validateHeaderTokens hdrs (tok # rest) cc = validateHeaderTokens hdrs rest (Suc cc)"
      using ne ok by (simp add: headerTokenOK_def Let_def)
    have "validateHeaderTokens hdrs rest (Suc cc)
            = Inl (headerValueError (Suc cc + k) (hdrs ! (Suc cc + k)) (rest ! k))"
    proof (rule Cons.IH)
      show "k < length rest" using Cons.prems(1) Suc by simp
      show "Suc cc + k < length hdrs" using Cons.prems(2) Suc by simp
      show "\<not> headerTokenOK (hdrs ! (Suc cc + k)) (rest ! k)" using Cons.prems(3) Suc by simp
      show "\<And>j. j < k \<Longrightarrow> headerTokenOK (hdrs ! (Suc cc + j)) (rest ! j)"
        using Cons.prems(4) [of "Suc _"] Suc by simp
    qed
    with step Suc show ?thesis by simp
  qed
qed

lemma headerValueError_not_count:
  "headerValueError c e t \<noteq> MoreThanExpectedHeaders" "headerValueError c e t \<noteq> LessThanExpectedHeaders"
  by (simp_all add: headerValueError_def Let_def)

lemma first_bad_index:
  fixes n :: nat
  assumes "\<not> (\<forall>i<n. P i)"
  obtains i where "i < n" "\<not> P i" "\<forall>j<i. P j"
proof -
  from assms obtain k where k: "k < n \<and> \<not> P k" by auto
  define i where "i = (LEAST k. k < n \<and> \<not> P k)"
  have "i < n \<and> \<not> P i" unfolding i_def using k by (rule LeastI [of "\<lambda>k. k < n \<and> \<not> P k"])
  moreover have "\<forall>j<i. P j"
  proof (intro allI impI)
    fix j assume "j < i"
    then have "\<not> (j < n \<and> \<not> P j)" unfolding i_def by (rule not_less_Least)
    moreover have "j < n" using \<open>j < i\<close> \<open>i < n \<and> \<not> P i\<close> by simp
    ultimately show "P j" by simp
  qed
  ultimately show ?thesis using that by blast
qed

text \<open>
  Claim C2, as amended. The validation reports a mismatch of the column count only when
  every header token at a position below the expected count passes its two value checks:
  "more than expected" exactly when there are more tokens than expected headers and the
  first \<open>n\<close> tokens are all valid (the text of token \<open>n + 1\<close> is not examined);
  "less than expected" exactly when there are fewer tokens and all of them are valid.
  When a token below the expected count fails a value check, the value error of the first
  such token is what the validation reports.
\<close>

theorem header_count_error_after_value_errors:
  fixes actualHeaderRow :: string and expectedHeaders :: "string list"
  defines "toks \<equiv> strtok_tokens actualHeaderRow '',''"
  defines "n \<equiv> length expectedHeaders"
  defines "ok \<equiv> (\<lambda>i. headerTokenOK (expectedHeaders ! i) (toks ! i))"
  shows "(validateInputDistributionCSVHeader actualHeaderRow expectedHeaders = Inl MoreThanExpectedHeaders
            \<longleftrightarrow> n < length toks \<and> (\<forall>i<n. ok i))
       \<and> (validateInputDistributionCSVHeader actualHeaderRow expectedHeaders = Inl LessThanExpectedHeaders
            \<longleftrightarrow> length toks < n \<and> (\<forall>i<length toks. ok i))
       \<and> (\<forall>i. i < length toks \<and> i < n \<and> \<not> ok i \<and> (\<forall>j<i. ok j) \<longrightarrow>
            validateInputDistributionCSVHeader actualHeaderRow expectedHeaders
              = Inl (headerValueError i (expectedHeaders ! i) (toks ! i)))"
proof -
  let ?v = "validateInputDistributionCSVHeader actualHeaderRow expectedHeaders"
  let ?m = "min (length toks) n"
  have v: "?v = validateHeaderTokens expectedHeaders toks 0"
    by (simp add: validateInputDistributionCSVHeader_def toks_def)
  have bad: "?v = Inl (headerValueError i (expectedHeaders ! i) (toks ! i))"
    if "i < length toks" "i < n" "\<not> ok i" "\<forall>j<i. ok j" for i
    using that validateHeaderTokens_first_bad [of i toks 0 expectedHeaders]
    by (simp add: v ok_def n_def)
  have good: "?v = (if n < length toks then Inl MoreThanExpectedHeaders
                    else if length toks < n then Inl LessThanExpectedHeaders else Inr ())"
    if "\<forall>i<?m. ok i"
    using that validateHeaderTokens_all_ok [of 0 expectedHeaders toks]
    by (simp add: v ok_def n_def)
  have notcount: "?v \<noteq> Inl MoreThanExpectedHeaders \<and> ?v \<noteq> Inl LessThanExpectedHeaders"
    if "\<not> (\<forall>i<?m. ok i)"
  proof -
    from that obtain i where "i < ?m" "\<not> ok i" "\<forall>j<i. ok j" by (rule first_bad_index)
    then have "?v = Inl (headerValueError i (expectedHeaders ! i) (toks ! i))"
      using bad by simp
    then show ?thesis by (simp add: headerValueError_not_count)
  qed
  have A: "?v = Inl MoreThanExpectedHeaders \<longleftrightarrow> n < length toks \<and> (\<forall>i<n. ok i)"
  proof (cases "\<forall>i<?m. ok i")
    case True
    then show ?thesis using good by (auto simp: min_def split: if_splits)
  next
    case False
    then show ?thesis using notcount by (auto simp: min_def split: if_splits)
  qed
  have B: "?v = Inl LessThanExpectedHeaders \<longleftrightarrow> length toks < n \<and> (\<forall>i<length toks. ok i)"
  proof (cases "\<forall>i<?m. ok i")
    case True
    then show ?thesis using good by (auto simp: min_def split: if_splits)
  next
    case False
    then show ?thesis using notcount by (auto simp: min_def split: if_splits)
  qed
  show ?thesis using A B bad by blast
qed

theorem header_count_error_after_value_errors_witness:
  "strtok_tokens (''a,b,c'' @ [newline]) '','' = [''a'', ''b'', ''c'' @ [newline]]
   \<and> headerTokenOK ''a'' ''a'' \<and> headerTokenOK ''b'' ''b''
   \<and> validateInputDistributionCSVHeader (''a,b,c'' @ [newline]) [''a'', ''b'']
       = Inl MoreThanExpectedHeaders"
proof -
  have toks: "strtok_tokens (''a,b,c'' @ [newline]) '','' = [''a'', ''b'', ''c'' @ [newline]]"
    by (simp add: strtok_tokens.simps strtok_r_def)
  have ok: "headerTokenOK ''a'' ''a''" "headerTokenOK ''b'' ''b''"
    by (simp_all add: headerTokenOK_def strncmp_eq_def safeIsspace_def)
  have hyp: "length [''a'', ''b''] < length (strtok_tokens (''a,b,c'' @ [newline]) '','')
     \<and> (\<forall>i<length [''a'', ''b''].
            headerTokenOK ([''a'', ''b''] ! i) (strtok_tokens (''a,b,c'' @ [newline]) '','' ! i))"
    unfolding toks using ok by (simp add: less_Suc_eq)
  with header_count_error_after_value_errors [of "''a,b,c'' @ [newline]" "[''a'', ''b'']"]
  have "validateInputDistributionCSVHeader (''a,b,c'' @ [newline]) [''a'', ''b'']
          = Inl MoreThanExpectedHeaders"
    by blast
  with toks ok show ?thesis by blast
qed

text \<open>
  Claim C2 as stated fails: the header row \<^verbatim>\<open>x,b,c\<close> against the expected headers
  \<^verbatim>\<open>a\<close>, \<^verbatim>\<open>b\<close> has three tokens for two columns, and the error reported is the text
  mismatch of column 0, not the column count.
\<close>

theorem header_count_before_value_counterexample:
  "\<not> (length (strtok_tokens (''x,b,c'' @ [newline]) '','') \<noteq> length [''a'', ''b'']
        \<longrightarrow> isColumnCountError (validateInputDistributionCSVHeader (''x,b,c'' @ [newline]) [''a'', ''b'']))"
  by (simp add: validateInputDistributionCSVHeader_def strtok_tokens.simps strtok_r_def
        strncmp_eq_def safeIsspace_def isColumnCountError_def)

section \<open>Properties of the rounding\<close>

lemma roundTiesToEven_of_int: "roundTiesToEven (of_int i) = i"
  by (simp add: roundTiesToEven_def)

lemma floor_log2_eq:
  fixes x :: real
  assumes "2 powr (of_int k) \<le> x" "x < 2 powr (of_int (k + 1))"
  shows "\<lfloor>log 2 x\<rfloor> = k"
proof -
  have "0 < x" using assms(1) by (smt (verit) powr_gt_zero)
  then show ?thesis using assms by (simp add: floor_log_eq_powr_iff)
qed

text \<open>
  A number whose significand fits into \<open>p\<close> bits is not changed by rounding.
\<close>

lemma roundToPrecision_exact:
  fixes i :: int and z :: int
  assumes "i \<noteq> 0" "\<bar>i\<bar> < 2 ^ p"
  shows "roundToPrecision p (of_int i * 2 powr (of_int z)) = of_int i * 2 powr (of_int z)"
proof -
  let ?x = "of_int i * 2 powr (of_int z) :: real"
  have x0: "?x \<noteq> 0" using assms(1) by simp
  define k where "k = \<lfloor>log 2 \<bar>of_int i :: real\<bar>\<rfloor>"
  have ipos: "0 < \<bar>of_int i :: real\<bar>" using assms(1) by simp
  have kb: "2 powr (of_int k) \<le> \<bar>of_int i :: real\<bar>" "\<bar>of_int i :: real\<bar> < 2 powr (of_int (k + 1))"
    using floor_log_eq_powr_iff [of "\<bar>of_int i :: real\<bar>" 2 k] ipos by (simp_all add: k_def)
  have k0: "0 \<le> k"
  proof -
    have "1 \<le> \<bar>i\<bar>" using assms(1) by linarith
    then have "(1::real) \<le> of_int \<bar>i\<bar>" by (simp only: of_int_1_le_iff)
    then have "1 \<le> \<bar>of_int i :: real\<bar>" by simp
    then have "0 \<le> log 2 \<bar>of_int i :: real\<bar>" by simp
    then show ?thesis by (simp add: k_def)
  qed
  have kp: "k < int p"
  proof (rule ccontr)
    assume "\<not> k < int p"
    then have "int p \<le> k" by simp
    then have "(2::real) powr (of_int (int p)) \<le> 2 powr (of_int k)" by (simp add: powr_mono)
    moreover have "(2::real) powr (of_int (int p)) = 2 ^ p" by (simp add: powr_realpow)
    ultimately have "(2::real) ^ p \<le> \<bar>of_int i\<bar>" using kb(1) by linarith
    moreover have "\<bar>of_int i :: real\<bar> < 2 ^ p"
    proof -
      have "(of_int \<bar>i\<bar> :: real) < of_int (2 ^ p)" using assms(2) by (simp only: of_int_less_iff)
      then show ?thesis by simp
    qed
    ultimately show False by simp
  qed
  have abs: "\<bar>?x\<bar> = \<bar>of_int i\<bar> * 2 powr (of_int z)" by (simp add: abs_mult)
  have fl: "\<lfloor>log 2 \<bar>?x\<bar>\<rfloor> = k + z"
  proof (rule floor_log2_eq)
    show "2 powr (of_int (k + z)) \<le> \<bar>?x\<bar>"
      using kb(1) by (simp add: abs powr_add)
    show "\<bar>?x\<bar> < 2 powr (of_int (k + z + 1))"
      using kb(2) by (simp add: abs powr_add)
  qed
  define e where "e = k + z - int p + 1"
  have ze: "0 \<le> z - e" using kp by (simp add: e_def)
  have quot: "?x / 2 powr (of_int e) = of_int (i * 2 ^ nat (z - e))"
  proof -
    have "?x / 2 powr (of_int e) = of_int i * 2 powr (of_int z - of_int e)"
      by (simp add: powr_diff)
    also have "(2::real) powr (of_int z - of_int e) = 2 powr (of_int (z - e))" by simp
    also have "\<dots> = 2 ^ nat (z - e)" using ze
      by (metis of_nat_0 of_nat_0_le_iff of_nat_nat of_nat_numeral power_0
          powr_realpow' powr_zero_eq_one zero_neq_numeral)
    finally show ?thesis by simp
  qed
  have "roundToPrecision p ?x = of_int (roundTiesToEven (?x / 2 powr (of_int e))) * 2 powr (of_int e)"
    using x0 fl by (simp add: roundToPrecision_def Let_def e_def)
  also have "\<dots> = of_int (i * 2 ^ nat (z - e)) * 2 powr (of_int e)"
    by (simp only: quot roundTiesToEven_of_int)
  also have "\<dots> = ?x / 2 powr (of_int e) * 2 powr (of_int e)" by (simp only: quot)
  also have "\<dots> = ?x" by simp
  finally show ?thesis .
qed

lemma roundToPrecision_nat_exact:
  assumes "0 < p" "k \<le> 2 ^ p"
  shows "roundToPrecision p (real k) = real k"
proof (cases "k = 0")
  case True
  then show ?thesis by (simp add: roundToPrecision_def)
next
  case False
  show ?thesis
  proof (cases "k = 2 ^ p")
    case True
    have "roundToPrecision p (of_int 1 * 2 powr (of_int (int p))) = of_int 1 * 2 powr (of_int (int p))"
      by (rule roundToPrecision_exact) (use assms(1) in simp_all)
    moreover have "(2::real) powr (of_int (int p)) = real k"
      using True by (simp add: powr_realpow)
    ultimately show ?thesis by simp
  next
    case neq: False
    with assms(2) have "k < 2 ^ p" by simp
    then have "\<bar>int k\<bar> < 2 ^ p" by (metis abs_of_nat of_nat_less_iff of_nat_numeral of_nat_power)
    then have "roundToPrecision p (of_int (int k) * 2 powr (of_int 0)) = of_int (int k) * 2 powr (of_int 0)"
      using False by (intro roundToPrecision_exact) simp_all
    then show ?thesis by simp
  qed
qed

lemma roundTiesToEven_ge_one: "1 \<le> m \<Longrightarrow> 1 \<le> roundTiesToEven m"
proof -
  assume "1 \<le> m"
  then have "1 \<le> \<lfloor>m\<rfloor>" by simp
  then show ?thesis by (simp add: roundTiesToEven_def Let_def)
qed

lemma roundTiesToEven_le_minus_one: "m \<le> - 1 \<Longrightarrow> roundTiesToEven m \<le> - 1"
proof -
  assume m: "m \<le> - 1"
  then have f: "\<lfloor>m\<rfloor> \<le> - 1" by (simp add: floor_le_iff)
  show ?thesis
  proof (cases "\<lfloor>m\<rfloor> = - 1")
    case True
    then have "- 1 \<le> m" by (metis of_int_floor_le of_int_minus of_int_1)
    with m have "m = - 1" by simp
    then have "m - of_int \<lfloor>m\<rfloor> = 0" using True by simp
    then show ?thesis using True by (simp add: roundTiesToEven_def Let_def)
  next
    case False
    with f have "\<lfloor>m\<rfloor> + 1 \<le> - 1" by simp
    with f show ?thesis by (simp add: roundTiesToEven_def Let_def)
  qed
qed

lemma scaled_ge_one:
  fixes x :: real
  assumes "0 < p" "x \<noteq> 0"
  defines "e \<equiv> \<lfloor>log 2 \<bar>x\<bar>\<rfloor> - int p + 1"
  shows "1 \<le> \<bar>x\<bar> / 2 powr (of_int e)"
proof -
  have ax: "0 < \<bar>x\<bar>" using assms(2) by simp
  have "2 powr (of_int \<lfloor>log 2 \<bar>x\<bar>\<rfloor>) \<le> \<bar>x\<bar>"
    using floor_log_eq_powr_iff [of "\<bar>x\<bar>" 2 "\<lfloor>log 2 \<bar>x\<bar>\<rfloor>"] ax by simp
  moreover have "(2::real) powr (of_int e) \<le> 2 powr (of_int \<lfloor>log 2 \<bar>x\<bar>\<rfloor>)"
    using assms(1) by (intro powr_mono) (simp_all add: e_def)
  ultimately have "2 powr (of_int e) \<le> \<bar>x\<bar>" by linarith
  then show ?thesis by (simp add: le_divide_eq)
qed

lemma roundToPrecision_pos:
  assumes "0 < p" "0 < x"
  shows "0 < roundToPrecision p x"
proof -
  define e where "e = \<lfloor>log 2 \<bar>x\<bar>\<rfloor> - int p + 1"
  have "1 \<le> \<bar>x\<bar> / 2 powr (of_int e)" unfolding e_def using assms by (intro scaled_ge_one) simp_all
  then have "1 \<le> x / 2 powr (of_int e)" using assms(2) by simp
  then have "1 \<le> roundTiesToEven (x / 2 powr (of_int e))" by (rule roundTiesToEven_ge_one)
  then have "0 < (of_int (roundTiesToEven (x / 2 powr (of_int e))) :: real)" by simp
  then have "0 < of_int (roundTiesToEven (x / 2 powr (of_int e))) * (2::real) powr (of_int e)"
    by (simp add: zero_less_mult_iff)
  then show ?thesis using assms(2) by (simp add: roundToPrecision_def Let_def e_def)
qed

lemma roundToPrecision_neg:
  assumes "0 < p" "x < 0"
  shows "roundToPrecision p x < 0"
proof -
  define e where "e = \<lfloor>log 2 \<bar>x\<bar>\<rfloor> - int p + 1"
  have "1 \<le> \<bar>x\<bar> / 2 powr (of_int e)" unfolding e_def using assms by (intro scaled_ge_one) simp_all
  then have "x / 2 powr (of_int e) \<le> - 1" using assms(2) by simp
  then have "roundTiesToEven (x / 2 powr (of_int e)) \<le> - 1" by (rule roundTiesToEven_le_minus_one)
  then have "(of_int (roundTiesToEven (x / 2 powr (of_int e))) :: real) < 0" by simp
  then have "of_int (roundTiesToEven (x / 2 powr (of_int e))) * (2::real) powr (of_int e) < 0"
    by (simp add: mult_less_0_iff)
  then show ?thesis using assms(2) by (simp add: roundToPrecision_def Let_def e_def)
qed

lemma roundToPrecision_sign:
  assumes "0 < p"
  shows "(0 < roundToPrecision p x) = (0 < x)" "(roundToPrecision p x < 0) = (x < 0)"
    "(0 \<le> roundToPrecision p x) = (0 \<le> x)"
proof -
  have z: "roundToPrecision p 0 = 0" by (simp add: roundToPrecision_def)
  consider "x < 0" | "x = 0" | "0 < x" by linarith
  then have "((0 < roundToPrecision p x) = (0 < x)) \<and> ((roundToPrecision p x < 0) = (x < 0))"
  proof cases
    case 1
    then show ?thesis using roundToPrecision_neg [OF assms 1] by simp
  next
    case 2
    then show ?thesis using z by simp
  next
    case 3
    then show ?thesis using roundToPrecision_pos [OF assms 3] by simp
  qed
  then show "(0 < roundToPrecision p x) = (0 < x)" "(roundToPrecision p x < 0) = (x < 0)"
    "(0 \<le> roundToPrecision p x) = (0 \<le> x)" by auto
qed

lemma round_16777217: "roundToPrecision 24 16777217 = 16777216"
proof -
  have fl: "\<lfloor>log 2 (16777217 :: real)\<rfloor> = 24"
    by (rule floor_log2_eq) simp_all
  have rt: "roundTiesToEven (16777217 / 2) = 8388608"
    by (simp add: roundTiesToEven_def Let_def)
  show ?thesis
    by (simp add: roundToPrecision_def Let_def fl rt)
qed

subsection \<open>The error of one rounding\<close>

text \<open>
  Rounding to \<open>p\<close> bits changes a number by at most the fraction \<open>2\<^sup>-\<^sup>p\<close> of its magnitude.
\<close>

lemma roundTiesToEven_error: "\<bar>of_int (roundTiesToEven m) - m\<bar> \<le> 1 / 2"
proof -
  have "of_int \<lfloor>m\<rfloor> \<le> m" "m < of_int \<lfloor>m\<rfloor> + 1" by linarith+
  then show ?thesis by (auto simp: roundTiesToEven_def Let_def)
qed

lemma roundTiesToEven_small:
  assumes "\<bar>m\<bar> < 1 / 2"
  shows "roundTiesToEven m = 0"
proof (cases "0 \<le> m")
  case True
  then have "\<lfloor>m\<rfloor> = 0" using assms by (simp add: floor_eq_iff)
  then show ?thesis using assms True by (simp add: roundTiesToEven_def Let_def)
next
  case False
  then have "\<lfloor>m\<rfloor> = - 1" using assms by (simp add: floor_eq_iff)
  then show ?thesis using assms False by (simp add: roundTiesToEven_def Let_def)
qed

lemma roundTiesToEven_bound: "\<bar>of_int (roundTiesToEven m) :: real\<bar> \<le> 2 * \<bar>m\<bar>"
proof (cases "\<bar>m\<bar> < 1 / 2")
  case True
  then show ?thesis by (simp add: roundTiesToEven_small)
next
  case False
  then show ?thesis using roundTiesToEven_error [of m] by linarith
qed

lemma roundToPrecision_error:
  assumes "0 < p"
  shows "\<bar>roundToPrecision p x - x\<bar> \<le> \<bar>x\<bar> / 2 ^ p"
proof (cases "x = 0")
  case True
  then show ?thesis by (simp add: roundToPrecision_def)
next
  case False
  define k where "k = \<lfloor>log 2 \<bar>x\<bar>\<rfloor>"
  define s where "s = (2::real) powr (of_int (k - int p + 1))"
  have sp: "0 < s" by (simp add: s_def)
  have ax: "0 < \<bar>x\<bar>" using False by simp
  have kx: "2 powr (of_int k) \<le> \<bar>x\<bar>"
    using floor_log_eq_powr_iff [of "\<bar>x\<bar>" 2 k] ax by (simp add: k_def)
  have "s = 2 powr (of_int k) * 2 powr (1 - of_int (int p))"
    by (simp add: s_def powr_add [symmetric] algebra_simps)
  also have "(2::real) powr (1 - of_int (int p)) = 2 / 2 ^ p"
    by (simp add: powr_diff powr_realpow)
  finally have s2: "s / 2 = 2 powr (of_int k) / 2 ^ p" by simp
  have r: "roundToPrecision p x = of_int (roundTiesToEven (x / s)) * s"
    using False by (simp add: roundToPrecision_def Let_def k_def s_def)
  have "roundToPrecision p x - x = (of_int (roundTiesToEven (x / s)) - x / s) * s"
    using sp by (simp add: r algebra_simps)
  then have "\<bar>roundToPrecision p x - x\<bar> = \<bar>of_int (roundTiesToEven (x / s)) - x / s\<bar> * s"
    using sp by (simp add: abs_mult)
  also have "\<dots> \<le> 1 / 2 * s"
    using roundTiesToEven_error [of "x / s"] sp by (intro mult_right_mono) simp_all
  also have "\<dots> = 2 powr (of_int k) / 2 ^ p" using s2 by simp
  also have "\<dots> \<le> \<bar>x\<bar> / 2 ^ p" using kx by (simp add: divide_right_mono)
  finally show ?thesis .
qed

lemma unit_roundoff:
  assumes "0 < p"
  shows "0 < (1::real) / 2 ^ p" "(1::real) / 2 ^ p \<le> 1 / 2"
proof -
  show "0 < (1::real) / 2 ^ p" by simp
  have "(2::real) ^ 1 \<le> 2 ^ p" using assms by (intro power_increasing) simp_all
  then show "(1::real) / 2 ^ p \<le> 1 / 2" by (simp add: field_simps)
qed

lemma power_lower:
  fixes u :: real
  assumes "0 \<le> u" "u \<le> 1"
  shows "1 - real k * u \<le> (1 - u) ^ k"
proof (induction k)
  case 0
  show ?case by simp
next
  case (Suc k)
  have "1 - real (Suc k) * u \<le> (1 - real k * u) * (1 - u)"
  proof -
    have "(1 - real k * u) * (1 - u) = 1 - real (Suc k) * u + real k * (u * u)" by (simp add: algebra_simps)
    moreover have "0 \<le> real k * (u * u)" using assms(1) by simp
    ultimately show ?thesis by linarith
  qed
  also have "\<dots> \<le> (1 - u) ^ k * (1 - u)" using Suc.IH assms by (intro mult_right_mono) simp_all
  finally show ?case by (simp add: mult.commute)
qed

lemma power_upper:
  fixes u :: real
  assumes "0 \<le> u" "2 * real k * u \<le> 1"
  shows "(1 + u) ^ k \<le> 1 + 2 * real k * u"
  using assms(2)
proof (induction k)
  case 0
  show ?case by simp
next
  case (Suc k)
  have k: "2 * real k * u \<le> 1"
  proof -
    have "2 * real k * u \<le> 2 * real (Suc k) * u" using assms(1) by (simp add: mult_right_mono)
    then show ?thesis using Suc.prems by linarith
  qed
  have "(1 + u) ^ Suc k = (1 + u) ^ k * (1 + u)" by simp
  also have "\<dots> \<le> (1 + 2 * real k * u) * (1 + u)"
    using Suc.IH [OF k] assms(1) by (intro mult_right_mono) simp_all
  also have "\<dots> = 1 + 2 * real k * u + u + (2 * real k * u) * u" by (simp add: algebra_simps)
  also have "\<dots> \<le> 1 + 2 * real k * u + u + 1 * u" using k assms(1) by (intro add_left_mono mult_right_mono) simp_all
  also have "\<dots> = 1 + 2 * real (Suc k) * u" by (simp add: algebra_simps)
  finally show ?case .
qed

subsection \<open>Rounding to a format\<close>

text \<open>
  In the normal range of the format, rounding to the format is rounding to its precision;
  a natural number up to \<open>2\<^sup>p\<close> is a value of the format. Below the normal range the error
  is at most half the distance of two subnormal numbers.
\<close>

lemma roundToFormat_zero [simp]: "roundToFormat p emax 0 = Finite 0"
  by (simp add: roundToFormat_def Let_def roundTiesToEven_def)

lemma roundToFormat_normal:
  assumes p: "0 < p" and lo: "2 powr (of_int (1 - emax)) \<le> \<bar>x\<bar>" and hi: "\<bar>x\<bar> \<le> 2 powr (of_int emax)"
  shows "roundToFormat p emax x = Finite (roundToPrecision p x)"
proof -
  have xp: "0 < \<bar>x\<bar>" using lo by (smt (verit) powr_gt_zero)
  have u: "(1::real) / 2 ^ p \<le> 1 / 2" using unit_roundoff [OF p] by simp
  have "\<bar>roundToPrecision p x\<bar> \<le> \<bar>x\<bar> + \<bar>roundToPrecision p x - x\<bar>" by simp
  also have "\<dots> \<le> \<bar>x\<bar> + \<bar>x\<bar> / 2 ^ p" using roundToPrecision_error [OF p, of x] by simp
  also have "\<dots> = \<bar>x\<bar> * (1 + 1 / 2 ^ p)" by (simp add: algebra_simps)
  also have "\<dots> < \<bar>x\<bar> * 2" using xp u by (intro mult_strict_left_mono) simp_all
  also have "\<dots> \<le> 2 powr (of_int emax) * 2" using hi by simp
  also have "\<dots> = 2 powr (of_int (emax + 1))" by (simp add: powr_add)
  finally have "\<bar>roundToPrecision p x\<bar> < 2 powr (of_int (emax + 1))" .
  then show ?thesis using lo by (simp add: roundToFormat_def Let_def)
qed

lemma roundToFormat_bound:
  assumes p: "0 < p" and e: "1 \<le> emax" and hi: "\<bar>x\<bar> \<le> 2 powr (of_int emax)"
  shows "\<exists>v. roundToFormat p emax x = Finite v \<and> \<bar>v\<bar> \<le> 2 * \<bar>x\<bar>"
proof (cases "\<bar>x\<bar> < 2 powr (of_int (1 - emax))")
  case True
  define q where "q = (2::real) powr (of_int (1 - emax - int p + 1))"
  have qp: "0 < q" by (simp add: q_def)
  define v where "v = of_int (roundTiesToEven (x / q)) * q"
  have "\<bar>v\<bar> = \<bar>of_int (roundTiesToEven (x / q)) :: real\<bar> * q" using qp by (simp add: v_def abs_mult)
  also have "\<dots> \<le> (2 * \<bar>x / q\<bar>) * q"
    using roundTiesToEven_bound [of "x / q"] qp by (intro mult_right_mono) simp_all
  also have "\<dots> = 2 * \<bar>x\<bar>" using qp by (simp add: abs_divide)
  finally have b: "\<bar>v\<bar> \<le> 2 * \<bar>x\<bar>" .
  have "(2::real) powr (of_int (1 - emax)) \<le> 2 powr (of_int emax)"
    using e by (intro powr_mono) simp_all
  then have "2 * \<bar>x\<bar> < 2 * 2 powr (of_int emax)" using True by linarith
  also have "\<dots> = 2 powr (of_int (emax + 1))" by (simp add: powr_add)
  finally have "\<bar>v\<bar> < 2 powr (of_int (emax + 1))" using b by linarith
  then have "roundToFormat p emax x = Finite v"
    using True by (simp add: roundToFormat_def Let_def v_def q_def)
  then show ?thesis using b by blast
next
  case False
  then have lo: "2 powr (of_int (1 - emax)) \<le> \<bar>x\<bar>" by simp
  have u: "(1::real) / 2 ^ p \<le> 1 / 2" using unit_roundoff [OF p] by simp
  have "\<bar>roundToPrecision p x\<bar> \<le> \<bar>x\<bar> + \<bar>roundToPrecision p x - x\<bar>" by simp
  also have "\<dots> \<le> \<bar>x\<bar> + \<bar>x\<bar> / 2 ^ p" using roundToPrecision_error [OF p, of x] by simp
  also have "\<dots> = \<bar>x\<bar> * (1 + 1 / 2 ^ p)" by (simp add: algebra_simps)
  also have "\<dots> \<le> \<bar>x\<bar> * 2" using u by (intro mult_left_mono) simp_all
  finally have "\<bar>roundToPrecision p x\<bar> \<le> 2 * \<bar>x\<bar>" by simp
  then show ?thesis using roundToFormat_normal [OF p lo hi] by simp
qed

lemma format_range:
  assumes "1 \<le> emax"
  shows "(2::real) powr (of_int (1 - emax)) = 1 / 2 ^ nat (emax - 1)"
    and "(2::real) powr (of_int emax) = 2 ^ nat emax"
    and "(2::real) powr (of_int (emax + 1)) = 2 ^ nat (emax + 1)"
proof -
  have "(2::real) powr (of_int (1 - emax)) = 2 powr (- real (nat (emax - 1)))"
    using assms by (simp add: of_nat_diff)
  also have "\<dots> = 1 / 2 powr (real (nat (emax - 1)))" by (rule powr_minus_divide)
  also have "\<dots> = 1 / 2 ^ nat (emax - 1)" by (simp add: powr_realpow)
  finally show "(2::real) powr (of_int (1 - emax)) = 1 / 2 ^ nat (emax - 1)" .
  have "(2::real) powr (of_int emax) = 2 powr (real (nat emax))" using assms by simp
  then show "(2::real) powr (of_int emax) = 2 ^ nat emax" by (simp add: powr_realpow)
  have "(2::real) powr (of_int (emax + 1)) = 2 powr (real (nat (emax + 1)))" using assms by simp
  then show "(2::real) powr (of_int (emax + 1)) = 2 ^ nat (emax + 1)" by (simp add: powr_realpow)
qed

lemma roundToFormat_finite:
  assumes p: "0 < p" and e: "1 \<le> emax"
    and lo: "1 / 2 ^ nat (emax - 1) \<le> \<bar>x\<bar>" and hi: "\<bar>x\<bar> \<le> 2 ^ nat emax"
  shows "roundToFormat p emax x = Finite (roundToPrecision p x)"
proof -
  have l: "2 powr (of_int (1 - emax)) \<le> \<bar>x\<bar>" unfolding format_range(1) [OF e] by (rule lo)
  have h: "\<bar>x\<bar> \<le> 2 powr (of_int emax)" unfolding format_range(2) [OF e] by (rule hi)
  show ?thesis by (rule roundToFormat_normal [OF p l h])
qed

lemma ofSize_exact:
  assumes p: "0 < p" and pe: "int p \<le> emax" and n: "1 \<le> n" "n \<le> 2 ^ p"
  shows "roundToFormat p emax (real n) = Finite (real n)"
proof -
  have e0: "1 - emax \<le> 0" using p pe by linarith
  have "(2::real) powr (of_int (1 - emax)) \<le> 2 powr 0" using e0 by (intro powr_mono) simp_all
  then have lo: "2 powr (of_int (1 - emax)) \<le> \<bar>real n\<bar>" using n(1) by simp
  have "real n \<le> 2 ^ p" using n(2) by simp
  also have "(2::real) ^ p = 2 powr (of_int (int p))" by (simp add: powr_realpow)
  also have "\<dots> \<le> 2 powr (of_int emax)" using pe by (intro powr_mono) simp_all
  finally have hi: "\<bar>real n\<bar> \<le> 2 powr (of_int emax)" by simp
  show ?thesis using roundToFormat_normal [OF p lo hi] roundToPrecision_nat_exact [OF p n(2)] by simp
qed

lemma roundToFormat_nat:
  assumes p: "0 < p" and pe: "int p \<le> emax" and k: "k \<le> 2 ^ p"
  shows "roundToFormat p emax (real k) = Finite (real k)"
proof (cases "k = 0")
  case True
  then show ?thesis by simp
next
  case False
  then have "1 \<le> k" by simp
  then show ?thesis using k by (intro ofSize_exact [OF p pe])
qed

lemma halfQuantum_pos: "0 < halfQuantum p emax"
  by (simp add: halfQuantum_def)

lemma roundToFormat_error:
  assumes p: "0 < p" and e: "1 \<le> emax" and hi: "\<bar>x\<bar> \<le> 2 powr (of_int emax)"
  shows "\<exists>r. roundToFormat p emax x = Finite r \<and> \<bar>r - x\<bar> \<le> \<bar>x\<bar> / 2 ^ p + halfQuantum p emax"
proof (cases "\<bar>x\<bar> < 2 powr (of_int (1 - emax))")
  case True
  define q where "q = (2::real) powr (of_int (1 - emax - int p + 1))"
  have qp: "0 < q" by (simp add: q_def)
  have qh: "q = 2 * halfQuantum p emax"
    by (simp add: q_def halfQuantum_def powr_add [symmetric] powr_diff algebra_simps)
  define v where "v = of_int (roundTiesToEven (x / q)) * q"
  have "v - x = (of_int (roundTiesToEven (x / q)) - x / q) * q" using qp by (simp add: v_def algebra_simps)
  then have "\<bar>v - x\<bar> = \<bar>of_int (roundTiesToEven (x / q)) - x / q\<bar> * q" using qp by (simp add: abs_mult)
  also have "\<dots> \<le> 1 / 2 * q"
    using roundTiesToEven_error [of "x / q"] qp by (intro mult_right_mono) simp_all
  also have "\<dots> = halfQuantum p emax" by (simp add: qh)
  finally have err: "\<bar>v - x\<bar> \<le> halfQuantum p emax" .
  from roundToFormat_bound [OF p e hi] obtain w where w: "roundToFormat p emax x = Finite w" by blast
  have "roundToFormat p emax x = Finite v \<or> (\<exists>i. roundToFormat p emax x = i \<and> i \<noteq> Finite w)"
    using True w by (simp add: roundToFormat_def Let_def v_def q_def split: if_splits)
  with w have "roundToFormat p emax x = Finite v" by auto
  moreover have "0 \<le> \<bar>x\<bar> / 2 ^ p" by simp
  ultimately show ?thesis using err by (intro exI [of _ v]) linarith
next
  case False
  then have lo: "2 powr (of_int (1 - emax)) \<le> \<bar>x\<bar>" by simp
  have "roundToFormat p emax x = Finite (roundToPrecision p x)" by (rule roundToFormat_normal [OF p lo hi])
  moreover have "\<bar>roundToPrecision p x - x\<bar> \<le> \<bar>x\<bar> / 2 ^ p" by (rule roundToPrecision_error [OF p])
  ultimately show ?thesis using halfQuantum_pos [of p emax] by (intro exI [of _ "roundToPrecision p x"]) linarith
qed

lemma halfQuantum_binary32: "halfQuantum 24 127 = 1 / 2 ^ 150"
  by (simp add: halfQuantum_def powr_minus_divide)

lemma halfQuantum_binary64: "halfQuantum 53 1023 = 1 / 2 ^ 1075"
  by (simp add: halfQuantum_def powr_minus_divide)

subsection \<open>Values within factors of a reference value\<close>

lemma scaledWithin_weaken:
  "scaledWithin c lo hi v \<Longrightarrow> lo' \<le> lo \<Longrightarrow> hi \<le> hi' \<Longrightarrow> scaledWithin c lo' hi' v"
  unfolding scaledWithin_def by force

lemma scaledWithin_abs:
  assumes "scaledWithin c lo hi v" "0 \<le> lo"
  shows "lo * \<bar>c\<bar> \<le> \<bar>v\<bar>" "\<bar>v\<bar> \<le> hi * \<bar>c\<bar>"
proof -
  from assms(1) obtain r where r: "v = c * r" "lo \<le> r" "r \<le> hi" unfolding scaledWithin_def by blast
  have r0: "0 \<le> r" using r(2) assms(2) by simp
  have av: "\<bar>v\<bar> = r * \<bar>c\<bar>" using r0 by (simp add: r(1) abs_mult)
  show "lo * \<bar>c\<bar> \<le> \<bar>v\<bar>" unfolding av using r(2) by (intro mult_right_mono) simp_all
  show "\<bar>v\<bar> \<le> hi * \<bar>c\<bar>" unfolding av using r(3) by (intro mult_right_mono) simp_all
qed

lemma scaledWithin_round:
  assumes p: "0 < p" and lo: "0 \<le> lo" and w: "scaledWithin c lo hi x"
  shows "scaledWithin c (lo * (1 - 1 / 2 ^ p)) (hi * (1 + 1 / 2 ^ p)) (roundToPrecision p x)"
proof -
  define u :: real where "u = 1 / 2 ^ p"
  have u: "0 < u" "u \<le> 1 / 2" using unit_roundoff [OF p] by (simp_all add: u_def)
  from w obtain r where r: "x = c * r" "lo \<le> r" "r \<le> hi" unfolding scaledWithin_def by blast
  have r0: "0 \<le> r" using r(2) lo by simp
  have lo1: "lo * (1 - u) \<le> r * (1 - u)" using r(2) u by (intro mult_right_mono) simp_all
  have hi1: "r * (1 + u) \<le> hi * (1 + u)" using r(3) u by (intro mult_right_mono) simp_all
  show ?thesis
  proof (cases "c = 0")
    case True
    have "r * (1 - u) \<le> r" using r0 u by (simp add: mult_left_le)
    moreover have "r \<le> r * (1 + u)" using r0 u by (simp add: algebra_simps)
    ultimately have "lo * (1 - u) \<le> r" "r \<le> hi * (1 + u)" using lo1 hi1 by linarith+
    then show ?thesis using True r(1) unfolding scaledWithin_def u_def
      by (intro exI [of _ r]) (simp add: roundToPrecision_def)
  next
    case False
    define r' where "r' = roundToPrecision p x / c"
    have v: "roundToPrecision p x = c * r'" using False by (simp add: r'_def)
    have "r' - r = (roundToPrecision p x - x) / c" using False by (simp add: r'_def r(1) field_simps)
    then have "\<bar>r' - r\<bar> = \<bar>roundToPrecision p x - x\<bar> / \<bar>c\<bar>" by (simp add: abs_divide)
    also have "\<dots> \<le> (\<bar>x\<bar> / 2 ^ p) / \<bar>c\<bar>"
      using roundToPrecision_error [OF p, of x] by (intro divide_right_mono) simp_all
    also have "\<dots> = r * u" using False r0 by (simp add: r(1) abs_mult u_def)
    finally have "\<bar>r' - r\<bar> \<le> r * u" .
    then have "r * (1 - u) \<le> r'" "r' \<le> r * (1 + u)" by (simp_all add: algebra_simps abs_le_iff)
    then have "lo * (1 - u) \<le> r'" "r' \<le> hi * (1 + u)" using lo1 hi1 by linarith+
    then show ?thesis using v unfolding scaledWithin_def u_def by blast
  qed
qed

lemma scaledWithin_format:
  assumes p: "0 < p" and lo: "0 \<le> lo" and w: "scaledWithin c lo hi x"
    and rlo: "2 powr (of_int (1 - emax)) \<le> lo * \<bar>c\<bar>" and rhi: "hi * \<bar>c\<bar> \<le> 2 powr (of_int emax)"
  shows "\<exists>v. roundToFormat p emax x = Finite v
             \<and> scaledWithin c (lo * (1 - 1 / 2 ^ p)) (hi * (1 + 1 / 2 ^ p)) v"
proof -
  have "2 powr (of_int (1 - emax)) \<le> \<bar>x\<bar>" "\<bar>x\<bar> \<le> 2 powr (of_int emax)"
    using scaledWithin_abs [OF w lo] rlo rhi by linarith+
  then have "roundToFormat p emax x = Finite (roundToPrecision p x)"
    by (rule roundToFormat_normal [OF p])
  then show ?thesis using scaledWithin_round [OF p lo w] by simp
qed

subsection \<open>Values close to an ideal value\<close>

lemma closeTo_exact: "1 \<le> g \<Longrightarrow> closeTo y g 0 y"
  by (simp add: closeTo_def)

lemma closeTo_weaken:
  assumes "closeTo y g \<eta> x" "g \<le> g'" "\<eta> \<le> \<eta>'"
  shows "closeTo y g' \<eta>' x"
proof -
  have "(g - 1) * \<bar>y\<bar> \<le> (g' - 1) * \<bar>y\<bar>" using assms(2) by (intro mult_right_mono) simp_all
  then show ?thesis using assms(1,3) unfolding closeTo_def by linarith
qed

lemma closeTo_abs:
  assumes "closeTo y g \<eta> x"
  shows "\<bar>x\<bar> \<le> g * \<bar>y\<bar> + \<eta>"
proof -
  have "\<bar>x\<bar> \<le> \<bar>y\<bar> + \<bar>x - y\<bar>" by simp
  also have "\<dots> \<le> \<bar>y\<bar> + ((g - 1) * \<bar>y\<bar> + \<eta>)" using assms unfolding closeTo_def by simp
  also have "\<dots> = g * \<bar>y\<bar> + \<eta>" by (simp add: algebra_simps)
  finally show ?thesis .
qed

lemma abs_add_same_sign:
  fixes a b :: real
  assumes "0 \<le> a * b"
  shows "\<bar>a + b\<bar> = \<bar>a\<bar> + \<bar>b\<bar>"
  using assms by (auto simp: zero_le_mult_iff abs_if)

lemma closeTo_add:
  assumes "closeTo y1 g \<eta>1 x1" "closeTo y2 g \<eta>2 x2" "0 \<le> y1 * y2"
  shows "closeTo (y1 + y2) g (\<eta>1 + \<eta>2) (x1 + x2)"
proof -
  have "\<bar>(x1 + x2) - (y1 + y2)\<bar> \<le> \<bar>x1 - y1\<bar> + \<bar>x2 - y2\<bar>" by simp
  also have "\<dots> \<le> ((g - 1) * \<bar>y1\<bar> + \<eta>1) + ((g - 1) * \<bar>y2\<bar> + \<eta>2)"
    using assms(1,2) unfolding closeTo_def by (intro add_mono)
  also have "\<dots> = (g - 1) * (\<bar>y1\<bar> + \<bar>y2\<bar>) + (\<eta>1 + \<eta>2)" by (simp add: algebra_simps)
  also have "\<bar>y1\<bar> + \<bar>y2\<bar> = \<bar>y1 + y2\<bar>" using abs_add_same_sign [OF assms(3)] by simp
  finally show ?thesis unfolding closeTo_def .
qed

lemma closeTo_divide:
  assumes "closeTo (real n * y) g \<eta> x" "0 < n"
  shows "closeTo y g (\<eta> / real n) (x / real n)"
proof -
  have n: "0 < real n" using assms(2) by simp
  have "x / real n - y = (x - real n * y) / real n" using n by (simp add: field_simps)
  then have "\<bar>x / real n - y\<bar> = \<bar>x - real n * y\<bar> / real n" using n by (simp add: abs_divide)
  also have "\<dots> \<le> ((g - 1) * \<bar>real n * y\<bar> + \<eta>) / real n"
    using assms(1) n unfolding closeTo_def by (intro divide_right_mono) simp_all
  also have "\<dots> = (g - 1) * \<bar>y\<bar> + \<eta> / real n" using n by (simp add: abs_mult field_simps)
  finally show ?thesis unfolding closeTo_def .
qed

lemma closeTo_square:
  assumes c: "closeTo y g \<eta> x" and g: "1 \<le> g" and h: "0 \<le> \<eta>"
  shows "closeTo (y * y) (g * g) (2 * \<eta> * g * \<bar>y\<bar> + \<eta> * \<eta>) (x * x)"
proof -
  define E where "E = (g - 1) * \<bar>y\<bar> + \<eta>"
  have E0: "0 \<le> E" using g h by (simp add: E_def)
  have e: "\<bar>x - y\<bar> \<le> E" using c unfolding closeTo_def E_def .
  have "x * x - y * y = (x - y) * (2 * y + (x - y))" by (simp add: algebra_simps)
  then have "\<bar>x * x - y * y\<bar> = \<bar>x - y\<bar> * \<bar>2 * y + (x - y)\<bar>" by (simp add: abs_mult)
  also have "\<dots> \<le> E * (2 * \<bar>y\<bar> + E)"
  proof (rule mult_mono [OF e])
    have "\<bar>2 * y + (x - y)\<bar> \<le> \<bar>2 * y\<bar> + \<bar>x - y\<bar>" by (rule abs_triangle_ineq)
    also have "\<dots> \<le> 2 * \<bar>y\<bar> + E" using e by simp
    finally show "\<bar>2 * y + (x - y)\<bar> \<le> 2 * \<bar>y\<bar> + E" .
  qed (use E0 in simp_all)
  also have "\<dots> = (g * g - 1) * (\<bar>y\<bar> * \<bar>y\<bar>) + (2 * \<eta> * g * \<bar>y\<bar> + \<eta> * \<eta>)"
    by (simp add: E_def algebra_simps)
  also have "\<bar>y\<bar> * \<bar>y\<bar> = \<bar>y * y\<bar>" by (simp add: abs_mult)
  finally show ?thesis unfolding closeTo_def .
qed

lemma closeTo_difference:
  assumes "closeTo y gA \<eta>A a" "closeTo y gB \<eta>B b"
  shows "\<bar>a - b\<bar> \<le> (gA + gB - 2) * \<bar>y\<bar> + (\<eta>A + \<eta>B)"
proof -
  have "\<bar>a - b\<bar> \<le> \<bar>a - y\<bar> + \<bar>b - y\<bar>" by simp
  also have "\<dots> \<le> ((gA - 1) * \<bar>y\<bar> + \<eta>A) + ((gB - 1) * \<bar>y\<bar> + \<eta>B)"
    using assms unfolding closeTo_def by (intro add_mono)
  also have "\<dots> = (gA + gB - 2) * \<bar>y\<bar> + (\<eta>A + \<eta>B)" by (simp add: algebra_simps)
  finally show ?thesis .
qed

lemma closeTo_trans:
  assumes zy: "closeTo z g2 \<eta>2 y" and yx: "closeTo y g1 \<eta>1 x" and g: "1 \<le> g1"
  shows "closeTo z (g1 * g2) (\<eta>1 + g1 * \<eta>2) x"
proof -
  have ay: "\<bar>y\<bar> \<le> g2 * \<bar>z\<bar> + \<eta>2" using zy by (rule closeTo_abs)
  have "\<bar>x - z\<bar> \<le> \<bar>x - y\<bar> + \<bar>y - z\<bar>" by simp
  also have "\<dots> \<le> ((g1 - 1) * \<bar>y\<bar> + \<eta>1) + ((g2 - 1) * \<bar>z\<bar> + \<eta>2)"
    using zy yx unfolding closeTo_def by (intro add_mono)
  also have "\<dots> \<le> ((g1 - 1) * (g2 * \<bar>z\<bar> + \<eta>2) + \<eta>1) + ((g2 - 1) * \<bar>z\<bar> + \<eta>2)"
  proof -
    have "(g1 - 1) * \<bar>y\<bar> \<le> (g1 - 1) * (g2 * \<bar>z\<bar> + \<eta>2)"
      using ay g by (intro mult_left_mono) simp_all
    then show ?thesis by simp
  qed
  also have "\<dots> = (g1 * g2 - 1) * \<bar>z\<bar> + (\<eta>1 + g1 * \<eta>2)" by (simp add: algebra_simps)
  finally show ?thesis unfolding closeTo_def .
qed

lemma closeTo_round:
  assumes p: "0 < p" and e: "1 \<le> emax" and c: "closeTo y g \<eta> x"
    and rng: "g * \<bar>y\<bar> + \<eta> \<le> 2 powr (of_int emax)"
  shows "\<exists>r. roundToFormat p emax x = Finite r
             \<and> closeTo y (g * (1 + 1 / 2 ^ p)) (\<eta> * (1 + 1 / 2 ^ p) + halfQuantum p emax) r"
proof -
  define u :: real where "u = 1 / 2 ^ p"
  have u0: "0 \<le> u" by (simp add: u_def)
  have ax: "\<bar>x\<bar> \<le> g * \<bar>y\<bar> + \<eta>" using c by (rule closeTo_abs)
  then have "\<bar>x\<bar> \<le> 2 powr (of_int emax)" using rng by linarith
  from roundToFormat_error [OF p e this] obtain r where
    r: "roundToFormat p emax x = Finite r" and err: "\<bar>r - x\<bar> \<le> \<bar>x\<bar> * u + halfQuantum p emax"
    by (auto simp: u_def)
  have "\<bar>x\<bar> * u \<le> (g * \<bar>y\<bar> + \<eta>) * u" using ax u0 by (rule mult_right_mono)
  then have err': "\<bar>r - x\<bar> \<le> (g * \<bar>y\<bar> + \<eta>) * u + halfQuantum p emax" using err by linarith
  have "\<bar>r - y\<bar> \<le> \<bar>r - x\<bar> + \<bar>x - y\<bar>" by simp
  also have "\<dots> \<le> ((g * \<bar>y\<bar> + \<eta>) * u + halfQuantum p emax) + ((g - 1) * \<bar>y\<bar> + \<eta>)"
    using err' c unfolding closeTo_def by (intro add_mono)
  also have "\<dots> = (g * (1 + u) - 1) * \<bar>y\<bar> + (\<eta> * (1 + u) + halfQuantum p emax)"
    by (simp add: algebra_simps)
  finally have "closeTo y (g * (1 + u)) (\<eta> * (1 + u) + halfQuantum p emax) r"
    unfolding closeTo_def .
  then show ?thesis using r unfolding u_def by blast
qed

section \<open>Properties of the statistics\<close>

subsection \<open>The matrix functions work column by column\<close>

lemma accumulateColumn_eq:
  "accumulateColumn A dataArray jj iis acc
     = accumulateSamples A (map (\<lambda>ii. dataArray ! ii ! jj) iis) acc"
proof (induction iis arbitrary: acc)
  case Nil
  show ?case by (cases acc) simp
next
  case (Cons ii iis)
  show ?case by (cases acc) (simp add: Cons.IH)
qed

lemma column_by_index:
  "dataArrayRows \<le> length dataArray \<Longrightarrow>
   map (\<lambda>ii. dataArray ! ii ! jj) [0..<dataArrayRows] = matrixColumn dataArray dataArrayRows jj"
  by (rule nth_equalityI) (simp_all add: matrixColumn_def)

lemma columnMeanAndVariance_eq:
  assumes "dataArrayRows \<le> length dataArray"
  shows "columnMeanAndVariance A dataArray dataArrayRows jj
           = (mean (calculateMeanAndVarianceOfSamples A (matrixColumn dataArray dataArrayRows jj)),
              variance (calculateMeanAndVarianceOfSamples A (matrixColumn dataArray dataArrayRows jj)))"
proof -
  have len: "length (matrixColumn dataArray dataArrayRows jj) = dataArrayRows"
    using assms by (simp add: matrixColumn_def)
  show ?thesis
    by (simp add: columnMeanAndVariance_def calculateMeanAndVarianceOfSamples_def
        accumulateColumn_eq column_by_index [OF assms] len Let_def split: prod.splits)
qed

lemma multiDimensional_columnwise:
  assumes "length dataArray = dataArrayRows"
    and "\<forall>row \<in> set dataArray. length row = dataArrayColumns"
  shows "calculateMeanAndVarianceOfMultiDimensionalSamples A dataArray dataArrayRows dataArrayColumns
           = Inr (map (\<lambda>jj. mean (calculateMeanAndVarianceOfSamples A
                                    (matrixColumn dataArray dataArrayRows jj)))
                      [0..<dataArrayColumns],
                  map (\<lambda>jj. variance (calculateMeanAndVarianceOfSamples A
                                    (matrixColumn dataArray dataArrayRows jj)))
                      [0..<dataArrayColumns])"
proof -
  have ok: "\<not> (dataArrayColumns > 0 \<and> (length dataArray < dataArrayRows
          \<or> (\<exists>row \<in> set (take dataArrayRows dataArray). length row < dataArrayColumns)))"
    using assms by (auto dest: in_set_takeD)
  have le: "dataArrayRows \<le> length dataArray" using assms(1) by simp
  show ?thesis
    unfolding calculateMeanAndVarianceOfMultiDimensionalSamples_def
    using ok by (simp add: columnMeanAndVariance_eq [OF le])
qed

text \<open>
  Claim C9. For a matrix of \<open>dataArrayRows \<ge> 1\<close> rows of \<open>dataArrayColumns\<close> values, the
  multi-dimensional functions write, for every column \<open>jj\<close>, the mean and the variance
  that the one-dimensional function of the same precision returns for the samples of that
  column; no other column takes part in them.
\<close>

theorem multiDimensional_is_columnwise_1D:
  assumes "1 \<le> dataArrayRows" "length dataArray = dataArrayRows"
    and "\<forall>row \<in> set dataArray. length row = dataArrayColumns"
  shows "calculateMeanAndVarianceOfMultiDimensionalFloatSamples dataArray dataArrayRows dataArrayColumns
           = Inr (map (\<lambda>jj. mean (calculateMeanAndVarianceOfFloatSamples
                                    (matrixColumn dataArray dataArrayRows jj)))
                      [0..<dataArrayColumns],
                  map (\<lambda>jj. variance (calculateMeanAndVarianceOfFloatSamples
                                    (matrixColumn dataArray dataArrayRows jj)))
                      [0..<dataArrayColumns])
       \<and> calculateMeanAndVarianceOfMultiDimensionalDoubleSamples dataArray dataArrayRows dataArrayColumns
           = Inr (map (\<lambda>jj. mean (calculateMeanAndVarianceOfDoubleSamples
                                    (matrixColumn dataArray dataArrayRows jj)))
                      [0..<dataArrayColumns],
                  map (\<lambda>jj. variance (calculateMeanAndVarianceOfDoubleSamples
                                    (matrixColumn dataArray dataArrayRows jj)))
                      [0..<dataArrayColumns])"
  unfolding calculateMeanAndVarianceOfMultiDimensionalFloatSamples_def
    calculateMeanAndVarianceOfMultiDimensionalDoubleSamples_def
    calculateMeanAndVarianceOfFloatSamples_def calculateMeanAndVarianceOfDoubleSamples_def
  using assms(2,3) by (simp add: multiDimensional_columnwise)

theorem multiDimensional_is_columnwise_1D_witness:
  "calculateMeanAndVarianceOfMultiDimensionalFloatSamples
       [[Finite 1, Finite 2], [Finite 3, Finite 4], [Finite 5, Finite 6]] 3 2
     = Inr ([mean (calculateMeanAndVarianceOfFloatSamples [Finite 1, Finite 3, Finite 5]),
             mean (calculateMeanAndVarianceOfFloatSamples [Finite 2, Finite 4, Finite 6])],
            [variance (calculateMeanAndVarianceOfFloatSamples [Finite 1, Finite 3, Finite 5]),
             variance (calculateMeanAndVarianceOfFloatSamples [Finite 2, Finite 4, Finite 6])])
   \<and> calculateMeanAndVarianceOfMultiDimensionalDoubleSamples
       [[Finite 1, Finite 2], [Finite 3, Finite 4], [Finite 5, Finite 6]] 3 2
     = Inr ([mean (calculateMeanAndVarianceOfDoubleSamples [Finite 1, Finite 3, Finite 5]),
             mean (calculateMeanAndVarianceOfDoubleSamples [Finite 2, Finite 4, Finite 6])],
            [variance (calculateMeanAndVarianceOfDoubleSamples [Finite 1, Finite 3, Finite 5]),
             variance (calculateMeanAndVarianceOfDoubleSamples [Finite 2, Finite 4, Finite 6])])"
proof -
  have two: "[0..<2] = [0, 1]" by (simp add: upt_rec)
  show ?thesis
    using multiDimensional_is_columnwise_1D
      [of 3 "[[Finite 1, Finite 2], [Finite 3, Finite 4], [Finite 5, Finite 6]]" 2]
    by (simp add: matrixColumn_def two)
qed

subsection \<open>Mean and variance of one array\<close>

lemma accumulateSamples_foldl:
  "accumulateSamples A xs (s, q)
     = (foldl (fadd A) s xs, foldl (\<lambda>q x. fadd A q (fmul A x x)) q xs)"
  by (induction xs arbitrary: s q) simp_all

lemma calculate_structure:
  "mean (calculateMeanAndVarianceOfSamples A xs)
     = fdiv A (roundedSum A xs) (ofSize A (length xs))
   \<and> variance (calculateMeanAndVarianceOfSamples A xs)
     = fsub A (fdiv A (roundedSumOfSquares A xs) (ofSize A (length xs)))
              (fmul A (mean (calculateMeanAndVarianceOfSamples A xs))
                      (mean (calculateMeanAndVarianceOfSamples A xs)))"
  by (simp add: calculateMeanAndVarianceOfSamples_def accumulateSamples_foldl
      roundedSum_def roundedSumOfSquares_def Let_def)

lemma ieeeArith_simps [simp]:
  "fzero (ieeeArith p emax) = Finite 0"
  "fadd (ieeeArith p emax) = fpAdd p emax"
  "fsub (ieeeArith p emax) = fpSub p emax"
  "fmul (ieeeArith p emax) = fpMul p emax"
  "fdiv (ieeeArith p emax) = fpDiv p emax"
  "ofSize (ieeeArith p emax) n = roundToFormat p emax (real n)"
  by (simp_all add: ieeeArith_def)

text \<open>
  Without rounding, the formula gives the mean and the mean of the squared deviations from
  it.
\<close>

lemma exact_sums:
  "foldl (fadd exactArith) s xs = s + sum_list xs"
  "foldl (\<lambda>q x. fadd exactArith q (fmul exactArith x x)) q xs = q + (\<Sum>x\<leftarrow>xs. x * x)"
  by (induction xs arbitrary: s q) (simp_all add: exactArith_def)

lemma exact_mean_variance:
  "mean (calculateMeanAndVarianceOfSamples exactArith xs) = sum_list xs / real (length xs)"
  "variance (calculateMeanAndVarianceOfSamples exactArith xs)
     = (\<Sum>x\<leftarrow>xs. x * x) / real (length xs) - (sum_list xs / real (length xs)) * (sum_list xs / real (length xs))"
  by (simp_all add: calculateMeanAndVarianceOfSamples_def accumulateSamples_foldl exact_sums Let_def)
     (simp_all add: exactArith_def)

lemma sum_of_squared_deviations:
  fixes m :: real
  shows "(\<Sum>x\<leftarrow>xs. (x - m) * (x - m))
           = (\<Sum>x\<leftarrow>xs. x * x) - 2 * m * sum_list xs + real (length xs) * (m * m)"
  by (induction xs) (simp_all add: algebra_simps)

lemma population_variance:
  fixes xs :: "real list"
  assumes "xs \<noteq> []"
  defines "n \<equiv> real (length xs)"
  defines "m \<equiv> sum_list xs / n"
  shows "(\<Sum>x\<leftarrow>xs. x * x) / n - m * m = (\<Sum>x\<leftarrow>xs. (x - m) * (x - m)) / n"
proof -
  have n0: "n \<noteq> 0" using assms(1) by (simp add: n_def)
  have s: "sum_list xs = n * m" using n0 by (simp add: m_def)
  have "(\<Sum>x\<leftarrow>xs. (x - m) * (x - m)) = (\<Sum>x\<leftarrow>xs. x * x) - 2 * m * (n * m) + n * (m * m)"
    unfolding sum_of_squared_deviations s n_def ..
  also have "\<dots> = (\<Sum>x\<leftarrow>xs. x * x) - n * (m * m)" by (simp add: algebra_simps)
  finally have "(\<Sum>x\<leftarrow>xs. (x - m) * (x - m)) / n = (\<Sum>x\<leftarrow>xs. x * x) / n - m * m"
    using n0 by (simp add: diff_divide_distrib)
  then show ?thesis by simp
qed

subsection \<open>A constant array of natural numbers\<close>

lemma constant_sums_ieee:
  assumes p: "0 < p" and pe: "int p \<le> emax" and b: "(k + n) * c \<le> 2 ^ p"
  shows "foldl (fpAdd p emax) (Finite (real (k * c))) (replicate n (Finite (real c)))
           = Finite (real ((k + n) * c))"
  using b
proof (induction n arbitrary: k)
  case 0
  then show ?case by simp
next
  case (Suc n)
  have le: "(Suc k + n) * c \<le> 2 ^ p" using Suc.prems by simp
  have "(Suc k) * c \<le> (Suc k + n) * c" by (simp add: mult_le_mono1)
  with le have one: "Suc k * c \<le> 2 ^ p" by linarith
  have step: "fpAdd p emax (Finite (real (k * c))) (Finite (real c)) = Finite (real (Suc k * c))"
  proof -
    have e: "real (k * c) + real c = real (Suc k * c)" by (simp add: algebra_simps)
    have "fpAdd p emax (Finite (real (k * c))) (Finite (real c)) = roundToFormat p emax (real (k * c) + real c)"
      by simp
    also have "\<dots> = roundToFormat p emax (real (Suc k * c))" by (simp only: e)
    also have "\<dots> = Finite (real (Suc k * c))" by (rule roundToFormat_nat [OF p pe one])
    finally show ?thesis .
  qed
  show ?case using Suc.IH [OF le] step by simp
qed

lemma constant_squares_ieee:
  assumes p: "0 < p" and pe: "int p \<le> emax" and b: "(k + n) * (c * c) \<le> 2 ^ p"
  shows "foldl (\<lambda>q x. fpAdd p emax q (fpMul p emax x x)) (Finite (real (k * (c * c))))
           (replicate n (Finite (real c))) = Finite (real ((k + n) * (c * c)))"
  using b
proof (induction n arbitrary: k)
  case 0
  then show ?case by simp
next
  case (Suc n)
  have le: "(Suc k + n) * (c * c) \<le> 2 ^ p" using Suc.prems by simp
  have "(Suc k) * (c * c) \<le> (Suc k + n) * (c * c)" by (simp add: mult_le_mono1)
  with le have one: "Suc k * (c * c) \<le> 2 ^ p" by linarith
  then have sq: "c * c \<le> 2 ^ p" by simp
  have mul: "fpMul p emax (Finite (real c)) (Finite (real c)) = Finite (real (c * c))"
  proof -
    have "fpMul p emax (Finite (real c)) (Finite (real c)) = roundToFormat p emax (real (c * c))"
      by simp
    then show ?thesis by (simp only: roundToFormat_nat [OF p pe sq])
  qed
  have step: "fpAdd p emax (Finite (real (k * (c * c)))) (fpMul p emax (Finite (real c)) (Finite (real c)))
                = Finite (real (Suc k * (c * c)))"
  proof -
    have e: "real (k * (c * c)) + real (c * c) = real (Suc k * (c * c))" by (simp add: algebra_simps)
    have "fpAdd p emax (Finite (real (k * (c * c)))) (fpMul p emax (Finite (real c)) (Finite (real c)))
            = fpAdd p emax (Finite (real (k * (c * c)))) (Finite (real (c * c)))" by (simp only: mul)
    also have "\<dots> = roundToFormat p emax (real (k * (c * c)) + real (c * c))" by simp
    also have "\<dots> = roundToFormat p emax (real (Suc k * (c * c)))" by (simp only: e)
    also have "\<dots> = Finite (real (Suc k * (c * c)))" by (rule roundToFormat_nat [OF p pe one])
    finally show ?thesis .
  qed
  show ?case using Suc.IH [OF le] step by simp
qed

lemma constant_array_ieee:
  assumes p: "0 < p" and pe: "int p \<le> emax" and n: "1 \<le> n" "n \<le> 2 ^ p" and b: "n * (c * c) \<le> 2 ^ p"
  shows "calculateMeanAndVarianceOfSamples (ieeeArith p emax) (replicate n (Finite (real c)))
           = \<lparr> mean = Finite (real c), variance = Finite 0 \<rparr>"
proof -
  have c1: "c \<le> c * c" by (cases c) simp_all
  have nc: "n * c \<le> 2 ^ p" using b c1 by (meson le_trans mult_le_mono2)
  have "1 * (c * c) \<le> n * (c * c)" using n(1) by (rule mult_le_mono1)
  then have "c * c \<le> n * (c * c)" by (simp only: mult_1)
  from this b have cc: "c * c \<le> 2 ^ p" by (rule le_trans)
  have cp: "c \<le> 2 ^ p" using cc c1 by linarith
  have s: "foldl (fpAdd p emax) (Finite 0) (replicate n (Finite (real c))) = Finite (real (n * c))"
    using constant_sums_ieee [OF p pe, of 0 n c] nc by simp
  have q: "foldl (\<lambda>q x. fpAdd p emax q (fpMul p emax x x)) (Finite 0) (replicate n (Finite (real c)))
             = Finite (real (n * (c * c)))"
    using constant_squares_ieee [OF p pe, of 0 n c] b by simp
  have sz: "roundToFormat p emax (real n) = Finite (real n)" by (rule roundToFormat_nat [OF p pe n(2)])
  have n0: "real n \<noteq> 0" using n(1) by simp
  have m: "fpDiv p emax (Finite (real (n * c))) (Finite (real n)) = Finite (real c)"
  proof -
    have "real (n * c) / real n = real c" using n0 by simp
    then show ?thesis using roundToFormat_nat [OF p pe cp] n0 by simp
  qed
  have m2: "fpDiv p emax (Finite (real (n * (c * c)))) (Finite (real n)) = Finite (real (c * c))"
  proof -
    have "real (n * (c * c)) / real n = real (c * c)" using n0 by simp
    then show ?thesis using roundToFormat_nat [OF p pe cc] n0 by simp
  qed
  have mm: "fpMul p emax (Finite (real c)) (Finite (real c)) = Finite (real (c * c))"
    using roundToFormat_nat [OF p pe cc] by simp
  have v: "fpSub p emax (Finite (real (c * c))) (Finite (real (c * c))) = Finite 0"
    by (simp add: fpSub_def)
  show ?thesis
    by (simp add: calculateMeanAndVarianceOfSamples_def accumulateSamples_foldl s q sz m m2 mm v
        Let_def del: of_nat_mult fpDiv.simps fpMul.simps)
qed

subsection \<open>A constant array in the normal range: relative errors\<close>

lemma power_bounds:
  assumes p: "0 < p" and n: "2 * (2 * real n + 3) \<le> 2 ^ p" and k: "k \<le> 2 * n + 3"
  shows "1 - real k / 2 ^ p \<le> (1 - 1 / 2 ^ p) ^ k"
    and "(1 + 1 / 2 ^ p) ^ k \<le> 1 + 2 * real k / 2 ^ p"
    and "1 / 2 \<le> (1 - 1 / 2 ^ p :: real) ^ k" and "(1 - 1 / 2 ^ p :: real) ^ k \<le> 1"
    and "1 \<le> (1 + 1 / 2 ^ p :: real) ^ k" and "(1 + 1 / 2 ^ p :: real) ^ k \<le> 2"
proof -
  define u :: real where "u = 1 / 2 ^ p"
  have u: "0 < u" "u \<le> 1 / 2" using unit_roundoff [OF p] by (simp_all add: u_def)
  have "real k \<le> 2 * real n + 3" using k by linarith
  then have "2 * real k \<le> 2 * (2 * real n + 3)" by simp
  from this n have "2 * real k \<le> 2 ^ p" by (rule order_trans)
  then have "2 * real k / 2 ^ p \<le> 1" by (simp add: field_simps)
  then have ku: "2 * real k * u \<le> 1" by (simp add: u_def)
  have lower: "1 - real k * u \<le> (1 - u) ^ k" using u by (intro power_lower) simp_all
  have upper: "(1 + u) ^ k \<le> 1 + 2 * real k * u" using u ku by (intro power_upper) simp_all
  show "1 - real k / 2 ^ p \<le> (1 - 1 / 2 ^ p) ^ k" using lower by (simp add: u_def)
  show "(1 + 1 / 2 ^ p) ^ k \<le> 1 + 2 * real k / 2 ^ p" using upper by (simp add: u_def)
  show "1 / 2 \<le> (1 - 1 / 2 ^ p :: real) ^ k" using lower ku unfolding u_def by linarith
  show "(1 + 1 / 2 ^ p :: real) ^ k \<le> 2" using upper ku unfolding u_def by linarith
  have "(1 - u) ^ k \<le> 1" using u by (intro power_le_one) simp_all
  then show "(1 - 1 / 2 ^ p :: real) ^ k \<le> 1" by (simp add: u_def)
  have "1 \<le> (1 + u) ^ k" using u by (intro one_le_power) simp_all
  then show "1 \<le> (1 + 1 / 2 ^ p :: real) ^ k" by (simp add: u_def)
qed

text \<open>
  A running sum that adds the same value \<open>d\<close>, close to \<open>c\<close>, in every round: after \<open>k\<close>
  rounds it is \<open>k c\<close> up to \<open>k\<close> roundings.
\<close>

lemma constant_run:
  fixes c d \<alpha> \<beta> :: real
  assumes step: "\<And>s. f s x = fpAdd p emax s (Finite d)"
    and p: "0 < p" and n: "2 * (2 * real n + 3) \<le> 2 ^ p"
    and d: "scaledWithin c \<alpha> \<beta> d"
    and \<alpha>: "1 - 1 / 2 ^ p \<le> \<alpha>" "\<alpha> \<le> 1" and \<beta>: "1 \<le> \<beta>" "\<beta> \<le> 1 + 1 / 2 ^ p"
    and clo: "2 powr (of_int (1 - emax)) \<le> \<bar>c\<bar> / 2"
    and chi: "2 * real n * \<bar>c\<bar> \<le> 2 powr (of_int emax)"
    and k: "k \<le> n"
  shows "\<exists>v. foldl f (Finite 0) (replicate k x) = Finite v
             \<and> scaledWithin c (real k * (1 - 1 / 2 ^ p) ^ k * \<alpha>) (real k * (1 + 1 / 2 ^ p) ^ k * \<beta>) v"
  using k
proof (induction k)
  case 0
  have "scaledWithin c 0 0 0" unfolding scaledWithin_def by (intro exI [of _ 0]) simp
  then show ?case by simp
next
  case (Suc k)
  define a :: real where "a = 1 - 1 / 2 ^ p"
  define b :: real where "b = 1 + 1 / 2 ^ p"
  have u: "0 < (1::real) / 2 ^ p" "(1::real) / 2 ^ p \<le> 1 / 2" using unit_roundoff [OF p] by simp_all
  have a: "1 / 2 \<le> a" "a \<le> 1" and b: "1 \<le> b" "b \<le> 2" using u by (simp_all add: a_def b_def)
  have kn: "k \<le> n" "Suc k \<le> n" using Suc.prems by simp_all
  have k23: "k \<le> 2 * n + 3" "Suc k \<le> 2 * n + 3" using kn by simp_all
  have ak: "a ^ k \<le> 1" "0 \<le> a ^ k" using power_bounds(3,4) [OF p n k23(1)] by (simp_all add: a_def)
  have bk: "1 \<le> b ^ k" using power_bounds(5) [OF p n k23(1)] by (simp add: b_def)
  have bk1: "b ^ Suc k \<le> 2" using power_bounds(6) [OF p n k23(2)] by (simp add: b_def)
  from Suc.IH [OF kn(1)] obtain v where
    v: "foldl f (Finite 0) (replicate k x) = Finite v"
    and w: "scaledWithin c (real k * a ^ k * \<alpha>) (real k * b ^ k * \<beta>) v"
    unfolding a_def b_def by blast
  from w obtain r where r: "v = c * r" "real k * a ^ k * \<alpha> \<le> r" "r \<le> real k * b ^ k * \<beta>"
    unfolding scaledWithin_def by blast
  from d obtain rd where rd: "d = c * rd" "\<alpha> \<le> rd" "rd \<le> \<beta>" unfolding scaledWithin_def by blast
  define lo where "lo = real k * a ^ k * \<alpha> + \<alpha>"
  define hi where "hi = real k * b ^ k * \<beta> + \<beta>"
  have \<alpha>0: "1 / 2 \<le> \<alpha>" using \<alpha>(1) a(1) unfolding a_def by linarith
  have sum: "scaledWithin c lo hi (v + d)"
    unfolding scaledWithin_def lo_def hi_def using r rd
    by (intro exI [of _ "r + rd"]) (simp add: algebra_simps)
  have t0: "0 \<le> real k * a ^ k * \<alpha>" using ak(2) \<alpha>0 by simp
  have lo_half: "1 / 2 \<le> lo" using t0 \<alpha>0 by (simp add: lo_def)
  have lo0: "0 \<le> lo" using lo_half by simp
  have hi_le: "hi \<le> 2 * real n"
  proof -
    have "real k * b ^ k * \<beta> \<le> real k * b ^ k * b"
      using \<beta>(2) bk by (intro mult_left_mono) (simp_all add: b_def)
    also have "\<dots> = real k * b ^ Suc k" by simp
    also have "\<dots> \<le> real k * 2" using bk1 by (intro mult_left_mono) simp_all
    finally have "real k * b ^ k * \<beta> \<le> 2 * real k" by simp
    moreover have "\<beta> \<le> 2" using \<beta>(2) b(2) unfolding b_def by linarith
    moreover have "real k + 1 \<le> real n" using kn(2) by linarith
    ultimately show ?thesis unfolding hi_def by linarith
  qed
  have rlo: "2 powr (of_int (1 - emax)) \<le> lo * \<bar>c\<bar>"
  proof -
    have "\<bar>c\<bar> / 2 = 1 / 2 * \<bar>c\<bar>" by simp
    also have "\<dots> \<le> lo * \<bar>c\<bar>" using lo_half by (intro mult_right_mono) simp_all
    finally show ?thesis using clo by linarith
  qed
  have rhi: "hi * \<bar>c\<bar> \<le> 2 powr (of_int emax)"
  proof -
    have "hi * \<bar>c\<bar> \<le> 2 * real n * \<bar>c\<bar>" using hi_le by (intro mult_right_mono) simp_all
    then show ?thesis using chi by linarith
  qed
  from scaledWithin_format [OF p lo0 sum rlo rhi] obtain v' where
    v': "roundToFormat p emax (v + d) = Finite v'"
    and w': "scaledWithin c (lo * a) (hi * b) v'"
    unfolding a_def b_def by blast
  have fold: "foldl f (Finite 0) (replicate (Suc k) x) = Finite v'"
  proof -
    have "replicate (Suc k) x = replicate k x @ [x]" by (simp add: replicate_append_same)
    then have "foldl f (Finite 0) (replicate (Suc k) x) = f (foldl f (Finite 0) (replicate k x)) x"
      by (simp only: foldl_append foldl.simps)
    then show ?thesis by (simp add: v step v')
  qed
  have low: "real (Suc k) * a ^ Suc k * \<alpha> \<le> lo * a"
  proof -
    have "a ^ Suc k \<le> a" using ak a by (simp add: mult_left_le)
    then have "a ^ Suc k * \<alpha> \<le> a * \<alpha>" using \<alpha>0 by (intro mult_right_mono) simp_all
    moreover have "lo * a = real k * a ^ Suc k * \<alpha> + a * \<alpha>" by (simp add: lo_def algebra_simps)
    moreover have "real (Suc k) * a ^ Suc k * \<alpha> = real k * a ^ Suc k * \<alpha> + a ^ Suc k * \<alpha>"
      by (simp add: algebra_simps)
    ultimately show ?thesis by linarith
  qed
  have high: "hi * b \<le> real (Suc k) * b ^ Suc k * \<beta>"
  proof -
    have "b \<le> b ^ Suc k" using bk b by simp
    then have "b * \<beta> \<le> b ^ Suc k * \<beta>" using \<beta>(1) by (intro mult_right_mono) simp_all
    moreover have "hi * b = real k * b ^ Suc k * \<beta> + b * \<beta>" by (simp add: hi_def algebra_simps)
    moreover have "real (Suc k) * b ^ Suc k * \<beta> = real k * b ^ Suc k * \<beta> + b ^ Suc k * \<beta>"
      by (simp add: algebra_simps)
    ultimately show ?thesis by linarith
  qed
  have "scaledWithin c (real (Suc k) * a ^ Suc k * \<alpha>) (real (Suc k) * b ^ Suc k * \<beta>) v'"
    using w' low high by (rule scaledWithin_weaken)
  then show ?case using fold unfolding a_def b_def by blast
qed

lemma constant_array_tolerance:
  fixes c :: real
  assumes p: "0 < p" and pe: "int p \<le> emax"
    and n1: "1 \<le> n" and n: "2 * (2 * real n + 3) \<le> 2 ^ p"
    and clo: "2 powr (of_int (1 - emax)) \<le> \<bar>c\<bar> / 2"
    and qlo: "2 powr (of_int (1 - emax)) \<le> c * c / 2"
    and chi: "2 * real n * \<bar>c\<bar> \<le> 2 powr (of_int emax)"
    and qhi: "2 * real n * (c * c) \<le> 2 powr (of_int emax)"
  shows "\<exists>m v. calculateMeanAndVarianceOfSamples (ieeeArith p emax) (replicate n (Finite c))
                 = \<lparr> mean = Finite m, variance = Finite v \<rparr>
             \<and> \<bar>m - c\<bar> \<le> 2 * real (n + 1) / 2 ^ p * \<bar>c\<bar>
             \<and> \<bar>v\<bar> \<le> 6 * real (2 * n + 3) / 2 ^ p * (c * c)"
proof -
  define a :: real where "a = 1 - 1 / 2 ^ p"
  define b :: real where "b = 1 + 1 / 2 ^ p"
  define u :: real where "u = 1 / 2 ^ p"
  define K where "K = 2 * n + 3"
  have u: "0 < u" "u \<le> 1 / 2" using unit_roundoff [OF p] by (simp_all add: u_def)
  have a: "1 / 2 \<le> a" "a \<le> 1" "0 \<le> a" and b: "1 \<le> b" "b \<le> 2" using u by (simp_all add: a_def b_def u_def)
  have nr: "1 \<le> real n" "0 < real n" using n1 by simp_all
  have cc: "\<bar>c * c\<bar> = c * c" by simp
  have pw: "1 / 2 \<le> a ^ k" "a ^ k \<le> 1" "1 \<le> b ^ k" "b ^ k \<le> 2"
    "1 - real k * u \<le> a ^ k" "b ^ k \<le> 1 + 2 * real k * u" if "k \<le> K" for k
    using power_bounds [OF p n, of k] that by (simp_all add: a_def b_def u_def K_def)
  have Ku: "2 * real K * u \<le> 1"
  proof -
    have "2 * real K \<le> 2 ^ p" using n by (simp add: K_def)
    then show ?thesis by (simp add: u_def field_simps)
  qed
  have range_lo: "2 powr (of_int (1 - emax)) \<le> lo * \<bar>x\<bar>"
    if "1 / 2 \<le> lo" "2 powr (of_int (1 - emax)) \<le> \<bar>x\<bar> / 2" for lo x :: real
  proof -
    have "\<bar>x\<bar> / 2 = 1 / 2 * \<bar>x\<bar>" by simp
    also have "\<dots> \<le> lo * \<bar>x\<bar>" using that(1) by (intro mult_right_mono) simp_all
    finally show ?thesis using that(2) by linarith
  qed
  have range_hi: "hi * \<bar>x\<bar> \<le> 2 powr (of_int emax)"
    if "hi \<le> 2" "2 * real n * \<bar>x\<bar> \<le> 2 powr (of_int emax)" for hi x :: real
  proof -
    have "hi * \<bar>x\<bar> \<le> 2 * \<bar>x\<bar>" using that(1) by (intro mult_right_mono) simp_all
    also have "\<dots> = 2 * 1 * \<bar>x\<bar>" by simp
    also have "\<dots> \<le> 2 * real n * \<bar>x\<bar>" using nr(1) by (intro mult_right_mono mult_left_mono) simp_all
    finally show ?thesis using that(2) by linarith
  qed
  have fmt: "\<exists>v. roundToFormat p emax x = Finite v \<and> scaledWithin y (lo * a) (hi * b) v"
    if "scaledWithin y lo hi x" "1 / 2 \<le> lo" "hi \<le> 2"
      "2 powr (of_int (1 - emax)) \<le> \<bar>y\<bar> / 2" "2 * real n * \<bar>y\<bar> \<le> 2 powr (of_int emax)"
    for x y lo hi :: real
  proof -
    have "0 \<le> lo" using that(2) by simp
    then show ?thesis
      unfolding a_def b_def
      using that(1) range_lo [OF that(2,4)] range_hi [OF that(3,5)] by (rule scaledWithin_format [OF p])
  qed
  have qlo': "2 powr (of_int (1 - emax)) \<le> \<bar>c * c\<bar> / 2" using qlo by (simp only: cc)
  have qhi': "2 * real n * \<bar>c * c\<bar> \<le> 2 powr (of_int emax)" using qhi by (simp only: cc)
  have nle: "n \<le> 2 ^ p"
  proof -
    have "real n \<le> 2 * (2 * real n + 3)" by simp
    from this n have "real n \<le> 2 ^ p" by (rule order_trans)
    then show ?thesis by simp
  qed
  have size: "roundToFormat p emax (real n) = Finite (real n)"
    using p pe n1 nle by (rule ofSize_exact)
  have "\<exists>v. foldl (fpAdd p emax) (Finite 0) (replicate n (Finite c)) = Finite v
             \<and> scaledWithin c (real n * (1 - 1 / 2 ^ p) ^ n * 1) (real n * (1 + 1 / 2 ^ p) ^ n * 1) v"
  proof (rule constant_run [where d = c and n = n])
    show "scaledWithin c 1 1 c" unfolding scaledWithin_def by (intro exI [of _ 1]) simp
  qed (use p n clo chi in simp_all)
  then obtain S where S: "foldl (fpAdd p emax) (Finite 0) (replicate n (Finite c)) = Finite S"
    and Sw: "scaledWithin c (real n * a ^ n) (real n * b ^ n) S"
    by (auto simp: a_def b_def)
  have "scaledWithin (c * c) 1 1 (c * c)" unfolding scaledWithin_def by (intro exI [of _ 1]) simp
  from fmt [OF this _ _ qlo' qhi']
  obtain q where q: "roundToFormat p emax (c * c) = Finite q" and qw: "scaledWithin (c * c) a b q"
    by auto
  have "\<exists>v. foldl (\<lambda>s x. fpAdd p emax s (fpMul p emax x x)) (Finite 0) (replicate n (Finite c)) = Finite v
             \<and> scaledWithin (c * c) (real n * (1 - 1 / 2 ^ p) ^ n * a) (real n * (1 + 1 / 2 ^ p) ^ n * b) v"
  proof (rule constant_run [where d = q and n = n])
    show "fpAdd p emax s (fpMul p emax (Finite c) (Finite c)) = fpAdd p emax s (Finite q)" for s
      by (simp add: q)
    show "scaledWithin (c * c) a b q" by (rule qw)
  qed (use p n qlo' qhi' a b in \<open>simp_all add: a_def b_def\<close>)
  then obtain T where
    T: "foldl (\<lambda>s x. fpAdd p emax s (fpMul p emax x x)) (Finite 0) (replicate n (Finite c)) = Finite T"
    and Tw: "scaledWithin (c * c) (real n * a ^ n * a) (real n * b ^ n * b) T"
    by (auto simp: a_def b_def)
  have Sn: "scaledWithin c (a ^ n) (b ^ n) (S / real n)"
  proof -
    from Sw obtain r where r: "S = c * r" "real n * a ^ n \<le> r" "r \<le> real n * b ^ n"
      unfolding scaledWithin_def by blast
    have "a ^ n \<le> r / real n" "r / real n \<le> b ^ n"
      using r(2,3) nr(2) by (simp_all add: field_simps)
    then show ?thesis unfolding scaledWithin_def using r(1) by (intro exI [of _ "r / real n"]) simp
  qed
  have kn: "n \<le> K" "Suc n \<le> K" "Suc (Suc n) \<le> K" "2 * n + 2 \<le> K" "K \<le> K" by (simp_all add: K_def)
  from fmt [OF Sn pw(1) [OF kn(1)] pw(4) [OF kn(1)] clo chi]
  obtain m where m: "roundToFormat p emax (S / real n) = Finite m"
    and mw: "scaledWithin c (a ^ Suc n) (b ^ Suc n) m"
    by (auto simp: mult.commute)
  have Tn: "scaledWithin (c * c) (a ^ Suc n) (b ^ Suc n) (T / real n)"
  proof -
    from Tw obtain r where r: "T = c * c * r" "real n * a ^ n * a \<le> r" "r \<le> real n * b ^ n * b"
      unfolding scaledWithin_def by blast
    have "a ^ Suc n \<le> r / real n" "r / real n \<le> b ^ Suc n"
      using r(2,3) nr(2) by (simp_all add: field_simps)
    then show ?thesis unfolding scaledWithin_def using r(1) by (intro exI [of _ "r / real n"]) simp
  qed
  from fmt [OF Tn pw(1) [OF kn(2)] pw(4) [OF kn(2)] qlo' qhi']
  obtain Aq where Aq: "roundToFormat p emax (T / real n) = Finite Aq"
    and Aw: "scaledWithin (c * c) (a ^ Suc (Suc n)) (b ^ Suc (Suc n)) Aq"
    by (auto simp: mult.commute)
  have mm: "scaledWithin (c * c) (a ^ (2 * n + 2)) (b ^ (2 * n + 2)) (m * m)"
  proof -
    from mw obtain r where r: "m = c * r" "a ^ Suc n \<le> r" "r \<le> b ^ Suc n"
      unfolding scaledWithin_def by blast
    have r0: "0 \<le> r" using r(2) pw(1) [OF kn(2)] by linarith
    have an0: "0 \<le> a ^ Suc n" using a(3) by (rule zero_le_power)
    have e: "x ^ Suc n * x ^ Suc n = x ^ (2 * n + 2)" for x :: real
    proof -
      have "Suc n + Suc n = 2 * n + 2" by simp
      then show ?thesis by (metis power_add)
    qed
    have l: "a ^ Suc n * a ^ Suc n \<le> r * r" using r(2) an0 r0 by (intro mult_mono)
    have h: "r * r \<le> b ^ Suc n * b ^ Suc n" using r(3) r0 by (intro mult_mono) simp_all
    have "a ^ (2 * n + 2) \<le> r * r" using l by (simp only: e)
    moreover have "r * r \<le> b ^ (2 * n + 2)" using h by (simp only: e)
    ultimately have "a ^ (2 * n + 2) \<le> r * r \<and> r * r \<le> b ^ (2 * n + 2)" by simp
    then show ?thesis unfolding scaledWithin_def using r(1) by (intro exI [of _ "r * r"]) simp
  qed
  have K2: "K = Suc (2 * n + 2)" by (simp add: K_def)
  from fmt [OF mm pw(1) [OF kn(4)] pw(4) [OF kn(4)] qlo' qhi']
  obtain Bq where Bq: "roundToFormat p emax (m * m) = Finite Bq"
    and Bw: "scaledWithin (c * c) (a ^ K) (b ^ K) Bq"
    unfolding K2 by (auto simp: mult.commute)
  from Aw obtain rA where rA: "Aq = c * c * rA" "a ^ Suc (Suc n) \<le> rA" "rA \<le> b ^ Suc (Suc n)"
    unfolding scaledWithin_def by blast
  from Bw obtain rB where rB: "Bq = c * c * rB" "a ^ K \<le> rB" "rB \<le> b ^ K"
    unfolding scaledWithin_def by blast
  have "a ^ K \<le> a ^ Suc (Suc n)" using a kn(3) by (intro power_decreasing) simp_all
  moreover have "b ^ Suc (Suc n) \<le> b ^ K" using b kn(3) by (intro power_increasing) simp_all
  ultimately have "1 - real K * u \<le> rA" "rA \<le> 1 + 2 * real K * u"
    "1 - real K * u \<le> rB" "rB \<le> 1 + 2 * real K * u"
    using rA(2,3) rB(2,3) pw(5,6) [OF kn(5)] by linarith+
  then have rd: "\<bar>rA - rB\<bar> \<le> 3 * real K * u" by linarith
  have "Aq - Bq = c * c * (rA - rB)" by (simp add: rA(1) rB(1) algebra_simps)
  then have "\<bar>Aq - Bq\<bar> = c * c * \<bar>rA - rB\<bar>" by (simp add: abs_mult)
  also have "\<dots> \<le> c * c * (3 * real K * u)" using rd by (intro mult_left_mono) simp_all
  finally have diff: "\<bar>Aq - Bq\<bar> \<le> 3 * real K * u * (c * c)" by (simp add: mult.commute)
  have "3 * real K * u * (c * c) \<le> 2 * (c * c)"
    using Ku by (intro mult_right_mono) simp_all
  also have "\<dots> = 2 * 1 * (c * c)" by simp
  also have "\<dots> \<le> 2 * real n * (c * c)" using nr(1) by (intro mult_right_mono mult_left_mono) simp_all
  finally have "\<bar>Aq - Bq\<bar> \<le> 2 powr (of_int emax)" using diff qhi by linarith
  moreover have "1 \<le> emax" using p pe by linarith
  ultimately obtain v where v: "roundToFormat p emax (Aq - Bq) = Finite v" and vb: "\<bar>v\<bar> \<le> 2 * \<bar>Aq - Bq\<bar>"
    using roundToFormat_bound [OF p, of emax "Aq - Bq"] by blast
  have vtol: "\<bar>v\<bar> \<le> 6 * real (2 * n + 3) / 2 ^ p * (c * c)"
  proof -
    have "2 * \<bar>Aq - Bq\<bar> \<le> 2 * (3 * real K * u * (c * c))"
      using diff by (intro mult_left_mono) simp_all
    with vb have "\<bar>v\<bar> \<le> 2 * (3 * real K * u * (c * c))" by (rule order_trans)
    also have "\<dots> = 6 * real (2 * n + 3) / 2 ^ p * (c * c)" by (simp add: K_def u_def)
    finally show ?thesis .
  qed
  have mtol: "\<bar>m - c\<bar> \<le> 2 * real (n + 1) / 2 ^ p * \<bar>c\<bar>"
  proof -
    from mw obtain r where r: "m = c * r" "a ^ Suc n \<le> r" "r \<le> b ^ Suc n"
      unfolding scaledWithin_def by blast
    have "1 - real (Suc n) * u \<le> r" "r \<le> 1 + 2 * real (Suc n) * u"
      using r(2,3) pw(5,6) [OF kn(2)] by linarith+
    then have "\<bar>r - 1\<bar> \<le> 2 * real (Suc n) * u" using u(1) by (simp add: abs_le_iff algebra_simps) 
    moreover have "m - c = c * (r - 1)" by (simp add: r(1) algebra_simps)
    then have "\<bar>m - c\<bar> = \<bar>c\<bar> * \<bar>r - 1\<bar>" by (simp add: abs_mult)
    ultimately have "\<bar>m - c\<bar> \<le> \<bar>c\<bar> * (2 * real (Suc n) * u)" by (simp add: mult_left_mono)
    also have "\<dots> = 2 * real (n + 1) / 2 ^ p * \<bar>c\<bar>" by (simp add: u_def)
    finally show ?thesis .
  qed

  have n0: "real n \<noteq> 0" using n1 by simp
  have e1: "fpDiv p emax (Finite S) (Finite (real n)) = Finite m" using n0 m by simp
  have e2: "fpDiv p emax (Finite T) (Finite (real n)) = Finite Aq" using n0 Aq by simp
  have e3: "fpMul p emax (Finite m) (Finite m) = Finite Bq" using Bq by simp
  have e4: "fpSub p emax (Finite Aq) (Finite Bq) = Finite v" using v by (simp add: fpSub_def)
  have "calculateMeanAndVarianceOfSamples (ieeeArith p emax) (replicate n (Finite c))
          = \<lparr> mean = Finite m, variance = Finite v \<rparr>"
    by (simp add: calculateMeanAndVarianceOfSamples_def accumulateSamples_foldl S T size e1 e2 e3 e4
        Let_def del: fpDiv.simps fpMul.simps)
  then show ?thesis using mtol vtol by blast
qed

text \<open>
  The tolerance for a constant array whose value is zero or has a magnitude between
  \<open>cmin\<close> and \<open>cmax\<close>, in a format that holds the squares and the sums in its normal range.
\<close>

lemma constant_array_in_format:
  fixes c cmin cmax :: real
  assumes p: "0 < p" and pe: "int p \<le> emax"
    and n1: "1 \<le> n" and n: "2 * n + 3 \<le> 2 ^ (p - 1)"
    and c: "c = 0 \<or> cmin \<le> \<bar>c\<bar> \<and> \<bar>c\<bar> \<le> cmax"
    and cmin: "0 < cmin" "1 / 2 ^ nat (emax - 1) \<le> cmin / 2" "1 / 2 ^ nat (emax - 1) \<le> cmin * cmin / 2"
    and cmax: "2 ^ p * cmax \<le> 2 ^ nat emax" "2 ^ p * (cmax * cmax) \<le> 2 ^ nat emax"
  shows "\<exists>m v. calculateMeanAndVarianceOfSamples (ieeeArith p emax) (replicate n (Finite c))
                 = \<lparr> mean = Finite m, variance = Finite v \<rparr>
             \<and> \<bar>m - c\<bar> \<le> real (n + 1) / 2 ^ (p - 1) * \<bar>c\<bar>
             \<and> \<bar>v\<bar> \<le> real (2 * n + 3) / 2 ^ (p - 3) * (c * c)"
proof -
  have e1: "1 \<le> emax" using p pe by linarith
  obtain p' where p': "p = Suc p'" using p by (cases p) simp_all
  have nn: "2 * (2 * real n + 3) \<le> 2 ^ p"
  proof -
    have "real (2 * n + 3) \<le> real (2 ^ (p - 1))" using n by (simp only: of_nat_le_iff)
    then show ?thesis by (simp add: p')
  qed
  have n2p: "2 * real n \<le> 2 ^ p"
  proof -
    have "2 * real n \<le> 2 * (2 * real n + 3)" by simp
    from this nn show ?thesis by (rule order_trans)
  qed
  have nle: "n \<le> 2 ^ p"
  proof -
    have "real n \<le> 2 * real n" by simp
    from this n2p have "real n \<le> 2 ^ p" by (rule order_trans)
    then show ?thesis by simp
  qed
  show ?thesis
  proof (cases "c = 0")
    case True
    have "calculateMeanAndVarianceOfSamples (ieeeArith p emax) (replicate n (Finite (real 0)))
            = \<lparr> mean = Finite (real 0), variance = Finite 0 \<rparr>"
      using p pe n1 nle by (rule constant_array_ieee) simp
    then show ?thesis using True by simp
  next
    case False
    with c have cr: "cmin \<le> \<bar>c\<bar>" "\<bar>c\<bar> \<le> cmax" by simp_all
    have sq: "cmin * cmin \<le> c * c" "c * c \<le> cmax * cmax"
    proof -
      have "cmin * cmin \<le> \<bar>c\<bar> * \<bar>c\<bar>" using cr(1) cmin(1) by (intro mult_mono) simp_all
      then show "cmin * cmin \<le> c * c" by simp
      have "\<bar>c\<bar> * \<bar>c\<bar> \<le> cmax * cmax" using cr(2) by (intro mult_mono) simp_all
      then show "c * c \<le> cmax * cmax" by simp
    qed
    have clo: "2 powr (of_int (1 - emax)) \<le> \<bar>c\<bar> / 2"
      unfolding format_range(1) [OF e1] using cmin(2) cr(1) by linarith
    have qlo: "2 powr (of_int (1 - emax)) \<le> c * c / 2"
      unfolding format_range(1) [OF e1] using cmin(3) sq(1) by linarith
    have chi: "2 * real n * \<bar>c\<bar> \<le> 2 powr (of_int emax)"
    proof -
      have "2 * real n * \<bar>c\<bar> \<le> 2 ^ p * cmax" by (rule mult_mono [OF n2p cr(2)]) simp_all
      then show ?thesis unfolding format_range(2) [OF e1] using cmax(1) by linarith
    qed
    have qhi: "2 * real n * (c * c) \<le> 2 powr (of_int emax)"
    proof -
      have "2 * real n * (c * c) \<le> 2 ^ p * (cmax * cmax)" by (rule mult_mono [OF n2p sq(2)]) simp_all
      then show ?thesis unfolding format_range(2) [OF e1] using cmax(2) by linarith
    qed
    from constant_array_tolerance [OF p pe n1 nn clo qlo chi qhi]
    obtain m v where r: "calculateMeanAndVarianceOfSamples (ieeeArith p emax) (replicate n (Finite c))
                           = \<lparr> mean = Finite m, variance = Finite v \<rparr>"
      and m: "\<bar>m - c\<bar> \<le> 2 * real (n + 1) / 2 ^ p * \<bar>c\<bar>"
      and v: "\<bar>v\<bar> \<le> 6 * real (2 * n + 3) / 2 ^ p * (c * c)" by blast
    have meq: "2 * real (n + 1) / 2 ^ p = real (n + 1) / 2 ^ (p - 1)" by (simp add: p' field_simps)
    have m': "\<bar>m - c\<bar> \<le> real (n + 1) / 2 ^ (p - 1) * \<bar>c\<bar>" using m [unfolded meq] .
    have "6 * real (2 * n + 3) / 2 ^ p \<le> 8 * real (2 * n + 3) / 2 ^ p"
      by (intro divide_right_mono) simp_all
    then have "6 * real (2 * n + 3) / 2 ^ p * (c * c) \<le> 8 * real (2 * n + 3) / 2 ^ p * (c * c)"
      by (intro mult_right_mono) simp_all
    with v have v8: "\<bar>v\<bar> \<le> 8 * real (2 * n + 3) / 2 ^ p * (c * c)" by (rule order_trans)
    have p3: "3 \<le> p"
    proof (rule ccontr)
      assume "\<not> 3 \<le> p"
      then have "p \<le> 2" by simp
      then have "(2::nat) ^ (p - 1) \<le> 2 ^ 1" by (intro power_increasing) simp_all
      with n show False by simp
    qed
    then obtain p3' where p3': "p = p3' + 3" using le_Suc_ex [of 3 p] by (auto simp: add.commute)
    have veq: "(8::real) * real (2 * n + 3) / 2 ^ p = real (2 * n + 3) / 2 ^ (p - 3)"
      by (simp add: p3' power_add field_simps)
    have v': "\<bar>v\<bar> \<le> real (2 * n + 3) / 2 ^ (p - 3) * (c * c)" using v8 [unfolded veq] .
    show ?thesis using r m' v' by blast
  qed
qed

lemma constant_array_float:
  fixes c :: real
  assumes "1 \<le> n" "2 * n + 3 \<le> 2 ^ 23" "c = 0 \<or> 1 / 2 ^ 60 \<le> \<bar>c\<bar> \<and> \<bar>c\<bar> \<le> 2 ^ 50"
  shows "\<exists>m v. calculateMeanAndVarianceOfFloatSamples (replicate n (Finite c))
                 = \<lparr> mean = Finite m, variance = Finite v \<rparr>
             \<and> \<bar>m - c\<bar> \<le> real (n + 1) / 2 ^ 23 * \<bar>c\<bar>
             \<and> \<bar>v\<bar> \<le> real (2 * n + 3) / 2 ^ 21 * (c * c)"
  unfolding calculateMeanAndVarianceOfFloatSamples_def ieeeBinary32_def
  using constant_array_in_format [of 24 127 n c "1 / 2 ^ 60" "2 ^ 50"] assms by simp

lemma constant_array_double:
  fixes c :: real
  assumes "1 \<le> n" "2 * n + 3 \<le> 2 ^ 52" "c = 0 \<or> 1 / 2 ^ 500 \<le> \<bar>c\<bar> \<and> \<bar>c\<bar> \<le> 2 ^ 480"
  shows "\<exists>m v. calculateMeanAndVarianceOfDoubleSamples (replicate n (Finite c))
                 = \<lparr> mean = Finite m, variance = Finite v \<rparr>
             \<and> \<bar>m - c\<bar> \<le> real (n + 1) / 2 ^ 52 * \<bar>c\<bar>
             \<and> \<bar>v\<bar> \<le> real (2 * n + 3) / 2 ^ 50 * (c * c)"
  unfolding calculateMeanAndVarianceOfDoubleSamples_def ieeeBinary64_def
  using constant_array_in_format [of 53 1023 n c "1 / 2 ^ 500" "2 ^ 480"] assms by simp

subsection \<open>A constant array of any magnitude: relative and absolute errors\<close>

lemma constant_run_close:
  fixes d :: real
  assumes step: "\<And>s. f s x = fpAdd p emax s (Finite d)"
    and p: "0 < p" and e: "1 \<le> emax" and n: "2 * (2 * real n + 3) \<le> 2 ^ p"
    and rng: "2 * real n * (\<bar>d\<bar> + halfQuantum p emax) \<le> 2 powr (of_int emax)"
    and k: "k \<le> n"
  shows "\<exists>v. foldl f (Finite 0) (replicate k x) = Finite v
             \<and> closeTo (real k * d) ((1 + 1 / 2 ^ p) ^ k)
                  (real k * halfQuantum p emax * (1 + 1 / 2 ^ p) ^ k) v"
  using k
proof (induction k)
  case 0
  show ?case by (simp add: closeTo_def)
next
  case (Suc k)
  define b :: real where "b = 1 + 1 / 2 ^ p"
  define h where "h = halfQuantum p emax"
  have h0: "0 < h" unfolding h_def by (rule halfQuantum_pos)
  have kn: "k \<le> n" "Suc k \<le> n" using Suc.prems by simp_all
  have k23: "k \<le> 2 * n + 3" "Suc k \<le> 2 * n + 3" using kn by simp_all
  have bk: "1 \<le> b ^ k" "b ^ k \<le> 2" using power_bounds(5,6) [OF p n k23(1)] by (simp_all add: b_def)
  have bk1: "1 \<le> b ^ Suc k" using power_bounds(5) [OF p n k23(2)] by (simp add: b_def)
  from Suc.IH [OF kn(1)] obtain v where
    v: "foldl f (Finite 0) (replicate k x) = Finite v"
    and cv: "closeTo (real k * d) (b ^ k) (real k * h * b ^ k) v"
    unfolding b_def h_def by blast
  have same: "0 \<le> real k * d * d"
  proof -
    have "0 \<le> real k * (d * d)" by simp
    then show ?thesis by (simp only: mult.assoc)
  qed
  have sum: "closeTo (real k * d + d) (b ^ k) (real k * h * b ^ k + 0) (v + d)"
    using cv closeTo_exact [OF bk(1)] same by (rule closeTo_add)
  have ideal: "real k * d + d = real (Suc k) * d" by (simp add: algebra_simps)
  have rng': "b ^ k * \<bar>real k * d + d\<bar> + (real k * h * b ^ k + 0) \<le> 2 powr (of_int emax)"
  proof -
    have a: "\<bar>real k * d + d\<bar> = real (Suc k) * \<bar>d\<bar>" unfolding ideal by (simp add: abs_mult)
    have "b ^ k * (real (Suc k) * \<bar>d\<bar>) \<le> 2 * (real (Suc k) * \<bar>d\<bar>)"
      using bk(2) by (intro mult_right_mono) simp_all
    moreover have "real k * h * b ^ k \<le> real k * h * 2"
      using bk(2) h0 by (intro mult_left_mono) simp_all
    moreover have "real (Suc k) * \<bar>d\<bar> \<le> real n * \<bar>d\<bar>" using kn(2) by (intro mult_right_mono) simp_all
    moreover have "real k * h \<le> real n * h" using kn(1) h0 by (intro mult_right_mono) simp_all
    moreover have "2 * real n * (\<bar>d\<bar> + h) = 2 * (real n * \<bar>d\<bar>) + (real n * h) * 2"
      by (simp add: algebra_simps)
    ultimately have "b ^ k * (real (Suc k) * \<bar>d\<bar>) + real k * h * b ^ k \<le> 2 * real n * (\<bar>d\<bar> + h)"
      by linarith
    then show ?thesis using rng unfolding a h_def by simp
  qed
  from closeTo_round [OF p e sum rng'] obtain r where
    r: "roundToFormat p emax (v + d) = Finite r"
    and cr: "closeTo (real k * d + d) (b ^ k * b) ((real k * h * b ^ k + 0) * b + h) r"
    unfolding b_def h_def by blast
  have "(real k * h * b ^ k + 0) * b + h \<le> real (Suc k) * h * b ^ Suc k"
  proof -
    have "h * 1 \<le> h * b ^ Suc k" using bk1 h0 by (intro mult_left_mono) simp_all
    moreover have "real (Suc k) * h * b ^ Suc k = real k * h * b ^ Suc k + h * b ^ Suc k"
      by (simp add: algebra_simps)
    moreover have "(real k * h * b ^ k + 0) * b = real k * h * b ^ Suc k" by simp
    ultimately show ?thesis by linarith
  qed
  then have "closeTo (real k * d + d) (b ^ Suc k) (real (Suc k) * h * b ^ Suc k) r"
    using cr by (intro closeTo_weaken [OF cr]) simp_all
  then have cs: "closeTo (real (Suc k) * d) (b ^ Suc k) (real (Suc k) * h * b ^ Suc k) r"
    by (simp only: ideal)
  have fold: "foldl f (Finite 0) (replicate (Suc k) x) = Finite r"
  proof -
    have "replicate (Suc k) x = replicate k x @ [x]" by (simp add: replicate_append_same)
    then have "foldl f (Finite 0) (replicate (Suc k) x) = f (foldl f (Finite 0) (replicate k x)) x"
      by (simp only: foldl_append foldl.simps)
    then show ?thesis by (simp add: v step r)
  qed
  show ?case using fold cs unfolding b_def h_def by blast
qed

lemma constant_array_small:
  fixes c :: real
  assumes p: "0 < p" and pe: "int p + 2 \<le> emax"
    and n1: "1 \<le> n" and n: "2 * (2 * real n + 3) \<le> 2 ^ p"
    and c1: "\<bar>c\<bar> \<le> 1"
  shows "\<exists>m v. calculateMeanAndVarianceOfSamples (ieeeArith p emax) (replicate n (Finite c))
                 = \<lparr> mean = Finite m, variance = Finite v \<rparr>
             \<and> \<bar>m - c\<bar> \<le> 2 * real (n + 1) / 2 ^ p * \<bar>c\<bar> + 3 * halfQuantum p emax
             \<and> \<bar>v\<bar> \<le> 8 * real (2 * n + 3) / 2 ^ p * (c * c) + 64 * halfQuantum p emax"
proof -
  define b :: real where "b = 1 + 1 / 2 ^ p"
  define u :: real where "u = 1 / 2 ^ p"
  define h where "h = halfQuantum p emax"
  define K where "K = 2 * n + 3"
  define B :: real where "B = 2 powr (of_int emax)"
  have e: "1 \<le> emax" using p pe by linarith
  have u: "0 < u" "u \<le> 1 / 2" using unit_roundoff [OF p] by (simp_all add: u_def)
  have bu: "b = 1 + u" by (simp add: b_def u_def)
  have b: "1 \<le> b" "b \<le> 3 / 2" using u by (simp_all add: bu)
  have nr: "1 \<le> real n" "0 < real n" using n1 by simp_all
  have n0: "0 < n" using n1 by simp
  have h0: "0 < h" unfolding h_def by (rule halfQuantum_pos)
  have p3: "3 \<le> p"
  proof (rule ccontr)
    assume "\<not> 3 \<le> p"
    then have "p \<le> 2" by simp
    then have "(2::real) ^ p \<le> 2 ^ 2" by (intro power_increasing) simp_all
    moreover have "2 * (2 * 1 + 3) \<le> 2 * (2 * real n + 3)" using nr by simp
    ultimately show False using n by simp
  qed
  have hs: "h \<le> 1 / 128"
  proof -
    have "1 - emax - int p \<le> - 7" using pe p3 by linarith
    then have "(2::real) powr (of_int (1 - emax - int p)) \<le> 2 powr (of_int (- 7))"
      by (intro powr_mono) simp_all
    also have "(2::real) powr (of_int (- 7)) = 1 / 2 ^ 7" by (simp add: powr_minus_divide)
    finally show ?thesis by (simp add: h_def halfQuantum_def)
  qed
  have big: "16 * real n + 24 \<le> B"
  proof -
    have "4 * (2 * (2 * real n + 3)) \<le> 4 * 2 ^ p" using n by simp
    also have "(4::real) * 2 ^ p = 2 powr (of_int (int p + 2))"
      by (simp add: powr_add powr_realpow)
    also have "\<dots> \<le> 2 powr (of_int emax)" using pe by (intro powr_mono) simp_all
    finally show ?thesis by (simp add: B_def)
  qed
  have B8: "8 \<le> B" "8 * real n \<le> B" using big nr by linarith+
  have pw: "1 \<le> b ^ k" "b ^ k \<le> 2" "b ^ k \<le> 1 + 2 * real k * u" if "k \<le> K" for k
    using power_bounds [OF p n, of k] that by (simp_all add: b_def u_def K_def)
  have kn: "n \<le> K" "Suc n \<le> K" "Suc (Suc n) \<le> K" "K \<le> K" by (simp_all add: K_def)
  have cc1: "\<bar>c * c\<bar> \<le> 1"
  proof -
    have "\<bar>c\<bar> * \<bar>c\<bar> \<le> 1 * 1" using c1 by (intro mult_mono) simp_all
    then show ?thesis by (simp add: abs_mult)
  qed
  have size: "roundToFormat p emax (real n) = Finite (real n)"
  proof -
    have "real n \<le> 2 * (2 * real n + 3)" by simp
    from this n have "real n \<le> 2 ^ p" by (rule order_trans)
    then have "n \<le> 2 ^ p" by simp
    moreover have "int p \<le> emax" using pe by simp
    ultimately show ?thesis using p n1 by (intro ofSize_exact)
  qed

  have gm: "1 \<le> b ^ Suc n" "b ^ Suc n \<le> 2" using pw [OF kn(2)] by simp_all
  define \<eta>m where "\<eta>m = h * b ^ Suc n + h"
  have \<eta>m: "0 \<le> \<eta>m" "\<eta>m \<le> 3 * h"
  proof -
    have "h * b ^ Suc n \<le> h * 2" using gm(2) h0 by (intro mult_left_mono) simp_all
    then show "\<eta>m \<le> 3 * h" by (simp add: \<eta>m_def)
    have "0 \<le> h * b ^ Suc n" using gm(1) h0 by simp
    then show "0 \<le> \<eta>m" using h0 by (simp add: \<eta>m_def)
  qed

  have srng: "2 * real n * (\<bar>c\<bar> + halfQuantum p emax) \<le> 2 powr (of_int emax)"
  proof -
    have "\<bar>c\<bar> + h \<le> 4" using c1 hs by linarith
    then have "2 * real n * (\<bar>c\<bar> + h) \<le> 2 * real n * 4" by (intro mult_left_mono) simp_all
    then show ?thesis using B8(2) by (simp add: h_def B_def)
  qed
  have "\<exists>v. foldl (fpAdd p emax) (Finite 0) (replicate n (Finite c)) = Finite v
             \<and> closeTo (real n * c) ((1 + 1 / 2 ^ p) ^ n) (real n * halfQuantum p emax * (1 + 1 / 2 ^ p) ^ n) v"
    by (rule constant_run_close [where n = n, OF _ p e n srng]) simp_all
  then obtain S where S: "foldl (fpAdd p emax) (Finite 0) (replicate n (Finite c)) = Finite S"
    and Sc: "closeTo (real n * c) (b ^ n) (real n * h * b ^ n) S"
    unfolding b_def h_def by blast
  have Sn: "closeTo c (b ^ n) (h * b ^ n) (S / real n)"
  proof -
    have "closeTo c (b ^ n) (real n * h * b ^ n / real n) (S / real n)"
      using Sc n0 by (rule closeTo_divide)
    moreover have "real n * h * b ^ n / real n = h * b ^ n" using nr(2) by simp
    ultimately show ?thesis by simp
  qed
  have Snr: "b ^ n * \<bar>c\<bar> + h * b ^ n \<le> 2 powr (of_int emax)"
  proof -
    have "b ^ n * \<bar>c\<bar> \<le> 2 * 1" using pw(1,2) [OF kn(1)] c1 by (intro mult_mono) simp_all
    moreover have "h * b ^ n \<le> h * 2" using pw(2) [OF kn(1)] h0 by (intro mult_left_mono) simp_all
    ultimately show ?thesis using hs B8(1) unfolding B_def by linarith
  qed
  from closeTo_round [OF p e Sn Snr] obtain m where
    m: "roundToFormat p emax (S / real n) = Finite m"
    and mc: "closeTo c (b ^ Suc n) \<eta>m m"
    unfolding b_def h_def \<eta>m_def by (auto simp: mult.commute mult.left_commute)

  have "closeTo (c * c) 1 0 (c * c)" by (rule closeTo_exact) simp
  moreover have "1 * \<bar>c * c\<bar> + 0 \<le> 2 powr (of_int emax)" using cc1 B8(1) unfolding B_def by linarith
  ultimately obtain q where q: "roundToFormat p emax (c * c) = Finite q"
    and qc: "closeTo (c * c) b h q"
    using closeTo_round [OF p e, of "c * c" 1 0 "c * c"] unfolding b_def h_def by auto
  have aq: "\<bar>q\<bar> \<le> 3"
  proof -
    have "\<bar>q\<bar> \<le> b * \<bar>c * c\<bar> + h" using qc by (rule closeTo_abs)
    moreover have "b * \<bar>c * c\<bar> \<le> 3 / 2 * 1" using b cc1 by (intro mult_mono) simp_all
    ultimately show ?thesis using hs by linarith
  qed
  have trng: "2 * real n * (\<bar>q\<bar> + halfQuantum p emax) \<le> 2 powr (of_int emax)"
  proof -
    have "\<bar>q\<bar> + h \<le> 4" using aq hs by linarith
    then have "2 * real n * (\<bar>q\<bar> + h) \<le> 2 * real n * 4" by (intro mult_left_mono) simp_all
    then show ?thesis using B8(2) by (simp add: h_def B_def)
  qed
  have "\<exists>v. foldl (\<lambda>s x. fpAdd p emax s (fpMul p emax x x)) (Finite 0) (replicate n (Finite c)) = Finite v
             \<and> closeTo (real n * q) ((1 + 1 / 2 ^ p) ^ n) (real n * halfQuantum p emax * (1 + 1 / 2 ^ p) ^ n) v"
  proof (rule constant_run_close [where n = n, OF _ p e n trng])
    show "fpAdd p emax s (fpMul p emax (Finite c) (Finite c)) = fpAdd p emax s (Finite q)" for s
      by (simp add: q)
  qed simp
  then obtain T where
    T: "foldl (\<lambda>s x. fpAdd p emax s (fpMul p emax x x)) (Finite 0) (replicate n (Finite c)) = Finite T"
    and Tc: "closeTo (real n * q) (b ^ n) (real n * h * b ^ n) T"
    unfolding b_def h_def by blast
  have Tn: "closeTo q (b ^ n) (h * b ^ n) (T / real n)"
  proof -
    have "closeTo q (b ^ n) (real n * h * b ^ n / real n) (T / real n)"
      using Tc n0 by (rule closeTo_divide)
    moreover have "real n * h * b ^ n / real n = h * b ^ n" using nr(2) by simp
    ultimately show ?thesis by simp
  qed
  have Tnr: "b ^ n * \<bar>q\<bar> + h * b ^ n \<le> 2 powr (of_int emax)"
  proof -
    have "b ^ n * \<bar>q\<bar> \<le> 2 * 3" using pw(1,2) [OF kn(1)] aq by (intro mult_mono) simp_all
    moreover have "h * b ^ n \<le> h * 2" using pw(2) [OF kn(1)] h0 by (intro mult_left_mono) simp_all
    ultimately show ?thesis using hs B8(1) unfolding B_def by linarith
  qed
  from closeTo_round [OF p e Tn Tnr] obtain Aq where
    Aq: "roundToFormat p emax (T / real n) = Finite Aq"
    and Aqc: "closeTo q (b ^ Suc n) \<eta>m Aq"
    unfolding b_def h_def \<eta>m_def by (auto simp: mult.commute mult.left_commute)
  define \<eta>A where "\<eta>A = \<eta>m + b ^ Suc n * h"
  have Ac: "closeTo (c * c) (b ^ Suc n * b) \<eta>A Aq"
    unfolding \<eta>A_def using qc Aqc gm(1) by (rule closeTo_trans)
  have \<eta>A: "\<eta>A \<le> 5 * h"
  proof -
    have "b ^ Suc n * h \<le> 2 * h" using gm(2) h0 by (intro mult_right_mono) simp_all
    then show ?thesis using \<eta>m(2) by (simp add: \<eta>A_def)
  qed

  define \<eta>s where "\<eta>s = 2 * \<eta>m * b ^ Suc n * \<bar>c\<bar> + \<eta>m * \<eta>m"
  have mm: "closeTo (c * c) (b ^ Suc n * b ^ Suc n) \<eta>s (m * m)"
    unfolding \<eta>s_def using mc gm(1) \<eta>m(1) by (rule closeTo_square)
  have \<eta>s: "0 \<le> \<eta>s" "\<eta>s \<le> 13 * h"
  proof -
    have t1: "0 \<le> 2 * \<eta>m * b ^ Suc n * \<bar>c\<bar>" using \<eta>m(1) gm(1) by simp
    have t2: "0 \<le> \<eta>m * \<eta>m" using \<eta>m(1) by simp
    show "0 \<le> \<eta>s" using t1 t2 by (simp add: \<eta>s_def)
    have f: "\<eta>m * b ^ Suc n \<le> (3 * h) * 2" using \<eta>m gm by (intro mult_mono) simp_all
    define X where "X = \<eta>m * b ^ Suc n * \<bar>c\<bar>"
    have "\<eta>m * b ^ Suc n * \<bar>c\<bar> \<le> (3 * h) * 2 * 1"
      by (rule mult_mono [OF f c1]) (use h0 in simp_all)
    then have "X \<le> 6 * h" unfolding X_def [symmetric] by simp
    then have x2: "2 * X \<le> 12 * h" by simp
    have eq: "2 * \<eta>m * b ^ Suc n * \<bar>c\<bar> = 2 * X" unfolding X_def by (simp only: mult.assoc)
    have a: "2 * \<eta>m * b ^ Suc n * \<bar>c\<bar> \<le> 12 * h" unfolding eq by (rule x2)
    have "\<eta>m * \<eta>m \<le> (3 * h) * (3 * h)" using \<eta>m by (intro mult_mono) simp_all
    also have "\<dots> = (9 * h) * h" by simp
    also have "\<dots> \<le> 1 * h" using hs h0 by (intro mult_right_mono) simp_all
    finally have mh: "\<eta>m * \<eta>m \<le> h" by simp
    have "\<eta>s = 2 * \<eta>m * b ^ Suc n * \<bar>c\<bar> + \<eta>m * \<eta>m" by (simp only: \<eta>s_def)
    also have "\<dots> \<le> 12 * h + h" by (rule add_mono [OF a mh])
    also have "\<dots> = 13 * h" by simp
    finally show "\<eta>s \<le> 13 * h" .
  qed
  have g2: "b ^ Suc n * b ^ Suc n \<le> 4"
  proof -
    have "b ^ Suc n * b ^ Suc n \<le> 2 * 2" using gm by (intro mult_mono) simp_all
    then show ?thesis by simp
  qed
  have mmr: "b ^ Suc n * b ^ Suc n * \<bar>c * c\<bar> + \<eta>s \<le> 2 powr (of_int emax)"
  proof -
    have "0 \<le> b ^ Suc n * b ^ Suc n" using gm(1) by simp
    then have "b ^ Suc n * b ^ Suc n * \<bar>c * c\<bar> \<le> 4 * 1" using g2 cc1 by (intro mult_mono) simp_all
    then show ?thesis using \<eta>s(2) hs B8(1) unfolding B_def by linarith
  qed
  define \<eta>B where "\<eta>B = \<eta>s * b + h"
  from closeTo_round [OF p e mm mmr] obtain Bq where
    Bq: "roundToFormat p emax (m * m) = Finite Bq"
    and Bc: "closeTo (c * c) (b ^ Suc n * b ^ Suc n * b) \<eta>B Bq"
    unfolding b_def h_def \<eta>B_def by blast
  have \<eta>B: "\<eta>B \<le> 21 * h"
  proof -
    have "\<eta>s * b \<le> (13 * h) * (3 / 2)" using \<eta>s b by (intro mult_mono) simp_all
    then show ?thesis using h0 by (simp add: \<eta>B_def)
  qed

  have gA: "b ^ Suc n * b \<le> 1 + 2 * real K * u"
  proof -
    have "b ^ Suc n * b = b ^ Suc (Suc n)" by simp
    also have "\<dots> \<le> b ^ K" using b(1) kn(3) by (intro power_increasing) simp_all
    also have "\<dots> \<le> 1 + 2 * real K * u" by (rule pw(3) [OF kn(4)])
    finally show ?thesis .
  qed
  have gB: "b ^ Suc n * b ^ Suc n * b \<le> 1 + 2 * real K * u"
  proof -
    have "Suc n + Suc n + 1 = K" by (simp add: K_def)
    then have "b ^ Suc n * b ^ Suc n * b = b ^ K" by (metis power_add power_one_right)
    then show ?thesis using pw(3) [OF kn(4)] by simp
  qed
  have Ku: "2 * real K * u \<le> 1"
  proof -
    have "2 * real K \<le> 2 ^ p" using n by (simp add: K_def)
    then show ?thesis by (simp add: u_def field_simps)
  qed
  have diff: "\<bar>Aq - Bq\<bar> \<le> 4 * real K * u * (c * c) + 26 * h"
  proof -
    have "\<bar>Aq - Bq\<bar> \<le> (b ^ Suc n * b + b ^ Suc n * b ^ Suc n * b - 2) * \<bar>c * c\<bar> + (\<eta>A + \<eta>B)"
      using Ac Bc by (rule closeTo_difference)
    moreover have "(b ^ Suc n * b + b ^ Suc n * b ^ Suc n * b - 2) * \<bar>c * c\<bar>
                     \<le> (4 * real K * u) * \<bar>c * c\<bar>"
      using gA gB by (intro mult_right_mono) simp_all
    moreover have "\<bar>c * c\<bar> = c * c" by simp
    ultimately show ?thesis using \<eta>A \<eta>B by simp
  qed
  have dr: "\<bar>Aq - Bq\<bar> \<le> 2 powr (of_int emax)"
  proof -
    have "4 * real K * u * (c * c) \<le> 2 * 1"
    proof -
      have "4 * real K * u = 2 * (2 * real K * u)" by simp
      also have "\<dots> \<le> 2 * 1" by (rule mult_left_mono [OF Ku]) simp
      finally have "4 * real K * u \<le> 2" by simp
      moreover have "c * c \<le> 1" using cc1 by simp
      moreover have "0 \<le> 4 * real K * u" using u(1) by simp
      ultimately show ?thesis by (intro mult_mono) simp_all
    qed
    then show ?thesis using diff hs B8(1) unfolding B_def by linarith
  qed
  from roundToFormat_error [OF p e dr] obtain v where
    v: "roundToFormat p emax (Aq - Bq) = Finite v"
    and ve: "\<bar>v - (Aq - Bq)\<bar> \<le> \<bar>Aq - Bq\<bar> * u + h"
    by (auto simp: u_def h_def)
  have vtol: "\<bar>v\<bar> \<le> 8 * real (2 * n + 3) / 2 ^ p * (c * c) + 64 * halfQuantum p emax"
  proof -
    have "\<bar>v\<bar> \<le> \<bar>Aq - Bq\<bar> + \<bar>v - (Aq - Bq)\<bar>" by simp
    also have "\<dots> \<le> \<bar>Aq - Bq\<bar> + (\<bar>Aq - Bq\<bar> * u + h)" using ve by simp
    also have "\<dots> = \<bar>Aq - Bq\<bar> * (1 + u) + h" by (simp add: algebra_simps)
    also have "\<dots> \<le> \<bar>Aq - Bq\<bar> * 2 + h" using u by (intro add_mono mult_left_mono) simp_all
    also have "\<dots> \<le> (4 * real K * u * (c * c) + 26 * h) * 2 + h"
      using diff by (intro add_mono mult_right_mono) simp_all
    also have "\<dots> = 8 * real K * u * (c * c) + 53 * h" by (simp add: algebra_simps)
    also have "\<dots> \<le> 8 * real K * u * (c * c) + 64 * h" using h0 by simp
    also have "\<dots> = 8 * real (2 * n + 3) / 2 ^ p * (c * c) + 64 * halfQuantum p emax"
      by (simp add: K_def u_def h_def)
    finally show ?thesis .
  qed
  have mtol: "\<bar>m - c\<bar> \<le> 2 * real (n + 1) / 2 ^ p * \<bar>c\<bar> + 3 * halfQuantum p emax"
  proof -
    have "\<bar>m - c\<bar> \<le> (b ^ Suc n - 1) * \<bar>c\<bar> + \<eta>m" using mc unfolding closeTo_def .
    moreover have "(b ^ Suc n - 1) * \<bar>c\<bar> \<le> (2 * real (Suc n) * u) * \<bar>c\<bar>"
      using pw(3) [OF kn(2)] by (intro mult_right_mono) simp_all
    moreover have "2 * real (Suc n) * u * \<bar>c\<bar> = 2 * real (n + 1) / 2 ^ p * \<bar>c\<bar>"
      by (simp add: u_def)
    ultimately show ?thesis using \<eta>m(2) unfolding h_def by linarith
  qed
  have nn0: "real n \<noteq> 0" using nr by simp
  have e1: "fpDiv p emax (Finite S) (Finite (real n)) = Finite m" using nn0 m by simp
  have e2: "fpDiv p emax (Finite T) (Finite (real n)) = Finite Aq" using nn0 Aq by simp
  have e3: "fpMul p emax (Finite m) (Finite m) = Finite Bq" using Bq by simp
  have e4: "fpSub p emax (Finite Aq) (Finite Bq) = Finite v" using v by (simp add: fpSub_def)
  have "calculateMeanAndVarianceOfSamples (ieeeArith p emax) (replicate n (Finite c))
          = \<lparr> mean = Finite m, variance = Finite v \<rparr>"
    by (simp add: calculateMeanAndVarianceOfSamples_def accumulateSamples_foldl S T size e1 e2 e3 e4
        Let_def del: fpDiv.simps fpMul.simps)
  then show ?thesis using mtol vtol by blast
qed

lemma constant_array_float_any:
  fixes c :: real
  assumes n1: "1 \<le> n" and n: "2 * n + 3 \<le> 2 ^ 23" and c: "\<bar>c\<bar> \<le> 2 ^ 50"
  shows "\<exists>m v. calculateMeanAndVarianceOfFloatSamples (replicate n (Finite c))
                 = \<lparr> mean = Finite m, variance = Finite v \<rparr>
             \<and> \<bar>m - c\<bar> \<le> real (n + 1) / 2 ^ 23 * \<bar>c\<bar> + 1 / 2 ^ 148
             \<and> \<bar>v\<bar> \<le> real (2 * n + 3) / 2 ^ 21 * (c * c) + 1 / 2 ^ 144"
proof (cases "\<bar>c\<bar> \<le> 1")
  case True
  have nn: "2 * (2 * real n + 3) \<le> 2 ^ 24"
  proof -
    have "real (2 * n + 3) \<le> real (2 ^ 23)" using n by (simp only: of_nat_le_iff)
    then show ?thesis by simp
  qed
  from constant_array_small [of 24 127 n c, OF _ _ n1 nn True]
  obtain m v where r: "calculateMeanAndVarianceOfSamples (ieeeArith 24 127) (replicate n (Finite c))
                         = \<lparr> mean = Finite m, variance = Finite v \<rparr>"
    and m: "\<bar>m - c\<bar> \<le> 2 * real (n + 1) / 2 ^ 24 * \<bar>c\<bar> + 3 * halfQuantum 24 127"
    and v: "\<bar>v\<bar> \<le> 8 * real (2 * n + 3) / 2 ^ 24 * (c * c) + 64 * halfQuantum 24 127"
    by auto
  have meq: "2 * real (n + 1) / 2 ^ 24 = real (n + 1) / 2 ^ 23" by simp
  have veq: "8 * real (2 * n + 3) / 2 ^ 24 = real (2 * n + 3) / 2 ^ 21" by simp
  have h3: "3 * halfQuantum 24 127 \<le> 1 / 2 ^ 148" by (simp add: halfQuantum_binary32)
  have h64: "64 * halfQuantum 24 127 = 1 / 2 ^ 144" by (simp add: halfQuantum_binary32)
  have m': "\<bar>m - c\<bar> \<le> real (n + 1) / 2 ^ 23 * \<bar>c\<bar> + 1 / 2 ^ 148"
    using m [unfolded meq] h3 by linarith
  have v': "\<bar>v\<bar> \<le> real (2 * n + 3) / 2 ^ 21 * (c * c) + 1 / 2 ^ 144"
    using v [unfolded veq h64] .
  show ?thesis
    unfolding calculateMeanAndVarianceOfFloatSamples_def ieeeBinary32_def
    using r m' v' by blast
next
  case False
  then have "c = 0 \<or> 1 / 2 ^ 60 \<le> \<bar>c\<bar> \<and> \<bar>c\<bar> \<le> 2 ^ 50" using c by simp
  from constant_array_float [OF n1 n this]
  obtain m v where r: "calculateMeanAndVarianceOfFloatSamples (replicate n (Finite c))
                         = \<lparr> mean = Finite m, variance = Finite v \<rparr>"
    and m: "\<bar>m - c\<bar> \<le> real (n + 1) / 2 ^ 23 * \<bar>c\<bar>"
    and v: "\<bar>v\<bar> \<le> real (2 * n + 3) / 2 ^ 21 * (c * c)" by blast
  have "(0::real) \<le> 1 / 2 ^ 148" "(0::real) \<le> 1 / 2 ^ 144" by simp_all
  then have "\<bar>m - c\<bar> \<le> real (n + 1) / 2 ^ 23 * \<bar>c\<bar> + 1 / 2 ^ 148"
    "\<bar>v\<bar> \<le> real (2 * n + 3) / 2 ^ 21 * (c * c) + 1 / 2 ^ 144"
    using m v by linarith+
  then show ?thesis using r by blast
qed

lemma constant_array_double_any:
  fixes c :: real
  assumes n1: "1 \<le> n" and n: "2 * n + 3 \<le> 2 ^ 52" and c: "\<bar>c\<bar> \<le> 2 ^ 480"
  shows "\<exists>m v. calculateMeanAndVarianceOfDoubleSamples (replicate n (Finite c))
                 = \<lparr> mean = Finite m, variance = Finite v \<rparr>
             \<and> \<bar>m - c\<bar> \<le> real (n + 1) / 2 ^ 52 * \<bar>c\<bar> + 1 / 2 ^ 1073
             \<and> \<bar>v\<bar> \<le> real (2 * n + 3) / 2 ^ 50 * (c * c) + 1 / 2 ^ 1069"
proof (cases "\<bar>c\<bar> \<le> 1")
  case True
  have nn: "2 * (2 * real n + 3) \<le> 2 ^ 53"
  proof -
    have "real (2 * n + 3) \<le> real (2 ^ 52)" using n by (simp only: of_nat_le_iff)
    then show ?thesis by simp
  qed
  from constant_array_small [of 53 1023 n c, OF _ _ n1 nn True]
  obtain m v where r: "calculateMeanAndVarianceOfSamples (ieeeArith 53 1023) (replicate n (Finite c))
                         = \<lparr> mean = Finite m, variance = Finite v \<rparr>"
    and m: "\<bar>m - c\<bar> \<le> 2 * real (n + 1) / 2 ^ 53 * \<bar>c\<bar> + 3 * halfQuantum 53 1023"
    and v: "\<bar>v\<bar> \<le> 8 * real (2 * n + 3) / 2 ^ 53 * (c * c) + 64 * halfQuantum 53 1023"
    by auto
  have meq: "2 * real (n + 1) / 2 ^ 53 = real (n + 1) / 2 ^ 52" by simp
  have veq: "8 * real (2 * n + 3) / 2 ^ 53 = real (2 * n + 3) / 2 ^ 50" by simp
  have h3: "3 * halfQuantum 53 1023 \<le> 1 / 2 ^ 1073" by (simp add: halfQuantum_binary64)
  have h64: "64 * halfQuantum 53 1023 = 1 / 2 ^ 1069" by (simp add: halfQuantum_binary64)
  have m': "\<bar>m - c\<bar> \<le> real (n + 1) / 2 ^ 52 * \<bar>c\<bar> + 1 / 2 ^ 1073"
    using m [unfolded meq] h3 by linarith
  have v': "\<bar>v\<bar> \<le> real (2 * n + 3) / 2 ^ 50 * (c * c) + 1 / 2 ^ 1069"
    using v [unfolded veq h64] .
  show ?thesis
    unfolding calculateMeanAndVarianceOfDoubleSamples_def ieeeBinary64_def
    using r m' v' by blast
next
  case False
  then have "c = 0 \<or> 1 / 2 ^ 500 \<le> \<bar>c\<bar> \<and> \<bar>c\<bar> \<le> 2 ^ 480" using c by simp
  from constant_array_double [OF n1 n this]
  obtain m v where r: "calculateMeanAndVarianceOfDoubleSamples (replicate n (Finite c))
                         = \<lparr> mean = Finite m, variance = Finite v \<rparr>"
    and m: "\<bar>m - c\<bar> \<le> real (n + 1) / 2 ^ 52 * \<bar>c\<bar>"
    and v: "\<bar>v\<bar> \<le> real (2 * n + 3) / 2 ^ 50 * (c * c)" by blast
  have "(0::real) \<le> 1 / 2 ^ 1073" "(0::real) \<le> 1 / 2 ^ 1069" by simp_all
  then have "\<bar>m - c\<bar> \<le> real (n + 1) / 2 ^ 52 * \<bar>c\<bar> + 1 / 2 ^ 1073"
    "\<bar>v\<bar> \<le> real (2 * n + 3) / 2 ^ 50 * (c * c) + 1 / 2 ^ 1069"
    using m v by linarith+
  then show ?thesis using r by blast
qed

subsection \<open>Beyond the tolerance\<close>

lemma sum_of_ones_saturates:
  assumes "k \<le> 16777216"
  shows "foldl (fadd ieeeBinary32) (Finite (real k)) (replicate n (Finite 1))
           = Finite (real (min (k + n) 16777216))"
  using assms
proof (induction n arbitrary: k)
  case 0
  then show ?case by simp
next
  case (Suc n)
  show ?case
  proof (cases "k = 16777216")
    case True
    have "roundToFormat 24 127 16777217 = Finite (roundToPrecision 24 16777217)"
      by (rule roundToFormat_finite) simp_all
    then have "fadd ieeeBinary32 (Finite (real k)) (Finite 1) = Finite (real k)"
      using round_16777217 True by (simp add: ieeeBinary32_def)
    then show ?thesis using Suc.IH [of k] True by simp
  next
    case False
    with Suc.prems have lt: "Suc k \<le> 16777216" by simp
    have e: "real k + 1 = real (Suc k)" by simp
    have "fadd ieeeBinary32 (Finite (real k)) (Finite 1) = roundToFormat 24 127 (real k + 1)"
      by (simp add: ieeeBinary32_def)
    also have "\<dots> = roundToFormat 24 127 (real (Suc k))" by (simp only: e)
    also have "\<dots> = Finite (real (Suc k))" using lt by (intro roundToFormat_nat) simp_all
    finally have "fadd ieeeBinary32 (Finite (real k)) (Finite 1) = Finite (real (Suc k))" .
    then show ?thesis using Suc.IH [OF lt] by (simp add: min_def)
  qed
qed

lemma squares_of_ones_saturate:
  assumes "k \<le> 16777216"
  shows "foldl (\<lambda>q x. fadd ieeeBinary32 q (fmul ieeeBinary32 x x)) (Finite (real k)) (replicate n (Finite 1))
           = Finite (real (min (k + n) 16777216))"
proof -
  have one: "fmul ieeeBinary32 (Finite 1) (Finite 1) = Finite 1"
    using roundToFormat_nat [of 24 127 1] by (simp add: ieeeBinary32_def)
  have "foldl (\<lambda>q x. fadd ieeeBinary32 q (fmul ieeeBinary32 x x)) s (replicate n (Finite 1))
          = foldl (fadd ieeeBinary32) s (replicate n (Finite 1))" for s
    by (induction n arbitrary: s) (simp_all add: one)
  then show ?thesis using sum_of_ones_saturates [OF assms] by simp
qed

lemma mean_of_ones:
  "calculateMeanAndVarianceOfFloatSamples (replicate 33554432 (Finite 1))
     = \<lparr> mean = Finite (1 / 2), variance = Finite (1 / 4) \<rparr>"
proof -
  have s: "foldl (fadd ieeeBinary32) (Finite 0) (replicate 33554432 (Finite 1)) = Finite 16777216"
    using sum_of_ones_saturates [of 0 33554432] by simp
  have q: "foldl (\<lambda>q x. fadd ieeeBinary32 q (fmul ieeeBinary32 x x)) (Finite 0) (replicate 33554432 (Finite 1))
             = Finite 16777216"
    using squares_of_ones_saturate [of 0 33554432] by simp
  have r25: "roundToPrecision 24 33554432 = 33554432"
    using roundToPrecision_exact [of 1 24 25] by (simp add: powr_numeral)
  have half: "roundToPrecision 24 (1 / 2) = 1 / 2"
    using roundToPrecision_exact [of 1 24 "- 1"] by (simp add: powr_minus)
  have quarter: "roundToPrecision 24 (1 / 4) = 1 / 4"
    using roundToPrecision_exact [of 1 24 "- 2"] by (simp add: powr_minus)
  have "roundToFormat 24 127 33554432 = Finite (roundToPrecision 24 33554432)"
    by (rule roundToFormat_finite) simp_all
  then have sz: "ofSize ieeeBinary32 33554432 = Finite 33554432"
    by (simp add: ieeeBinary32_def r25)
  have f2: "roundToFormat 24 127 (1 / 2) = Finite (1 / 2)"
    using roundToFormat_finite [of 24 127 "1 / 2"] by (simp add: half)
  have f4: "roundToFormat 24 127 (1 / 4) = Finite (1 / 4)"
    using roundToFormat_finite [of 24 127 "1 / 4"] by (simp add: quarter)
  have m: "fdiv ieeeBinary32 (Finite 16777216) (Finite 33554432) = Finite (1 / 2)"
    by (simp add: ieeeBinary32_def f2)
  have mm: "fmul ieeeBinary32 (Finite (1 / 2)) (Finite (1 / 2)) = Finite (1 / 4)"
    by (simp add: ieeeBinary32_def f4)
  have v: "fsub ieeeBinary32 (Finite (1 / 2)) (Finite (1 / 4)) = Finite (1 / 4)"
    by (simp add: ieeeBinary32_def fpSub_def f4)
  have z: "fzero ieeeBinary32 = Finite 0" by (simp add: ieeeBinary32_def)
  show ?thesis
    unfolding calculateMeanAndVarianceOfFloatSamples_def calculateMeanAndVarianceOfSamples_def
    by (simp add: accumulateSamples_foldl z s q sz m mm v Let_def)
qed

lemma variance_of_large_samples:
  "calculateMeanAndVarianceOfFloatSamples [Finite (2 ^ 70), Finite (2 ^ 70)]
     = \<lparr> mean = Finite (2 ^ 70), variance = NaN \<rparr>"
proof -
  have r70: "roundToPrecision 24 (2 ^ 70) = 2 ^ 70"
    using roundToPrecision_exact [of 1 24 70] by (simp add: powr_numeral)
  have r71: "roundToPrecision 24 (2 ^ 71) = 2 ^ 71"
    using roundToPrecision_exact [of 1 24 71] by (simp add: powr_numeral)
  have r140: "roundToPrecision 24 (2 ^ 140) = 2 ^ 140"
    using roundToPrecision_exact [of 1 24 140] by (simp add: powr_numeral)
  have "roundToFormat 24 127 (2 ^ 70) = Finite (roundToPrecision 24 (2 ^ 70))"
    by (rule roundToFormat_finite) simp_all
  then have f70: "roundToFormat 24 127 (2 ^ 70) = Finite (2 ^ 70)" by (simp only: r70)
  have "roundToFormat 24 127 (2 ^ 71) = Finite (roundToPrecision 24 (2 ^ 71))"
    by (rule roundToFormat_finite) simp_all
  then have f71: "roundToFormat 24 127 (2 ^ 71) = Finite (2 ^ 71)" by (simp only: r71)
  have f2: "roundToFormat 24 127 2 = Finite 2"
    using roundToFormat_nat [of 24 127 2] by simp
  have f140: "roundToFormat 24 127 (2 ^ 140) = PlusInfinity"
  proof -
    have lo: "(2::real) powr (of_int (1 - 127)) = 1 / 2 ^ 126" using format_range(1) [of 127] by simp
    have hi: "(2::real) powr (of_int (127 + 1)) = 2 ^ 128" using format_range(3) [of 127] by simp
    have "\<not> \<bar>2 ^ 140 :: real\<bar> < 2 powr (of_int (1 - 127))" unfolding lo by simp
    moreover have "2 powr (of_int (127 + 1)) \<le> \<bar>roundToPrecision 24 (2 ^ 140)\<bar>"
      unfolding hi r140 by simp
    ultimately show ?thesis by (simp add: roundToFormat_def Let_def)
  qed
  have sq: "fmul ieeeBinary32 (Finite (2 ^ 70)) (Finite (2 ^ 70)) = PlusInfinity"
    using f140 by (simp add: ieeeBinary32_def)
  have a1: "fadd ieeeBinary32 (Finite 0) (Finite (2 ^ 70)) = Finite (2 ^ 70)"
    using f70 by (simp add: ieeeBinary32_def)
  have a2: "fadd ieeeBinary32 (Finite (2 ^ 70)) (Finite (2 ^ 70)) = Finite (2 ^ 71)"
    using f71 by (simp add: ieeeBinary32_def)
  have b1: "fadd ieeeBinary32 (Finite 0) PlusInfinity = PlusInfinity"
    "fadd ieeeBinary32 PlusInfinity PlusInfinity = PlusInfinity"
    by (simp_all add: ieeeBinary32_def)
  have sz: "ofSize ieeeBinary32 (Suc (Suc 0)) = Finite 2" using f2 by (simp add: ieeeBinary32_def)
  have m: "fdiv ieeeBinary32 (Finite (2 ^ 71)) (Finite 2) = Finite (2 ^ 70)"
    using f70 by (simp add: ieeeBinary32_def)
  have d: "fdiv ieeeBinary32 PlusInfinity (Finite 2) = PlusInfinity"
    by (simp add: ieeeBinary32_def infinityWithSign_def)
  have v: "fsub ieeeBinary32 PlusInfinity PlusInfinity = NaN"
    by (simp add: ieeeBinary32_def fpSub_def)
  have z: "fzero ieeeBinary32 = Finite 0" by (simp add: ieeeBinary32_def)
  show ?thesis
    unfolding calculateMeanAndVarianceOfFloatSamples_def calculateMeanAndVarianceOfSamples_def
    using a1 a2 sq b1 sz m d v by (simp add: z Let_def)
qed

text \<open>An empty array gives zero divided by zero.\<close>

lemma mean_of_empty_array:
  "calculateMeanAndVarianceOfFloatSamples [] = \<lparr> mean = NaN, variance = NaN \<rparr>"
  "calculateMeanAndVarianceOfDoubleSamples [] = \<lparr> mean = NaN, variance = NaN \<rparr>"
  by (simp_all add: calculateMeanAndVarianceOfFloatSamples_def calculateMeanAndVarianceOfDoubleSamples_def
      calculateMeanAndVarianceOfSamples_def ieeeBinary32_def ieeeBinary64_def fpSub_def)

text \<open>
  Claim C8, as amended. Both functions compute, in the arithmetic of their sample type, the
  mean as the running sum over the converted size, and the variance as the running sum of
  the squares over the size minus the square of the mean, every operation rounded: the
  formula of the population variance, with the divisor \<open>n\<close> and not \<open>n - 1\<close>.

  For an array of \<open>n \<ge> 1\<close> copies of a number \<open>c\<close> the results are \<open>c\<close> and \<open>0\<close> within a
  tolerance that grows with \<open>n\<close>, as long as the array is not too long and \<open>c\<close> not too
  large. In single precision, for \<open>2 n + 3 \<le> 2\<^sup>2\<^sup>3\<close> and \<open>\<bar>c\<bar> \<le> 2\<^sup>5\<^sup>0\<close>, the mean is a number
  within \<open>(n + 1) 2\<^sup>-\<^sup>2\<^sup>3 \<bar>c\<bar> + 2\<^sup>-\<^sup>1\<^sup>4\<^sup>8\<close> of \<open>c\<close> and the variance a number of magnitude at most
  \<open>(2 n + 3) 2\<^sup>-\<^sup>2\<^sup>1 c\<^sup>2 + 2\<^sup>-\<^sup>1\<^sup>4\<^sup>4\<close>; the two absolute terms, which stand for underflow, are
  not needed when \<open>c\<close> is zero or \<open>\<bar>c\<bar> \<ge> 2\<^sup>-\<^sup>6\<^sup>0\<close>. In double precision the same holds for
  \<open>2 n + 3 \<le> 2\<^sup>5\<^sup>2\<close> and \<open>\<bar>c\<bar> \<le> 2\<^sup>4\<^sup>8\<^sup>0\<close>, with \<open>(n + 1) 2\<^sup>-\<^sup>5\<^sup>2 \<bar>c\<bar> + 2\<^sup>-\<^sup>1\<^sup>0\<^sup>7\<^sup>3\<close> and
  \<open>(2 n + 3) 2\<^sup>-\<^sup>5\<^sup>0 c\<^sup>2 + 2\<^sup>-\<^sup>1\<^sup>0\<^sup>6\<^sup>9\<close>, and without the absolute terms from \<open>\<bar>c\<bar> \<ge> 2\<^sup>-\<^sup>5\<^sup>0\<^sup>0\<close> on.
  When \<open>c\<close> is a natural number \<open>k\<close> and both \<open>n\<close> and \<open>n k\<^sup>2\<close> are at most \<open>2\<^sup>2\<^sup>4\<close> (in double
  precision \<open>2\<^sup>5\<^sup>3\<close>), the results are \<open>k\<close> and \<open>0\<close> exactly.
\<close>

theorem mean_and_variance_formula:
  "mean (calculateMeanAndVarianceOfFloatSamples dataArray)
     = fdiv ieeeBinary32 (roundedSum ieeeBinary32 dataArray) (ofSize ieeeBinary32 (length dataArray))
   \<and> variance (calculateMeanAndVarianceOfFloatSamples dataArray)
     = fsub ieeeBinary32
         (fdiv ieeeBinary32 (roundedSumOfSquares ieeeBinary32 dataArray)
                            (ofSize ieeeBinary32 (length dataArray)))
         (fmul ieeeBinary32 (mean (calculateMeanAndVarianceOfFloatSamples dataArray))
                            (mean (calculateMeanAndVarianceOfFloatSamples dataArray)))
   \<and> mean (calculateMeanAndVarianceOfDoubleSamples dataArray)
     = fdiv ieeeBinary64 (roundedSum ieeeBinary64 dataArray) (ofSize ieeeBinary64 (length dataArray))
   \<and> variance (calculateMeanAndVarianceOfDoubleSamples dataArray)
     = fsub ieeeBinary64
         (fdiv ieeeBinary64 (roundedSumOfSquares ieeeBinary64 dataArray)
                            (ofSize ieeeBinary64 (length dataArray)))
         (fmul ieeeBinary64 (mean (calculateMeanAndVarianceOfDoubleSamples dataArray))
                            (mean (calculateMeanAndVarianceOfDoubleSamples dataArray)))
   \<and> (1 \<le> n \<and> 2 * n + 3 \<le> 2 ^ 23 \<and> \<bar>c\<bar> \<le> 2 ^ 50 \<longrightarrow>
        (\<exists>m v. calculateMeanAndVarianceOfFloatSamples (replicate n (Finite c))
                 = \<lparr> mean = Finite m, variance = Finite v \<rparr>
               \<and> \<bar>m - c\<bar> \<le> real (n + 1) / 2 ^ 23 * \<bar>c\<bar> + 1 / 2 ^ 148
               \<and> \<bar>v\<bar> \<le> real (2 * n + 3) / 2 ^ 21 * (c * c) + 1 / 2 ^ 144))
   \<and> (1 \<le> n \<and> 2 * n + 3 \<le> 2 ^ 23 \<and> (c = 0 \<or> 1 / 2 ^ 60 \<le> \<bar>c\<bar> \<and> \<bar>c\<bar> \<le> 2 ^ 50) \<longrightarrow>
        (\<exists>m v. calculateMeanAndVarianceOfFloatSamples (replicate n (Finite c))
                 = \<lparr> mean = Finite m, variance = Finite v \<rparr>
               \<and> \<bar>m - c\<bar> \<le> real (n + 1) / 2 ^ 23 * \<bar>c\<bar>
               \<and> \<bar>v\<bar> \<le> real (2 * n + 3) / 2 ^ 21 * (c * c)))
   \<and> (1 \<le> n \<and> 2 * n + 3 \<le> 2 ^ 52 \<and> \<bar>c\<bar> \<le> 2 ^ 480 \<longrightarrow>
        (\<exists>m v. calculateMeanAndVarianceOfDoubleSamples (replicate n (Finite c))
                 = \<lparr> mean = Finite m, variance = Finite v \<rparr>
               \<and> \<bar>m - c\<bar> \<le> real (n + 1) / 2 ^ 52 * \<bar>c\<bar> + 1 / 2 ^ 1073
               \<and> \<bar>v\<bar> \<le> real (2 * n + 3) / 2 ^ 50 * (c * c) + 1 / 2 ^ 1069))
   \<and> (1 \<le> n \<and> 2 * n + 3 \<le> 2 ^ 52 \<and> (c = 0 \<or> 1 / 2 ^ 500 \<le> \<bar>c\<bar> \<and> \<bar>c\<bar> \<le> 2 ^ 480) \<longrightarrow>
        (\<exists>m v. calculateMeanAndVarianceOfDoubleSamples (replicate n (Finite c))
                 = \<lparr> mean = Finite m, variance = Finite v \<rparr>
               \<and> \<bar>m - c\<bar> \<le> real (n + 1) / 2 ^ 52 * \<bar>c\<bar>
               \<and> \<bar>v\<bar> \<le> real (2 * n + 3) / 2 ^ 50 * (c * c)))
   \<and> (1 \<le> n \<and> n \<le> 2 ^ 24 \<and> n * (k * k) \<le> 2 ^ 24 \<longrightarrow>
        calculateMeanAndVarianceOfFloatSamples (replicate n (Finite (real k)))
          = \<lparr> mean = Finite (real k), variance = Finite 0 \<rparr>)
   \<and> (1 \<le> n \<and> n \<le> 2 ^ 53 \<and> n * (k * k) \<le> 2 ^ 53 \<longrightarrow>
        calculateMeanAndVarianceOfDoubleSamples (replicate n (Finite (real k)))
          = \<lparr> mean = Finite (real k), variance = Finite 0 \<rparr>)"
proof -
  have f: "calculateMeanAndVarianceOfFloatSamples (replicate n (Finite (real k)))
             = \<lparr> mean = Finite (real k), variance = Finite 0 \<rparr>"
    if "1 \<le> n \<and> n \<le> 2 ^ 24 \<and> n * (k * k) \<le> 2 ^ 24"
    unfolding calculateMeanAndVarianceOfFloatSamples_def ieeeBinary32_def
    using that by (intro constant_array_ieee) simp_all
  have d: "calculateMeanAndVarianceOfDoubleSamples (replicate n (Finite (real k)))
             = \<lparr> mean = Finite (real k), variance = Finite 0 \<rparr>"
    if "1 \<le> n \<and> n \<le> 2 ^ 53 \<and> n * (k * k) \<le> 2 ^ 53"
    unfolding calculateMeanAndVarianceOfDoubleSamples_def ieeeBinary64_def
    using that by (intro constant_array_ieee) simp_all
  note s32 = calculate_structure [of ieeeBinary32 dataArray,
      folded calculateMeanAndVarianceOfFloatSamples_def]
  note s64 = calculate_structure [of ieeeBinary64 dataArray,
      folded calculateMeanAndVarianceOfDoubleSamples_def]
  show ?thesis
    using s32 s64 f d constant_array_float [of n c] constant_array_double [of n c]
      constant_array_float_any [of n c] constant_array_double_any [of n c]
    by blast
qed

text \<open>
  Four copies of \<open>-3/4\<close>, of \<open>2\<^sup>-\<^sup>1\<^sup>0\<^sup>0\<close> (whose square is below the smallest \<^verbatim>\<open>float\<close>) and
  of \<open>7\<close>; and the samples \<open>2, 4, 6, 8\<close>, whose mean and
  population variance are both \<open>5\<close> (the variance with the divisor \<open>n - 1\<close> would be \<open>20/3\<close>).
\<close>

theorem mean_and_variance_formula_witness:
  "(1::nat) \<le> 4 \<and> 2 * 4 + 3 \<le> (2::nat) ^ 23 \<and> 2 * 4 + 3 \<le> (2::nat) ^ 52
   \<and> 1 / 2 ^ 60 \<le> \<bar>- (3 / 4) :: real\<bar> \<and> \<bar>- (3 / 4) :: real\<bar> \<le> 2 ^ 50
   \<and> 1 / 2 ^ 500 \<le> \<bar>- (3 / 4) :: real\<bar> \<and> \<bar>- (3 / 4) :: real\<bar> \<le> 2 ^ 480
   \<and> (\<exists>m v. calculateMeanAndVarianceOfFloatSamples (replicate 4 (Finite (- (3 / 4))))
                = \<lparr> mean = Finite m, variance = Finite v \<rparr>
              \<and> \<bar>m + 3 / 4\<bar> \<le> 5 / 2 ^ 23 * (3 / 4) \<and> \<bar>v\<bar> \<le> 11 / 2 ^ 21 * (9 / 16))
   \<and> (\<exists>m v. calculateMeanAndVarianceOfDoubleSamples (replicate 4 (Finite (- (3 / 4))))
                = \<lparr> mean = Finite m, variance = Finite v \<rparr>
              \<and> \<bar>m + 3 / 4\<bar> \<le> 5 / 2 ^ 52 * (3 / 4) \<and> \<bar>v\<bar> \<le> 11 / 2 ^ 50 * (9 / 16))
   \<and> (\<exists>m v. calculateMeanAndVarianceOfFloatSamples (replicate 4 (Finite (- (3 / 4))))
                = \<lparr> mean = Finite m, variance = Finite v \<rparr>
              \<and> \<bar>m + 3 / 4\<bar> \<le> 5 / 2 ^ 23 * (3 / 4) + 1 / 2 ^ 148
              \<and> \<bar>v\<bar> \<le> 11 / 2 ^ 21 * (9 / 16) + 1 / 2 ^ 144)
   \<and> (\<exists>m v. calculateMeanAndVarianceOfDoubleSamples (replicate 4 (Finite (- (3 / 4))))
                = \<lparr> mean = Finite m, variance = Finite v \<rparr>
              \<and> \<bar>m + 3 / 4\<bar> \<le> 5 / 2 ^ 52 * (3 / 4) + 1 / 2 ^ 1073
              \<and> \<bar>v\<bar> \<le> 11 / 2 ^ 50 * (9 / 16) + 1 / 2 ^ 1069)
   \<and> \<bar>1 / 2 ^ 100 :: real\<bar> \<le> 2 ^ 50
   \<and> (\<exists>m v. calculateMeanAndVarianceOfFloatSamples (replicate 4 (Finite (1 / 2 ^ 100)))
                = \<lparr> mean = Finite m, variance = Finite v \<rparr>
              \<and> \<bar>m - 1 / 2 ^ 100\<bar> \<le> 5 / 2 ^ 23 * (1 / 2 ^ 100) + 1 / 2 ^ 148
              \<and> \<bar>v\<bar> \<le> 11 / 2 ^ 21 * (1 / 2 ^ 200) + 1 / 2 ^ 144)
   \<and> (4::nat) \<le> 2 ^ 24 \<and> (4::nat) * (7 * 7) \<le> 2 ^ 24
   \<and> (4::nat) \<le> 2 ^ 53 \<and> (4::nat) * (7 * 7) \<le> 2 ^ 53
   \<and> calculateMeanAndVarianceOfFloatSamples (replicate 4 (Finite 7))
       = \<lparr> mean = Finite 7, variance = Finite 0 \<rparr>
   \<and> calculateMeanAndVarianceOfDoubleSamples (replicate 4 (Finite 7))
       = \<lparr> mean = Finite 7, variance = Finite 0 \<rparr>
   \<and> calculateMeanAndVarianceOfFloatSamples [Finite 2, Finite 4, Finite 6, Finite 8]
       = \<lparr> mean = Finite 5, variance = Finite 5 \<rparr>
   \<and> calculateMeanAndVarianceOfDoubleSamples [Finite 2, Finite 4, Finite 6, Finite 8]
       = \<lparr> mean = Finite 5, variance = Finite 5 \<rparr>"
proof -
  note t = mean_and_variance_formula [of "[Finite 2, Finite 4, Finite 6, Finite 8]" 4 "- (3 / 4)" 7]
  have a: "\<exists>m v. calculateMeanAndVarianceOfFloatSamples (replicate 4 (Finite (- (3 / 4))))
                = \<lparr> mean = Finite m, variance = Finite v \<rparr>
              \<and> \<bar>m + 3 / 4\<bar> \<le> 5 / 2 ^ 23 * (3 / 4) \<and> \<bar>v\<bar> \<le> 11 / 2 ^ 21 * (9 / 16)"
    using t by simp
  have b: "\<exists>m v. calculateMeanAndVarianceOfDoubleSamples (replicate 4 (Finite (- (3 / 4))))
                = \<lparr> mean = Finite m, variance = Finite v \<rparr>
              \<and> \<bar>m + 3 / 4\<bar> \<le> 5 / 2 ^ 52 * (3 / 4) \<and> \<bar>v\<bar> \<le> 11 / 2 ^ 50 * (9 / 16)"
    using t by simp
  have a': "\<exists>m v. calculateMeanAndVarianceOfFloatSamples (replicate 4 (Finite (- (3 / 4))))
                = \<lparr> mean = Finite m, variance = Finite v \<rparr>
              \<and> \<bar>m + 3 / 4\<bar> \<le> 5 / 2 ^ 23 * (3 / 4) + 1 / 2 ^ 148
              \<and> \<bar>v\<bar> \<le> 11 / 2 ^ 21 * (9 / 16) + 1 / 2 ^ 144"
    using t by simp
  have b': "\<exists>m v. calculateMeanAndVarianceOfDoubleSamples (replicate 4 (Finite (- (3 / 4))))
                = \<lparr> mean = Finite m, variance = Finite v \<rparr>
              \<and> \<bar>m + 3 / 4\<bar> \<le> 5 / 2 ^ 52 * (3 / 4) + 1 / 2 ^ 1073
              \<and> \<bar>v\<bar> \<le> 11 / 2 ^ 50 * (9 / 16) + 1 / 2 ^ 1069"
    using t by simp
  have s: "\<exists>m v. calculateMeanAndVarianceOfFloatSamples (replicate 4 (Finite (1 / 2 ^ 100)))
                = \<lparr> mean = Finite m, variance = Finite v \<rparr>
              \<and> \<bar>m - 1 / 2 ^ 100\<bar> \<le> 5 / 2 ^ 23 * (1 / 2 ^ 100) + 1 / 2 ^ 148
              \<and> \<bar>v\<bar> \<le> 11 / 2 ^ 21 * (1 / 2 ^ 200) + 1 / 2 ^ 144"
    using mean_and_variance_formula [of "[]" 4 "1 / 2 ^ 100" 7] by simp
  have c: "calculateMeanAndVarianceOfFloatSamples (replicate 4 (Finite 7))
       = \<lparr> mean = Finite 7, variance = Finite 0 \<rparr>"
    "calculateMeanAndVarianceOfDoubleSamples (replicate 4 (Finite 7))
       = \<lparr> mean = Finite 7, variance = Finite 0 \<rparr>"
    using t by simp_all
  have rf: "roundToFormat 24 127 (real k) = Finite (real k)" if "k \<le> 120" for k
    using that by (intro roundToFormat_nat) simp_all
  have rd: "roundToFormat 53 1023 (real k) = Finite (real k)" if "k \<le> 120" for k
    using that by (intro roundToFormat_nat) simp_all
  note n32 = rf [of 2] rf [of 4] rf [of 5] rf [of 6] rf [of 12] rf [of 16] rf [of 20] rf [of 25]
    rf [of 30] rf [of 36] rf [of 56] rf [of 64] rf [of 120]
  note n64 = rd [of 2] rd [of 4] rd [of 5] rd [of 6] rd [of 12] rd [of 16] rd [of 20] rd [of 25]
    rd [of 30] rd [of 36] rd [of 56] rd [of 64] rd [of 120]
  have m32: "mean (calculateMeanAndVarianceOfFloatSamples [Finite 2, Finite 4, Finite 6, Finite 8]) = Finite 5"
    using t n32 by (simp add: roundedSum_def ieeeBinary32_def)
  have v32: "variance (calculateMeanAndVarianceOfFloatSamples [Finite 2, Finite 4, Finite 6, Finite 8]) = Finite 5"
    using t n32 unfolding m32 by (simp add: roundedSumOfSquares_def ieeeBinary32_def fpSub_def)
  have m64: "mean (calculateMeanAndVarianceOfDoubleSamples [Finite 2, Finite 4, Finite 6, Finite 8]) = Finite 5"
    using t n64 by (simp add: roundedSum_def ieeeBinary64_def)
  have v64: "variance (calculateMeanAndVarianceOfDoubleSamples [Finite 2, Finite 4, Finite 6, Finite 8]) = Finite 5"
    using t n64 unfolding m64 by (simp add: roundedSumOfSquares_def ieeeBinary64_def fpSub_def)
  have r: "calculateMeanAndVarianceOfFloatSamples [Finite 2, Finite 4, Finite 6, Finite 8]
             = \<lparr> mean = Finite 5, variance = Finite 5 \<rparr>"
    "calculateMeanAndVarianceOfDoubleSamples [Finite 2, Finite 4, Finite 6, Finite 8]
             = \<lparr> mean = Finite 5, variance = Finite 5 \<rparr>"
    using m32 v32 m64 v64
    by (cases "calculateMeanAndVarianceOfFloatSamples [Finite 2, Finite 4, Finite 6, Finite 8]";
        cases "calculateMeanAndVarianceOfDoubleSamples [Finite 2, Finite 4, Finite 6, Finite 8]";
        simp)+
  show ?thesis using a b a' b' s c r by simp
qed

text \<open>
  Claim C8 as stated fails in single precision for a long array and for a large value. The
  running sum of \<open>2\<^sup>2\<^sup>5\<close> ones stops at \<open>2\<^sup>2\<^sup>4\<close>, where adding one is rounded away, and the
  function returns the mean one half and the variance one quarter for a constant array of
  ones. The square of \<open>2\<^sup>7\<^sup>0\<close> is beyond the largest \<^verbatim>\<open>float\<close>: for two samples \<open>2\<^sup>7\<^sup>0\<close> the
  sum of the squares and the square of the mean are both infinite, and their difference,
  the variance, is NaN.
\<close>

theorem mean_of_ones_counterexample:
  "calculateMeanAndVarianceOfFloatSamples (replicate 33554432 (Finite 1))
     = \<lparr> mean = Finite (1 / 2), variance = Finite (1 / 4) \<rparr>
   \<and> calculateMeanAndVarianceOfFloatSamples [Finite (2 ^ 70), Finite (2 ^ 70)]
     = \<lparr> mean = Finite (2 ^ 70), variance = NaN \<rparr>"
  using mean_of_ones variance_of_large_samples by simp

subsection \<open>Quantiles\<close>

lemma insertBy_insort:
  assumes "\<And>x y. (cmp x y \<le> 0) = (x \<le> y)"
  shows "insertBy cmp x ys = insort x ys"
  by (induction ys) (simp_all add: assms)

lemma qsort_sort:
  assumes "\<And>x y. (cmp x y \<le> 0) = (x \<le> y)"
  shows "qsort cmp xs = sort xs"
proof -
  have "insertBy cmp = insort" using insertBy_insort [OF assms] by (intro ext) simp
  then show ?thesis by (simp add: qsort_def sort_key_def)
qed

lemma compareSamples_rounded:
  assumes "0 < p"
  shows "(compareSamples (roundedArith p) a b \<le> 0) = (a \<le> b)"
  using roundToPrecision_sign(1,2) [OF assms, of "a - b"]
  by (auto simp: compareSamples_def roundedArith_def Let_def)

lemma qsort_rounded: "0 < p \<Longrightarrow> qsort (compareSamples (roundedArith p)) xs = sort xs"
  by (rule qsort_sort) (rule compareSamples_rounded)

lemma truncToInt_nonneg:
  "0 \<le> x \<Longrightarrow> \<lfloor>x\<rfloor> < 2 ^ 31 \<Longrightarrow> truncToInt x = Some \<lfloor>x\<rfloor>"
proof -
  assume a: "0 \<le> x" "\<lfloor>x\<rfloor> < 2 ^ 31"
  then have "0 \<le> \<lfloor>x\<rfloor>" by simp
  then have "- (2 ^ 31) \<le> \<lfloor>x\<rfloor>" by simp
  with a show ?thesis by (simp add: truncToInt_def)
qed

lemma machineProduct_nonneg:
  assumes "0 < p" "0 \<le> q"
  shows "0 \<le> fmul (roundedArith p) q (ofSize (roundedArith p) n)"
proof -
  have "0 \<le> roundToPrecision p (real n)" using roundToPrecision_sign(3) [OF assms(1), of "real n"] by simp
  then have "0 \<le> q * roundToPrecision p (real n)" using assms(2) by simp
  then show ?thesis using roundToPrecision_sign(3) [OF assms(1)] by (simp add: roundedArith_def)
qed

lemma quantile_rounded:
  assumes p: "0 < p" and ne: "dataArray \<noteq> []" and q: "0 \<le> q"
    and inb: "\<lfloor>fmul (roundedArith p) q (ofSize (roundedArith p) (length dataArray))\<rfloor> < int (length dataArray)"
    and int: "\<lfloor>fmul (roundedArith p) q (ofSize (roundedArith p) (length dataArray))\<rfloor> < 2 ^ 31"
  shows "calculatePercentageQuantileOfSamples (roundedArith p) dataArray q
           = Inr (sort dataArray ! nat \<lfloor>fmul (roundedArith p) q (ofSize (roundedArith p) (length dataArray))\<rfloor>,
                  dataArray)"
proof -
  let ?prod = "fmul (roundedArith p) q (ofSize (roundedArith p) (length dataArray))"
  have nn: "0 \<le> ?prod" using p q by (rule machineProduct_nonneg)
  then have tr: "truncToInt ?prod = Some \<lfloor>?prod\<rfloor>" using int by (rule truncToInt_nonneg)
  have "0 \<le> \<lfloor>?prod\<rfloor>" using nn by simp
  then show ?thesis
    unfolding calculatePercentageQuantileOfSamples_def
    using inb by (simp add: tr qsort_rounded [OF p] Let_def)
qed

lemma round_3_halves_24: "roundToPrecision 24 (3 / 2) = 3 / 2"
  using roundToPrecision_exact [of 3 24 "- 1"] by (simp add: powr_minus)

lemma round_16777219: "roundToPrecision 24 16777219 = 16777220"
proof -
  have fl: "\<lfloor>log 2 (16777219 :: real)\<rfloor> = 24"
    by (rule floor_log2_eq) simp_all
  have rt: "roundTiesToEven (16777219 / 2) = 8388610"
    by (simp add: roundTiesToEven_def Let_def)
  show ?thesis
    by (simp add: roundToPrecision_def Let_def fl rt)
qed

text \<open>
  The index is an \<^verbatim>\<open>int\<close>, the array size a \<^verbatim>\<open>size_t\<close>: for \<open>2\<^sup>3\<^sup>2\<close> samples and the fraction
  one half the product \<open>2\<^sup>3\<^sup>1\<close> has no conversion to \<^verbatim>\<open>int\<close>. The statement on the
  selected element below is about arrays of fewer than \<open>2\<^sup>3\<^sup>1\<close> samples and says nothing
  about longer ones.
\<close>

lemma quantile_index_beyond_int:
  "calculatePercentageQuantileOfFloatSamples (replicate 4294967296 0) (1 / 2)
     = Inl IntConversionOutOfRange"
proof -
  have r32: "roundToPrecision 24 4294967296 = 4294967296"
    using roundToPrecision_exact [of 1 24 32] by (simp add: powr_numeral)
  have r31: "roundToPrecision 24 2147483648 = 2147483648"
    using roundToPrecision_exact [of 1 24 31] by (simp add: powr_numeral)
  have prod: "fmul binary32Arith (1 / 2) (ofSize binary32Arith (length (replicate 4294967296 (0::real))))
                = 2147483648"
    by (simp add: binary32Arith_def roundedArith_def r32 r31)
  have tr: "truncToInt 2147483648 = None" by (simp add: truncToInt_def)
  show ?thesis
    unfolding calculatePercentageQuantileOfFloatSamples_def calculatePercentageQuantileOfSamples_def
    by (simp add: prod tr Let_def del: length_replicate)
qed

text \<open>
  Claim C3, as amended. For a non-empty array of \<open>n < 2\<^sup>3\<^sup>1\<close> samples that are numbers (no
  NaN) and a fraction \<open>p \<ge> 0\<close>, let \<open>i\<close> be the integral part of the product of \<open>p\<close> and \<open>n\<close>
  as the arithmetic of the sample type computes it: \<open>n\<close> converted to the sample type, the
  product rounded to it. If \<open>i < n\<close>, the function returns the element at index \<open>i\<close> of the
  array sorted in ascending order, and the caller's array keeps its content.
\<close>

theorem quantile_nearest_rank:
  "(dataArray \<noteq> [] \<and> length dataArray < 2 ^ 31 \<and> 0 \<le> quantilePercentage
     \<and> \<lfloor>fmul binary32Arith quantilePercentage (ofSize binary32Arith (length dataArray))\<rfloor>
           < int (length dataArray)
    \<longrightarrow> calculatePercentageQuantileOfFloatSamples dataArray quantilePercentage
          = Inr (sort dataArray !
                   nat \<lfloor>fmul binary32Arith quantilePercentage (ofSize binary32Arith (length dataArray))\<rfloor>,
                 dataArray))
   \<and> (dataArray \<noteq> [] \<and> length dataArray < 2 ^ 31 \<and> 0 \<le> quantilePercentage
     \<and> \<lfloor>fmul binary64Arith quantilePercentage (ofSize binary64Arith (length dataArray))\<rfloor>
           < int (length dataArray)
    \<longrightarrow> calculatePercentageQuantileOfDoubleSamples dataArray quantilePercentage
          = Inr (sort dataArray !
                   nat \<lfloor>fmul binary64Arith quantilePercentage (ofSize binary64Arith (length dataArray))\<rfloor>,
                 dataArray))"
proof -
  have gen: "calculatePercentageQuantileOfSamples (roundedArith p) dataArray quantilePercentage
               = Inr (sort dataArray !
                        nat \<lfloor>fmul (roundedArith p) quantilePercentage
                              (ofSize (roundedArith p) (length dataArray))\<rfloor>,
                      dataArray)"
    if p: "0 < p" and ne: "dataArray \<noteq> []" and len: "length dataArray < 2 ^ 31"
      and q: "0 \<le> quantilePercentage"
      and inb: "\<lfloor>fmul (roundedArith p) quantilePercentage (ofSize (roundedArith p) (length dataArray))\<rfloor>
                  < int (length dataArray)"
    for p
  proof -
    have "int (length dataArray) < 2 ^ 31"
      using len by (metis of_nat_less_iff of_nat_numeral of_nat_power)
    with inb have "\<lfloor>fmul (roundedArith p) quantilePercentage (ofSize (roundedArith p) (length dataArray))\<rfloor>
                     < 2 ^ 31" by linarith
    with p ne q inb show ?thesis by (rule quantile_rounded)
  qed
  show ?thesis
    unfolding calculatePercentageQuantileOfFloatSamples_def calculatePercentageQuantileOfDoubleSamples_def
      binary32Arith_def binary64Arith_def
    using gen [of 24] gen [of 53] by simp
qed

theorem quantile_nearest_rank_witness:
  "[5, 1, 3 :: real] \<noteq> [] \<and> length [5, 1, 3 :: real] < 2 ^ 31 \<and> (0 :: real) \<le> 1 / 2
   \<and> \<lfloor>fmul binary32Arith (1 / 2) (ofSize binary32Arith (length [5, 1, 3 :: real]))\<rfloor> = 1
   \<and> calculatePercentageQuantileOfFloatSamples [5, 1, 3] (1 / 2) = Inr (3, [5, 1, 3])"
proof -
  have n: "ofSize binary32Arith (length [5, 1, 3 :: real]) = 3"
    using roundToPrecision_nat_exact [of 24 3] by (simp add: binary32Arith_def roundedArith_def)
  have prod: "fmul binary32Arith (1 / 2) (ofSize binary32Arith (length [5, 1, 3 :: real])) = 3 / 2"
    unfolding n by (simp add: binary32Arith_def roundedArith_def round_3_halves_24)
  have fl: "\<lfloor>3 / 2 :: real\<rfloor> = 1" by simp
  have "calculatePercentageQuantileOfFloatSamples [5, 1, 3] (1 / 2) = Inr (3, [5, 1, 3])"
    using quantile_nearest_rank [of "[5, 1, 3]" "1 / 2"]
    unfolding prod fl by simp
  then show ?thesis unfolding prod fl by simp
qed

text \<open>
  Claim C3 as stated fails in single precision where the conversion of the size rounds.
  The array holds \<open>8388610\<close> zeros and \<open>8388609\<close> ones, \<open>n = 16777219\<close> samples in
  ascending order, and the fraction is one half. The integral part of \<open>p n\<close> is \<open>8388609\<close>,
  the index of the last zero. The size converts to \<open>16777220.0\<close>, the machine product is
  \<open>8388610.0\<close>, and the function returns the first one.
\<close>

theorem quantile_nearest_rank_counterexample:
  "replicate 8388610 (0::real) @ replicate 8388609 1 \<noteq> []
   \<and> (0::real) \<le> 1 / 2
   \<and> \<lfloor>(1 / 2 :: real) * real (length (replicate 8388610 (0::real) @ replicate 8388609 1))\<rfloor>
       = 8388609
   \<and> (8388609 :: int) < int (length (replicate 8388610 (0::real) @ replicate 8388609 1))
   \<and> sort (replicate 8388610 (0::real) @ replicate 8388609 1) ! 8388609 = 0
   \<and> calculatePercentageQuantileOfFloatSamples (replicate 8388610 0 @ replicate 8388609 1) (1 / 2)
       = Inr (1, replicate 8388610 0 @ replicate 8388609 1)"
proof -
  let ?xs = "replicate 8388610 (0::real) @ replicate 8388609 1"
  have len: "length ?xs = 16777219" by simp
  have srt: "sort ?xs = ?xs" by (rule sorted_sort_id) (simp add: sorted_append)
  have at0: "?xs ! 8388609 = 0" by (simp add: nth_append)
  have at1: "?xs ! 8388610 = 1" by (simp add: nth_append)
  have size: "ofSize binary32Arith 16777219 = 16777220"
    by (simp add: binary32Arith_def roundedArith_def round_16777219)
  have prod: "fmul binary32Arith (1 / 2) 16777220 = 8388610"
    using roundToPrecision_nat_exact [of 24 8388610]
    by (simp add: binary32Arith_def roundedArith_def)
  have tr: "truncToInt 8388610 = Some 8388610" by (simp add: truncToInt_def)
  have q: "qsort (compareSamples binary32Arith) ?xs = ?xs"
    unfolding binary32Arith_def by (simp only: qsort_rounded [of 24, simplified] srt)
  have res: "calculatePercentageQuantileOfFloatSamples ?xs (1 / 2) = Inr (1, ?xs)"
    unfolding calculatePercentageQuantileOfFloatSamples_def calculatePercentageQuantileOfSamples_def
      Let_def q len size prod tr
    using at1 by simp
  have fl: "\<lfloor>(1 / 2 :: real) * real (length ?xs)\<rfloor> = 8388609" unfolding len by simp
  show ?thesis using res fl at0 unfolding srt by simp
qed

text \<open>
  Claim C4, as amended. With the fraction \<open>1.0\<close>, a non-empty array whose size \<open>n\<close> is below
  \<open>2\<^sup>3\<^sup>1\<close> and converts to the sample type without rounding gives the index \<open>n\<close>, which is
  read one element behind the sorted copy. In single precision every size up to \<open>2\<^sup>2\<^sup>4\<close>
  converts without rounding; in double precision every size below \<open>2\<^sup>3\<^sup>1\<close> does.
\<close>

theorem quantile_at_one_out_of_bounds:
  "(dataArray \<noteq> [] \<and> ofSize binary32Arith (length dataArray) = real (length dataArray)
       \<and> length dataArray < 2 ^ 31
     \<longrightarrow> calculatePercentageQuantileOfFloatSamples dataArray 1
           = Inl (IndexOutOfBounds (int (length dataArray)) (length dataArray)))
   \<and> (length dataArray \<le> 2 ^ 24
     \<longrightarrow> ofSize binary32Arith (length dataArray) = real (length dataArray))
   \<and> (dataArray \<noteq> [] \<and> length dataArray < 2 ^ 31
     \<longrightarrow> calculatePercentageQuantileOfDoubleSamples dataArray 1
           = Inl (IndexOutOfBounds (int (length dataArray)) (length dataArray)))"
proof -
  have gen: "calculatePercentageQuantileOfSamples (roundedArith p) dataArray 1
               = Inl (IndexOutOfBounds (int (length dataArray)) (length dataArray))"
    if "ofSize (roundedArith p) (length dataArray) = real (length dataArray)"
      "length dataArray < 2 ^ 31" for p
  proof -
    have rn: "roundToPrecision p (real (length dataArray)) = real (length dataArray)"
      using that(1) by (simp add: roundedArith_def)
    have prod: "fmul (roundedArith p) 1 (ofSize (roundedArith p) (length dataArray))
                  = real (length dataArray)"
      by (simp add: roundedArith_def rn)
    have "int (length dataArray) < 2 ^ 31"
      using that(2) by (metis of_nat_less_iff of_nat_numeral of_nat_power)
    then have tr: "truncToInt (real (length dataArray)) = Some (int (length dataArray))"
      using truncToInt_nonneg [of "real (length dataArray)"] by simp
    show ?thesis
      unfolding calculatePercentageQuantileOfSamples_def by (simp add: prod tr Let_def)
  qed
  have single: "ofSize (roundedArith 24) (length dataArray) = real (length dataArray)"
    if "length dataArray \<le> 2 ^ 24"
    using that roundToPrecision_nat_exact [of 24 "length dataArray"] by (simp add: roundedArith_def)
  have double: "ofSize (roundedArith 53) (length dataArray) = real (length dataArray)"
    if "length dataArray < 2 ^ 31"
    using that roundToPrecision_nat_exact [of 53 "length dataArray"] by (simp add: roundedArith_def)
  show ?thesis
    unfolding calculatePercentageQuantileOfFloatSamples_def calculatePercentageQuantileOfDoubleSamples_def
      binary32Arith_def binary64Arith_def
    using gen [of 24] gen [of 53] single double by simp
qed

theorem quantile_at_one_out_of_bounds_witness:
  "[5, 1, 3 :: real] \<noteq> [] \<and> length [5, 1, 3 :: real] \<le> 2 ^ 24 \<and> length [5, 1, 3 :: real] < 2 ^ 31
   \<and> ofSize binary32Arith (length [5, 1, 3 :: real]) = real (length [5, 1, 3 :: real])
   \<and> calculatePercentageQuantileOfFloatSamples [5, 1, 3] 1 = Inl (IndexOutOfBounds 3 3)
   \<and> calculatePercentageQuantileOfDoubleSamples [5, 1, 3] 1 = Inl (IndexOutOfBounds 3 3)"
  using quantile_at_one_out_of_bounds [of "[5, 1, 3]"] by simp

text \<open>
  Claim C4 as stated fails in single precision for a size that the conversion rounds:
  \<open>16777217\<close> samples become \<open>16777216.0\<close>, the index is that of the last element, and the
  function returns the largest sample.
\<close>

theorem quantile_at_one_counterexample:
  "calculatePercentageQuantileOfFloatSamples (replicate 16777217 0) 1
     = Inr (0, replicate 16777217 0)"
proof -
  have prod: "fmul binary32Arith 1 (ofSize binary32Arith 16777217) = 16777216"
    using roundToPrecision_nat_exact [of 24 16777216]
    by (simp add: binary32Arith_def roundedArith_def round_16777217)
  have tr: "truncToInt 16777216 = Some 16777216" by (simp add: truncToInt_def)
  have srt: "qsort (compareSamples binary32Arith) (replicate 16777217 (0::real)) = replicate 16777217 0"
    unfolding binary32Arith_def by (simp add: qsort_rounded sorted_sort_id)
  show ?thesis
    unfolding calculatePercentageQuantileOfFloatSamples_def calculatePercentageQuantileOfSamples_def
    by (simp add: prod tr srt Let_def)
qed

section \<open>Properties of the CSV reader\<close>

subsection \<open>The token loop, column by column\<close>

lemma columnOf_setColumn:
  "wfState n st \<Longrightarrow> c < n \<Longrightarrow> columnOf (setColumn st c s) j = (if j = c then s else columnOf st j)"
  by (cases s) (auto simp: columnOf_def setColumn_def wfState_def)

lemma wfState_setColumn: "wfState n st \<Longrightarrow> wfState n (setColumn st c s)"
  by (cases s) (auto simp: setColumn_def wfState_def)

lemma setColumn_same: "columnOf st c = s \<Longrightarrow> setColumn st c s = st"
  by (cases s) (auto simp: setColumn_def columnOf_def)

lemma processCell_cellStep:
  assumes "wfState n st" "c < n"
  shows "processCell P ty rc c token st
           = (case cellStep P ty rc c token (columnOf st c) of
                Inl e \<Rightarrow> Inl e
              | Inr s \<Rightarrow> Inr (setColumn st c s))"
proof (cases "uxColumns st ! c")
  case True
  then have "setColumn st c (columnOf st c) = st" by (simp add: setColumn_same)
  with True show ?thesis
    by (simp add: processCell_def cellStep_def columnOf_def)
next
  case False
  have len: "c < length (uxColumns st)" "c < length (sampleCounts st)" "c < length (sampleValues st)"
    using assms by (simp_all add: wfState_def)
  have id: "(uxColumns st)[c := False] = uxColumns st"
    using False len by (metis list_update_id)
  show ?thesis
    using False len id
    by (auto simp: processCell_def cellStep_def columnOf_def setColumn_def storeSample_def Let_def
        split: option.splits)
qed

lemma processTokens_columns:
  assumes "processTokens P ty n rc toks cc st = Inr (cc', st')" "wfState n st" "cc \<le> n"
  shows "cc' = cc + length toks \<and> cc' \<le> n \<and> wfState n st'
       \<and> (\<forall>j<n. if cc \<le> j \<and> j < cc'
                 then cellStep P ty rc j (dropWhile safeIsspace (toks ! (j - cc))) (columnOf st j)
                        = Inr (columnOf st' j)
                 else columnOf st' j = columnOf st j)"
  using assms
proof (induction toks arbitrary: cc st)
  case Nil
  then show ?case by auto
next
  case (Cons tok rest)
  let ?token = "dropWhile safeIsspace tok"
  from Cons.prems(1) have ne: "cc \<noteq> n" by (auto simp: Let_def split: if_splits)
  with Cons.prems(3) have lt: "cc < n" by simp
  from Cons.prems(1) ne obtain st1 where
    pc: "processCell P ty rc cc ?token st = Inr st1" and
    rest: "processTokens P ty n rc rest (Suc cc) st1 = Inr (cc', st')"
    by (auto simp: Let_def split: sum.splits)
  from pc obtain s where cs: "cellStep P ty rc cc ?token (columnOf st cc) = Inr s"
    and st1: "st1 = setColumn st cc s"
    using processCell_cellStep [OF Cons.prems(2) lt, of P ty rc ?token]
    by (auto split: sum.splits)
  have wf1: "wfState n st1" using Cons.prems(2) st1 by (simp add: wfState_setColumn)
  have col1: "\<And>j. columnOf st1 j = (if j = cc then s else columnOf st j)"
    using columnOf_setColumn [OF Cons.prems(2) lt] st1 by simp
  from Cons.IH [OF rest wf1] lt
  have ih: "cc' = Suc cc + length rest" "cc' \<le> n" "wfState n st'"
    "\<forall>j<n. if Suc cc \<le> j \<and> j < cc'
             then cellStep P ty rc j (dropWhile safeIsspace (rest ! (j - Suc cc))) (columnOf st1 j)
                    = Inr (columnOf st' j)
             else columnOf st' j = columnOf st1 j"
    by simp_all
  have "\<forall>j<n. if cc \<le> j \<and> j < cc'
               then cellStep P ty rc j (dropWhile safeIsspace ((tok # rest) ! (j - cc))) (columnOf st j)
                      = Inr (columnOf st' j)
               else columnOf st' j = columnOf st j"
  proof (intro allI impI)
    fix j assume jn: "j < n"
    show "if cc \<le> j \<and> j < cc'
          then cellStep P ty rc j (dropWhile safeIsspace ((tok # rest) ! (j - cc))) (columnOf st j)
                 = Inr (columnOf st' j)
          else columnOf st' j = columnOf st j"
    proof -
      note ihj = ih(4) [rule_format, OF jn]
      show ?thesis
      proof (cases "j = cc")
        case True
        then have "columnOf st' j = s" using ihj col1 by simp
        with True cs ih(1) show ?thesis by simp
      next
        case False
        show ?thesis
        proof (cases "Suc cc \<le> j \<and> j < cc'")
          case True
          then have nth: "(tok # rest) ! (j - cc) = rest ! (j - Suc cc)"
            by (metis Suc_diff_le Suc_le_lessD diff_Suc_Suc nth_Cons_Suc less_imp_le_nat)
          have "cellStep P ty rc j (dropWhile safeIsspace (rest ! (j - Suc cc))) (columnOf st1 j)
                  = Inr (columnOf st' j)"
            using ihj True by simp
          then show ?thesis using True nth col1 False by simp
        next
          case out: False
          then have "columnOf st' j = columnOf st1 j" using ihj by simp
          then show ?thesis using out col1 False by auto
        qed
      qed
    qed
  qed
  with ih show ?case by simp
qed

lemma processTokens_success:
  assumes "wfState n st" "cc + length toks \<le> n"
    and "\<And>i. i < length toks \<Longrightarrow>
           \<exists>s. cellStep P ty rc (cc + i) (dropWhile safeIsspace (toks ! i)) (columnOf st (cc + i)) = Inr s"
  shows "\<exists>st'. processTokens P ty n rc toks cc st = Inr (cc + length toks, st')"
  using assms
proof (induction toks arbitrary: cc st)
  case Nil
  then show ?case by simp
next
  case (Cons tok rest)
  let ?token = "dropWhile safeIsspace tok"
  from Cons.prems(2) have lt: "cc < n" by simp
  from Cons.prems(3) [of 0] obtain s where cs: "cellStep P ty rc cc ?token (columnOf st cc) = Inr s"
    by auto
  define st1 where "st1 = setColumn st cc s"
  have pc: "processCell P ty rc cc ?token st = Inr st1"
    using processCell_cellStep [OF Cons.prems(1) lt, of P ty rc ?token] cs by (simp add: st1_def)
  have wf1: "wfState n st1" using Cons.prems(1) by (simp add: st1_def wfState_setColumn)
  have col1: "\<And>j. columnOf st1 j = (if j = cc then s else columnOf st j)"
    using columnOf_setColumn [OF Cons.prems(1) lt] by (simp add: st1_def)
  have "\<exists>st'. processTokens P ty n rc rest (Suc cc) st1 = Inr (Suc cc + length rest, st')"
  proof (rule Cons.IH [OF wf1])
    show "Suc cc + length rest \<le> n" using Cons.prems(2) by simp
    fix i assume "i < length rest"
    then show "\<exists>s. cellStep P ty rc (Suc cc + i) (dropWhile safeIsspace (rest ! i))
                     (columnOf st1 (Suc cc + i)) = Inr s"
      using Cons.prems(3) [of "Suc i"] col1 by simp
  qed
  then show ?case using pc lt by (simp add: Let_def)
qed

subsection \<open>The line loop, column by column\<close>

lemma readLines_append:
  "readLines P ty hdrs (xs @ ys) rc st
     = (case readLines P ty hdrs xs rc st of
          Inl e \<Rightarrow> Inl e
        | Inr (rc', st') \<Rightarrow> readLines P ty hdrs ys rc' st')"
  by (induction xs arbitrary: rc st) (auto split: sum.splits prod.splits)

lemma readLines_header:
  "readLines P ty hdrs (header # rows) (- 1) st
     = (case validateInputDistributionCSVHeader header hdrs of
          Inl e \<Rightarrow> Inl e
        | Inr _ \<Rightarrow> readLines P ty hdrs rows 0 st)"
  by (simp split: sum.splits)

lemma columnTokens_Cons:
  "columnTokens (row # rows) c = (rowTokens row ! c) # columnTokens rows c"
  by (simp add: columnTokens_def)

lemma readLines_columns:
  assumes "readLines P ty hdrs rows rc st = Inr (rc', st')" "0 \<le> rc" "wfState (length hdrs) st"
  shows "rc' = rc + int (length rows)
       \<and> (rows \<noteq> [] \<longrightarrow> rc' \<le> int kCommonConstantMaxNumberOfInputSamples)
       \<and> wfState (length hdrs) st'
       \<and> (\<forall>row \<in> set rows. length (rowTokens row) = length hdrs)
       \<and> (\<forall>c<length hdrs. columnRun P ty c rc (columnTokens rows c) (columnOf st c)
                              = Inr (columnOf st' c))"
  using assms
proof (induction rows arbitrary: rc st)
  case Nil
  then show ?case by (simp add: columnTokens_def)
next
  case (Cons row rest)
  let ?n = "length hdrs"
  let ?toks = "strtok_tokens row '',''"
  from Cons.prems(1,2) have cap: "rc < int kCommonConstantMaxNumberOfInputSamples"
    by (auto split: if_splits)
  from Cons.prems(1,2) cap obtain st1 where
    pt: "processTokens P ty ?n rc ?toks 0 st = Inr (?n, st1)" and
    rest: "readLines P ty hdrs rest (rc + 1) st1 = Inr (rc', st')"
    by (auto split: if_splits sum.splits prod.splits)
  from processTokens_columns [OF pt Cons.prems(3)]
  have len: "?n = length ?toks" and wf1: "wfState ?n st1"
    and cols: "\<forall>j<?n. cellStep P ty rc j (dropWhile safeIsspace (?toks ! j)) (columnOf st j)
                         = Inr (columnOf st1 j)"
    by auto
  have rt: "length (rowTokens row) = ?n" using len by (simp add: rowTokens_def)
  have cell: "\<And>j. j < ?n \<Longrightarrow> cellStep P ty rc j (rowTokens row ! j) (columnOf st j) = Inr (columnOf st1 j)"
    using cols len by (simp add: rowTokens_def)
  have nn: "0 \<le> rc + 1" using Cons.prems(2) by simp
  note ihall = Cons.IH [OF rest nn wf1]
  have ih: "rc' = rc + 1 + int (length rest)"
    "rest \<noteq> [] \<longrightarrow> rc' \<le> int kCommonConstantMaxNumberOfInputSamples"
    "wfState ?n st'"
    "\<forall>row \<in> set rest. length (rowTokens row) = ?n"
    "\<forall>c<?n. columnRun P ty c (rc + 1) (columnTokens rest c) (columnOf st1 c) = Inr (columnOf st' c)"
    using ihall by blast+
  have "rc' \<le> int kCommonConstantMaxNumberOfInputSamples"
  proof (cases "rest = []")
    case True
    with ih(1) cap show ?thesis by simp
  next
    case False
    with ih(2) show ?thesis by simp
  qed
  moreover have "\<forall>c<?n. columnRun P ty c rc (columnTokens (row # rest) c) (columnOf st c)
                           = Inr (columnOf st' c)"
    using cell ih(5) by (simp add: columnTokens_Cons)
  ultimately show ?case using ih rt by simp
qed

lemma readLines_success:
  assumes "0 \<le> rc" "rc + int (length rows) \<le> int kCommonConstantMaxNumberOfInputSamples"
    and "wfState (length hdrs) st"
    and "\<forall>row \<in> set rows. length (rowTokens row) = length hdrs"
    and "\<forall>c<length hdrs. \<exists>s. columnRun P ty c rc (columnTokens rows c) (columnOf st c) = Inr s"
  shows "\<exists>st'. readLines P ty hdrs rows rc st = Inr (rc + int (length rows), st')"
  using assms
proof (induction rows arbitrary: rc st)
  case Nil
  then show ?case by simp
next
  case (Cons row rest)
  let ?n = "length hdrs"
  let ?toks = "strtok_tokens row '',''"
  have len: "length ?toks = ?n" using Cons.prems(4) by (simp add: rowTokens_def)
  have cap: "rc < int kCommonConstantMaxNumberOfInputSamples" using Cons.prems(2) by simp
  have first: "\<exists>s1. cellStep P ty rc c (rowTokens row ! c) (columnOf st c) = Inr s1
                 \<and> (\<exists>s. columnRun P ty c (rc + 1) (columnTokens rest c) s1 = Inr s)"
    if "c < ?n" for c
  proof -
    from Cons.prems(5) that obtain s where
      run: "columnRun P ty c rc (columnTokens (row # rest) c) (columnOf st c) = Inr s" by blast
    show ?thesis
    proof (cases "cellStep P ty rc c (rowTokens row ! c) (columnOf st c)")
      case (Inl e)
      with run show ?thesis by (simp add: columnTokens_Cons)
    next
      case (Inr s1)
      with run have "columnRun P ty c (rc + 1) (columnTokens rest c) s1 = Inr s"
        by (simp add: columnTokens_Cons)
      with Inr show ?thesis by blast
    qed
  qed
  have "\<exists>st1. processTokens P ty ?n rc ?toks 0 st = Inr (0 + length ?toks, st1)"
  proof (rule processTokens_success [OF Cons.prems(3)])
    show "0 + length ?toks \<le> ?n" using len by simp
    fix i assume "i < length ?toks"
    then show "\<exists>s. cellStep P ty rc (0 + i) (dropWhile safeIsspace (?toks ! i)) (columnOf st (0 + i)) = Inr s"
      using first [of i] len by (auto simp: rowTokens_def)
  qed
  then obtain st1 where pt: "processTokens P ty ?n rc ?toks 0 st = Inr (?n, st1)"
    using len by auto
  from processTokens_columns [OF pt Cons.prems(3)]
  have wf1: "wfState ?n st1"
    and cols: "\<forall>j<?n. cellStep P ty rc j (dropWhile safeIsspace (?toks ! j)) (columnOf st j)
                         = Inr (columnOf st1 j)"
    by auto
  have "\<exists>st'. readLines P ty hdrs rest (rc + 1) st1 = Inr (rc + 1 + int (length rest), st')"
  proof (rule Cons.IH [OF _ _ wf1])
    show "0 \<le> rc + 1" using Cons.prems(1) by simp
    show "rc + 1 + int (length rest) \<le> int kCommonConstantMaxNumberOfInputSamples"
      using Cons.prems(2) by simp
    show "\<forall>row \<in> set rest. length (rowTokens row) = ?n" using Cons.prems(4) by simp
    show "\<forall>c<?n. \<exists>s. columnRun P ty c (rc + 1) (columnTokens rest c) (columnOf st1 c) = Inr s"
    proof (intro allI impI)
      fix c assume c: "c < ?n"
      from first [OF c] obtain s1 s where
        s1: "cellStep P ty rc c (rowTokens row ! c) (columnOf st c) = Inr s1"
        and s: "columnRun P ty c (rc + 1) (columnTokens rest c) s1 = Inr s" by blast
      from cols c len have "cellStep P ty rc c (rowTokens row ! c) (columnOf st c) = Inr (columnOf st1 c)"
        by (simp add: rowTokens_def)
      with s1 have "columnOf st1 c = s1" by simp
      with s show "\<exists>s. columnRun P ty c (rc + 1) (columnTokens rest c) (columnOf st1 c) = Inr s" by blast
    qed
  qed
  then obtain st' where "readLines P ty hdrs rest (rc + 1) st1 = Inr (rc + 1 + int (length rest), st')"
    by blast
  then show ?case using pt cap Cons.prems(1) by simp
qed

subsection \<open>One column, from the first row down\<close>

lemma strstr_hd_in_set: "strstr s (a # n) \<Longrightarrow> a \<in> set s"
proof (induction s)
  case Nil
  then show ?case by simp
next
  case (Cons c cs)
  then show ?case by (cases "take (length n) cs = n \<and> c = a") auto
qed

lemma ignore_not_Ux: "shouldIgnoreToken t \<Longrightarrow> \<not> strstr t ''Ux''"
proof
  assume ig: "shouldIgnoreToken t" and ux: "strstr t ''Ux''"
  from ux have "CHR ''U'' \<in> set t" by (rule strstr_hd_in_set)
  moreover from ig obtain ws where "t = CHR ''-'' # ws" "list_all safeIsspace ws"
    by (auto simp: shouldIgnoreToken_def split: list.splits)
  ultimately have "safeIsspace (CHR ''U'')" by (auto simp: list_all_iff)
  then show False by (simp add: safeIsspace_def)
qed

lemma update_zero_tail:
  "0 < k \<Longrightarrow> (pre @ replicate k z)[length pre := v] = (pre @ [v]) @ replicate (k - 1) z"
  by (cases k) simp_all

lemma update_zero_same:
  "(pre @ replicate k z)[length pre := z] = pre @ replicate k z"
  by (cases k) (simp_all add: list_update_beyond)

lemma columnRun_flagged: "columnRun P ty c rc toks (True, buf, cnt) = Inr (True, buf, cnt)"
  by (induction toks arbitrary: rc) (simp_all add: cellStep_def)

lemma cellStep_plain:
  assumes "\<not> (rc = 0 \<and> strstr t ''Ux'')" "0 < k"
  shows "cellStep P ty rc c t (False, pre @ replicate k 0, length pre)
           = (if shouldIgnoreToken t then Inr (False, pre @ replicate k 0, length pre)
              else case parseChecked P ty t of
                     None \<Rightarrow> Inl (NotAValidNumber rc c t)
                   | Some v \<Rightarrow> Inr (False, (pre @ [v]) @ replicate (k - 1) 0, Suc (length pre)))"
  using assms
  by (auto simp: cellStep_def update_zero_tail update_zero_same simp del: append_assoc
      split: option.splits)

lemma columnRun_plain:
  assumes "0 \<le> rc" "rc = 0 \<longrightarrow> toks = [] \<or> \<not> strstr (hd toks) ''Ux''" "length toks \<le> k"
  shows "(list_all (acceptableToken P ty) toks \<longrightarrow>
            columnRun P ty c rc toks (False, pre @ replicate k 0, length pre)
              = Inr (False,
                     (pre @ parsedSamples P ty toks)
                       @ replicate (k - length (parsedSamples P ty toks)) 0,
                     length pre + length (parsedSamples P ty toks)))
       \<and> (\<not> list_all (acceptableToken P ty) toks \<longrightarrow>
            (\<exists>e. columnRun P ty c rc toks (False, pre @ replicate k 0, length pre) = Inl e))"
  using assms
proof (induction toks arbitrary: rc k pre)
  case Nil
  then show ?case by (simp add: parsedSamples_def)
next
  case (Cons t ts)
  from Cons.prems have k: "0 < k" and noux: "\<not> (rc = 0 \<and> strstr t ''Ux'')" by auto
  note step = cellStep_plain [OF noux k, of P ty c pre]
  have rc1: "0 \<le> rc + 1" "rc + 1 = 0 \<longrightarrow> ts = [] \<or> \<not> strstr (hd ts) ''Ux''"
    using Cons.prems(1) by simp_all
  show ?case
  proof (cases "shouldIgnoreToken t")
    case True
    have len: "length ts \<le> k" using Cons.prems(3) by simp
    from Cons.IH [OF rc1 len, of pre] True step
    show ?thesis by (simp add: parsedSamples_def acceptableToken_def)
  next
    case False
    show ?thesis
    proof (cases "parseChecked P ty t")
      case None
      with False step show ?thesis by (simp add: acceptableToken_def)
    next
      case (Some v)
      have len: "length ts \<le> k - 1" using Cons.prems(3) by simp
      have ps: "parsedSamples P ty (t # ts) = v # parsedSamples P ty ts"
        using False Some by (simp add: parsedSamples_def)
      have lps: "length (parsedSamples P ty ts) \<le> length ts" by (simp add: parsedSamples_def)
      from Cons.IH [OF rc1 len, of "pre @ [v]"] False Some step
      show ?thesis by (simp add: ps acceptableToken_def)
    qed
  qed
qed

lemma columnRun_initial:
  assumes "length toks \<le> kCommonConstantMaxNumberOfInputSamples"
  shows "columnRun P ty c 0 toks (False, replicate kCommonConstantMaxNumberOfInputSamples 0, 0)
           = Inr s
         \<longleftrightarrow> columnAccepted P ty toks \<and> s = columnResult P ty toks"
proof (cases toks)
  case Nil
  then show ?thesis by (auto simp: columnAccepted_def columnResult_def)
next
  case (Cons t0 ts)
  let ?K = "kCommonConstantMaxNumberOfInputSamples"
  have K: "0 < ?K" by (simp add: kCommonConstantMaxNumberOfInputSamples_def)
  show ?thesis
  proof (cases "strstr t0 ''Ux''")
    case True
    then have ni: "\<not> shouldIgnoreToken t0" using ignore_not_Ux by blast
    have upd: "\<And>v::'a. (replicate ?K 0)[0 := v] = v # replicate (?K - 1) 0"
      using update_zero_tail [OF K, of "[]"] by simp
    show ?thesis
      using True ni K Cons
      by (cases "parseChecked P ty t0")
         (auto simp: cellStep_def columnRun_flagged columnAccepted_def columnResult_def upd)
  next
    case False
    have pre: "0 \<le> (0::int)" "(0::int) = 0 \<longrightarrow> toks = [] \<or> \<not> strstr (hd toks) ''Ux''"
      using False Cons by simp_all
    from columnRun_plain [OF pre assms, of P ty c "[]"] False Cons
    show ?thesis by (auto simp: columnAccepted_def columnResult_def)
  qed
qed

subsection \<open>Whole files\<close>

lemma wfState_initial: "wfState n (initialState n)"
  by (simp add: wfState_def initialState_def)

lemma columnOf_initial:
  "c < n \<Longrightarrow> columnOf (initialState n) c
                = (False, replicate kCommonConstantMaxNumberOfInputSamples 0, 0)"
  by (simp add: columnOf_def initialState_def)

lemma length_columnTokens [simp]: "length (columnTokens rows c) = length rows"
  by (simp add: columnTokens_def)

lemma readLines_file:
  assumes "readLines P ty hdrs (header # rows) (- 1) (initialState (length hdrs)) = Inr (rc', st')"
  shows "validateInputDistributionCSVHeader header hdrs = Inr ()
       \<and> rc' = int (length rows)
       \<and> length rows \<le> kCommonConstantMaxNumberOfInputSamples
       \<and> wfState (length hdrs) st'
       \<and> (\<forall>row \<in> set rows. length (rowTokens row) = length hdrs)
       \<and> (\<forall>c<length hdrs. columnAccepted P ty (columnTokens rows c)
                           \<and> columnOf st' c = columnResult P ty (columnTokens rows c))"
proof -
  let ?n = "length hdrs"
  from assms have v: "validateInputDistributionCSVHeader header hdrs = Inr ()"
    and run: "readLines P ty hdrs rows 0 (initialState ?n) = Inr (rc', st')"
    by (auto simp: readLines_header split: sum.splits)
  note cols = readLines_columns [OF run _ wfState_initial, simplified]
  from cols have rc: "rc' = int (length rows)" by simp
  from cols rc have len: "length rows \<le> kCommonConstantMaxNumberOfInputSamples"
    by (cases "rows = []") auto
  have "columnAccepted P ty (columnTokens rows c)
          \<and> columnOf st' c = columnResult P ty (columnTokens rows c)" if "c < ?n" for c
  proof -
    from cols that have "columnRun P ty c 0 (columnTokens rows c) (columnOf (initialState ?n) c)
                           = Inr (columnOf st' c)" by simp
    then have "columnRun P ty c 0 (columnTokens rows c)
                 (False, replicate kCommonConstantMaxNumberOfInputSamples 0, 0) = Inr (columnOf st' c)"
      using that by (simp add: columnOf_initial)
    then show ?thesis using columnRun_initial [of "columnTokens rows c" P ty c "columnOf st' c"] len
      by simp
  qed
  with v rc len cols show ?thesis by simp
qed

lemma readLines_file_success:
  assumes "validateInputDistributionCSVHeader header hdrs = Inr ()"
    and "length rows \<le> kCommonConstantMaxNumberOfInputSamples"
    and "\<forall>row \<in> set rows. length (rowTokens row) = length hdrs"
    and "\<forall>c<length hdrs. columnAccepted P ty (columnTokens rows c)"
  shows "\<exists>st'. readLines P ty hdrs (header # rows) (- 1) (initialState (length hdrs))
                 = Inr (int (length rows), st')"
proof -
  let ?n = "length hdrs"
  have "\<exists>st'. readLines P ty hdrs rows 0 (initialState ?n) = Inr (0 + int (length rows), st')"
  proof (rule readLines_success [OF _ _ wfState_initial assms(3)])
    show "(0::int) \<le> 0" by simp
    show "0 + int (length rows) \<le> int kCommonConstantMaxNumberOfInputSamples" using assms(2) by simp
    show "\<forall>c<?n. \<exists>s. columnRun P ty c 0 (columnTokens rows c) (columnOf (initialState ?n) c) = Inr s"
    proof (intro allI impI)
      fix c assume c: "c < ?n"
      have "columnRun P ty c 0 (columnTokens rows c)
              (False, replicate kCommonConstantMaxNumberOfInputSamples 0, 0)
              = Inr (columnResult P ty (columnTokens rows c))"
        using columnRun_initial [of "columnTokens rows c" P ty c] assms(2,4) c by simp
      then show "\<exists>s. columnRun P ty c 0 (columnTokens rows c) (columnOf (initialState ?n) c) = Inr s"
        unfolding columnOf_initial [OF c] by blast
    qed
  qed
  then show ?thesis using assms(1) by (simp add: readLines_header)
qed

lemma distributionsOfState_columns:
  "distributionsOfState P ty n st
     = map (\<lambda>ii. case columnOf st ii of (u, buf, cnt) \<Rightarrow>
                    if u then buf ! 0 else samplesToDistribution P ty buf cnt) [0..<n]"
  by (simp add: distributionsOfState_def columnOf_def samplesToDistribution_def)

lemma columnResult_distribution:
  assumes "toks \<noteq> []"
  shows "(case columnResult P ty toks of (u, buf, cnt) \<Rightarrow>
            if u then buf ! 0 else samplesToDistribution P ty buf cnt)
         = expectedDistribution P ty toks"
  using assms by (cases toks) (simp_all add: columnResult_def expectedDistribution_def)

lemma fieldwise_columnAccepted:
  assumes "rows \<noteq> []" "c < n" "\<forall>row \<in> set rows. length (rowTokens row) = n"
    and "\<forall>r<length rows. acceptableToken P ty (rowTokens (rows ! r) ! c)
                           \<or> (0 < r \<and> strstr (rowTokens (rows ! 0) ! c) ''Ux'')"
  shows "columnAccepted P ty (columnTokens rows c)"
proof -
  from assms(1) obtain row rest where rows: "rows = row # rest" by (cases rows) auto
  let ?t0 = "rowTokens row ! c"
  have ct: "columnTokens rows c = ?t0 # columnTokens rest c" by (simp add: rows columnTokens_Cons)
  show ?thesis
  proof (cases "strstr ?t0 ''Ux''")
    case True
    from assms(4) rows have "acceptableToken P ty ?t0" by auto
    moreover have "\<not> shouldIgnoreToken ?t0" using True ignore_not_Ux by blast
    ultimately have "parseChecked P ty ?t0 \<noteq> None" by (simp add: acceptableToken_def)
    with True show ?thesis by (simp add: columnAccepted_def ct)
  next
    case False
    have "acceptableToken P ty t" if "t \<in> set (columnTokens rows c)" for t
    proof -
      from that obtain r where r: "r < length rows" "t = rowTokens (rows ! r) ! c"
        by (auto simp: columnTokens_def in_set_conv_nth)
      with assms(4) False rows show ?thesis by auto
    qed
    then have "list_all (acceptableToken P ty) (columnTokens rows c)" by (simp add: list_all_iff)
    with False show ?thesis unfolding columnAccepted_def ct by simp
  qed
qed

lemma read_well_formed:
  assumes ty: "ty \<noteq> kFloatingPointVariableTypeUnknown"
    and path: "inputFilePath \<noteq> ''stdin''"
    and opened: "fopen_read P inputFilePath = Some (header # rows)"
    and hdr: "validateInputDistributionCSVHeader header expectedHeaders = Inr ()"
    and m: "1 \<le> length rows" "length rows \<le> kCommonConstantMaxNumberOfInputSamples"
    and fields: "\<forall>row \<in> set rows. length (rowTokens row) = length expectedHeaders"
    and cells: "\<forall>r<length rows. \<forall>c<length expectedHeaders.
                  acceptableToken P ty (rowTokens (rows ! r) ! c)
                  \<or> (0 < r \<and> strstr (rowTokens (rows ! 0) ! c) ''Ux'')"
  shows "readInputDistributionsFromCSV P inputFilePath expectedHeaders ty
           = Inr (map (\<lambda>c. expectedDistribution P ty (columnTokens rows c))
                      [0..<length expectedHeaders])"
proof (cases "length expectedHeaders = 0")
  case True
  then show ?thesis by (simp add: readInputDistributionsFromCSV_def)
next
  case False
  let ?n = "length expectedHeaders"
  from m(1) have ne: "rows \<noteq> []" by auto
  have acc: "\<forall>c<?n. columnAccepted P ty (columnTokens rows c)"
    using fieldwise_columnAccepted [OF ne _ fields] cells by blast
  from readLines_file_success [OF hdr m(2) fields acc] obtain st' where
    run: "readLines P ty expectedHeaders (header # rows) (- 1) (initialState ?n)
            = Inr (int (length rows), st')" by blast
  from readLines_file [OF run]
  have cols: "\<forall>c<?n. columnOf st' c = columnResult P ty (columnTokens rows c)" by simp
  have "distributionsOfState P ty ?n st'
          = map (\<lambda>c. expectedDistribution P ty (columnTokens rows c)) [0..<?n]"
    unfolding distributionsOfState_columns
  proof (rule map_cong [OF refl])
    fix c assume "c \<in> set [0..<?n]"
    then have c: "c < ?n" by simp
    have "columnTokens rows c \<noteq> []" using ne by (simp add: columnTokens_def)
    then show "(case columnOf st' c of (u, buf, cnt) \<Rightarrow>
                  if u then buf ! 0 else samplesToDistribution P ty buf cnt)
               = expectedDistribution P ty (columnTokens rows c)"
      using cols c by (simp add: columnResult_distribution)
  qed
  then show ?thesis
    using False ty path opened run by (simp add: readInputDistributionsFromCSV_def)
qed

subsection \<open>Well-formed files\<close>

lemmas example_eval = examplePlatform_def exampleFile_def strtoDecimal_def isDecimalDigit_def
  decimalValue_def meanOfSamples_def parseChecked_def parseFloatChecked_def parseDoubleChecked_def
  safeIsspace_def strtok_tokens.simps strtok_r_def rowTokens_def columnTokens_def
  shouldIgnoreToken_def acceptableToken_def

lemma upt_2: "[0..<2] = [0, 1]" by (simp add: upt_rec)

lemma header_a: "validateInputDistributionCSVHeader (''a'' @ [newline]) [''a''] = Inr ()"
  by (simp add: validateInputDistributionCSVHeader_def strtok_tokens.simps strtok_r_def
      strncmp_eq_def safeIsspace_def)

lemma header_ab: "validateInputDistributionCSVHeader (''a,b'' @ [newline]) [''a'', ''b''] = Inr ()"
  by (simp add: validateInputDistributionCSVHeader_def strtok_tokens.simps strtok_r_def
      strncmp_eq_def safeIsspace_def)

lemma header_abc:
  "validateInputDistributionCSVHeader (''a,b,c'' @ [newline]) [''a'', ''b'', ''c''] = Inr ()"
  by (simp add: validateInputDistributionCSVHeader_def strtok_tokens.simps strtok_r_def
      strncmp_eq_def safeIsspace_def)

text \<open>
  Claim C1, as amended. Let the file open, its header line pass the validation against the
  \<open>N\<close> expected headers, and its \<open>M\<close> data rows (\<open>1 \<le> M \<le> 10000\<close>) each have exactly \<open>N\<close> tokens,
  where every token is a number that the checked parser accepts or the ignore pattern, or
  stands below the first row in a column whose first-row token carries the marker
  \<^verbatim>\<open>Ux\<close>. A first-row token with the marker must itself be accepted by the parser. Then both
  read functions return success and write \<open>N\<close> entries: for a column with the marker in its
  first-row token the value parsed from that token, and for any other column the
  distribution of its sample buffer (the parsed samples in row order, zeros behind them)
  with its fill count.
\<close>

theorem read_well_formed_csv:
  "(inputFilePath \<noteq> ''stdin''
      \<and> fopen_read P inputFilePath = Some (header # rows)
      \<and> validateInputDistributionCSVHeader header expectedHeaders = Inr ()
      \<and> 1 \<le> length rows \<and> length rows \<le> kCommonConstantMaxNumberOfInputSamples
      \<and> (\<forall>row \<in> set rows. length (rowTokens row) = length expectedHeaders)
      \<and> (\<forall>r<length rows. \<forall>c<length expectedHeaders.
            acceptableToken P kFloatingPointVariableTypeFloat (rowTokens (rows ! r) ! c)
            \<or> (0 < r \<and> strstr (rowTokens (rows ! 0) ! c) ''Ux''))
    \<longrightarrow> readInputFloatDistributionsFromCSV P inputFilePath expectedHeaders
          = Inr (map (\<lambda>c. expectedDistribution P kFloatingPointVariableTypeFloat (columnTokens rows c))
                     [0..<length expectedHeaders])
        \<and> returnCode (readInputFloatDistributionsFromCSV P inputFilePath expectedHeaders)
            = kCommonConstantReturnTypeSuccess)
   \<and> (inputFilePath \<noteq> ''stdin''
      \<and> fopen_read P inputFilePath = Some (header # rows)
      \<and> validateInputDistributionCSVHeader header expectedHeaders = Inr ()
      \<and> 1 \<le> length rows \<and> length rows \<le> kCommonConstantMaxNumberOfInputSamples
      \<and> (\<forall>row \<in> set rows. length (rowTokens row) = length expectedHeaders)
      \<and> (\<forall>r<length rows. \<forall>c<length expectedHeaders.
            acceptableToken P kFloatingPointVariableTypeDouble (rowTokens (rows ! r) ! c)
            \<or> (0 < r \<and> strstr (rowTokens (rows ! 0) ! c) ''Ux''))
    \<longrightarrow> readInputDoubleDistributionsFromCSV P inputFilePath expectedHeaders
          = Inr (map (\<lambda>c. expectedDistribution P kFloatingPointVariableTypeDouble (columnTokens rows c))
                     [0..<length expectedHeaders])
        \<and> returnCode (readInputDoubleDistributionsFromCSV P inputFilePath expectedHeaders)
            = kCommonConstantReturnTypeSuccess)"
proof -
  have gen: "readInputDistributionsFromCSV P inputFilePath expectedHeaders ty
          = Inr (map (\<lambda>c. expectedDistribution P ty (columnTokens rows c)) [0..<length expectedHeaders])
        \<and> returnCode (readInputDistributionsFromCSV P inputFilePath expectedHeaders ty)
            = kCommonConstantReturnTypeSuccess"
    if "ty \<noteq> kFloatingPointVariableTypeUnknown"
      "inputFilePath \<noteq> ''stdin''
      \<and> fopen_read P inputFilePath = Some (header # rows)
      \<and> validateInputDistributionCSVHeader header expectedHeaders = Inr ()
      \<and> 1 \<le> length rows \<and> length rows \<le> kCommonConstantMaxNumberOfInputSamples
      \<and> (\<forall>row \<in> set rows. length (rowTokens row) = length expectedHeaders)
      \<and> (\<forall>r<length rows. \<forall>c<length expectedHeaders.
            acceptableToken P ty (rowTokens (rows ! r) ! c)
            \<or> (0 < r \<and> strstr (rowTokens (rows ! 0) ! c) ''Ux''))" for ty
  proof -
    from that(2) have h: "inputFilePath \<noteq> ''stdin''"
      "fopen_read P inputFilePath = Some (header # rows)"
      "validateInputDistributionCSVHeader header expectedHeaders = Inr ()"
      "1 \<le> length rows" "length rows \<le> kCommonConstantMaxNumberOfInputSamples"
      "\<forall>row \<in> set rows. length (rowTokens row) = length expectedHeaders"
      "\<forall>r<length rows. \<forall>c<length expectedHeaders.
            acceptableToken P ty (rowTokens (rows ! r) ! c)
            \<or> (0 < r \<and> strstr (rowTokens (rows ! 0) ! c) ''Ux'')"
      by blast+
    show ?thesis using read_well_formed [OF that(1) h] by (simp add: returnCode_def)
  qed
  show ?thesis
    unfolding readInputFloatDistributionsFromCSV_def readInputDoubleDistributionsFromCSV_def
    using gen [of kFloatingPointVariableTypeFloat] gen [of kFloatingPointVariableTypeDouble]
    by blast
qed

text \<open>
  The scenario of the specification, with the means \<open>3\<close> and \<open>4\<close> of the two columns, and a
  file with a marked column and an ignored placeholder.
\<close>

theorem read_well_formed_csv_witness:
  "readInputFloatDistributionsFromCSV
     (examplePlatform (exampleFile [''a,b'' @ [newline], ''1,2'' @ [newline], ''3,4'' @ [newline],
                                    ''5,6'' @ [newline]]))
     ''input.csv'' [''a'', ''b'']
     = Inr [3, 4]
   \<and> readInputDoubleDistributionsFromCSV
     (examplePlatform (exampleFile [''a,b'' @ [newline], ''7Ux,- '' @ [newline], ''x,4'' @ [newline]]))
     ''input.csv'' [''a'', ''b'']
     = Inr [7, 4]"
proof -
  let ?rows1 = "[''1,2'' @ [newline], ''3,4'' @ [newline], ''5,6'' @ [newline]]"
  let ?P1 = "examplePlatform (exampleFile ((''a,b'' @ [newline]) # ?rows1))"
  let ?rows2 = "[''7Ux,- '' @ [newline], ''x,4'' @ [newline]]"
  let ?P2 = "examplePlatform (exampleFile ((''a,b'' @ [newline]) # ?rows2))"
  have hdr: "validateInputDistributionCSVHeader (''a,b'' @ [newline]) [''a'', ''b''] = Inr ()"
    by (simp add: validateInputDistributionCSVHeader_def strtok_tokens.simps strtok_r_def
        strncmp_eq_def safeIsspace_def)
  have cap: "length ?rows1 \<le> kCommonConstantMaxNumberOfInputSamples"
    "length ?rows2 \<le> kCommonConstantMaxNumberOfInputSamples"
    by (simp_all add: kCommonConstantMaxNumberOfInputSamples_def)
  have t1: "map rowTokens ?rows1 = [[''1'', ''2'' @ [newline]], [''3'', ''4'' @ [newline]],
                                     [''5'', ''6'' @ [newline]]]"
    by (simp add: example_eval)
  have t2: "map rowTokens ?rows2 = [[''7Ux'', ''- '' @ [newline]], [''x'', ''4'' @ [newline]]]"
    by (simp add: example_eval)
  have f1: "\<forall>row \<in> set ?rows1. length (rowTokens row) = length [''a'', ''b'']"
    using t1 by simp
  have f2: "\<forall>row \<in> set ?rows2. length (rowTokens row) = length [''a'', ''b'']"
    using t2 by simp
  have c1: "\<forall>r<length ?rows1. \<forall>c<length [''a'', ''b''].
              acceptableToken ?P1 kFloatingPointVariableTypeFloat (rowTokens (?rows1 ! r) ! c)
              \<or> (0 < r \<and> strstr (rowTokens (?rows1 ! 0) ! c) ''Ux'')"
    using t1 by (simp add: less_Suc_eq numeral_3_eq_3 numeral_2_eq_2 example_eval)
  have c2: "\<forall>r<length ?rows2. \<forall>c<length [''a'', ''b''].
              acceptableToken ?P2 kFloatingPointVariableTypeDouble (rowTokens (?rows2 ! r) ! c)
              \<or> (0 < r \<and> strstr (rowTokens (?rows2 ! 0) ! c) ''Ux'')"
    using t2 by (simp add: less_Suc_eq numeral_2_eq_2 example_eval)
  have r1: "readInputFloatDistributionsFromCSV ?P1 ''input.csv'' [''a'', ''b'']
              = Inr (map (\<lambda>c. expectedDistribution ?P1 kFloatingPointVariableTypeFloat
                                  (columnTokens ?rows1 c)) [0..<length [''a'', ''b'']])"
    using read_well_formed_csv [of "''input.csv''" ?P1 "''a,b'' @ [newline]" ?rows1 "[''a'', ''b'']"]
      hdr cap(1) f1 c1 by (simp add: examplePlatform_def exampleFile_def)
  have r2: "readInputDoubleDistributionsFromCSV ?P2 ''input.csv'' [''a'', ''b'']
              = Inr (map (\<lambda>c. expectedDistribution ?P2 kFloatingPointVariableTypeDouble
                                  (columnTokens ?rows2 c)) [0..<length [''a'', ''b'']])"
    using read_well_formed_csv [of "''input.csv''" ?P2 "''a,b'' @ [newline]" ?rows2 "[''a'', ''b'']"]
      hdr cap(2) f2 c2 by (simp add: examplePlatform_def exampleFile_def)
  have e1: "map (\<lambda>c. expectedDistribution ?P1 kFloatingPointVariableTypeFloat
                                  (columnTokens ?rows1 c)) [0..<length [''a'', ''b'']] = [3, 4]"
    using t1 by (simp add: upt_2 expectedDistribution_def columnTokens_def parsedSamples_def
        samplesToDistribution_def example_eval kCommonConstantMaxNumberOfInputSamples_def)
  have e2: "map (\<lambda>c. expectedDistribution ?P2 kFloatingPointVariableTypeDouble
                                  (columnTokens ?rows2 c)) [0..<length [''a'', ''b'']] = [7, 4]"
    using t2 by (simp add: upt_2 expectedDistribution_def columnTokens_def parsedSamples_def
        samplesToDistribution_def example_eval kCommonConstantMaxNumberOfInputSamples_def)
  show ?thesis using r1 r2 e1 e2 by simp
qed

text \<open>
  Claim C1 as stated fails for a first-row token that carries the marker and is not a
  number: the header matches, the one row has its one field, and the read ends with the
  diagnostic for an invalid number.
\<close>

theorem read_well_formed_csv_counterexample:
  "validateInputDistributionCSVHeader (''a'' @ [newline]) [''a''] = Inr ()
   \<and> rowTokens (''Ux'' @ [newline]) = [''Ux'' @ [newline]]
   \<and> strstr (''Ux'' @ [newline]) ''Ux''
   \<and> readInputFloatDistributionsFromCSV
        (examplePlatform (exampleFile [''a'' @ [newline], ''Ux'' @ [newline]])) ''input.csv'' [''a'']
       = Inl (NotAValidNumber 0 0 (''Ux'' @ [newline]))"
  by (simp add: example_eval readInputFloatDistributionsFromCSV_def readInputDistributionsFromCSV_def
      validateInputDistributionCSVHeader_def strncmp_eq_def initialState_def processCell_def
      storeSample_def kCommonConstantMaxNumberOfInputSamples_def Let_def)

subsection \<open>Distribution columns and ignored placeholders\<close>

lemma readerAfter_prefix:
  assumes "readerAfter P ty hdrs header rows (length rows) = Inr (rc, st)"
    and "k \<le> length rows" "c < length hdrs"
  shows "\<exists>st_k. readerAfter P ty hdrs header rows k = Inr (int k, st_k)
            \<and> wfState (length hdrs) st_k
            \<and> columnOf st_k c = columnResult P ty (columnTokens (take k rows) c)
            \<and> length rows \<le> kCommonConstantMaxNumberOfInputSamples"
proof -
  let ?init = "initialState (length hdrs)"
  have split: "header # rows = (header # take k rows) @ drop k rows" by simp
  from assms(1) have whole: "readLines P ty hdrs (header # rows) (- 1) ?init = Inr (rc, st)"
    by (simp add: readerAfter_def)
  then have "readLines P ty hdrs ((header # take k rows) @ drop k rows) (- 1) ?init = Inr (rc, st)"
    by (simp only: split [symmetric])
  then obtain rc_k st_k where
    pre: "readLines P ty hdrs (header # take k rows) (- 1) ?init = Inr (rc_k, st_k)"
    unfolding readLines_append by (auto split: sum.splits)
  from readLines_file [OF pre] assms(2,3)
  have "rc_k = int k" "wfState (length hdrs) st_k"
    "columnOf st_k c = columnResult P ty (columnTokens (take k rows) c)"
    by simp_all
  moreover from readLines_file [OF whole]
  have "length rows \<le> kCommonConstantMaxNumberOfInputSamples" by simp
  ultimately show ?thesis using pre by (simp add: readerAfter_def)
qed

lemma columnTokens_take_hd:
  "1 \<le> k \<Longrightarrow> k \<le> length rows \<Longrightarrow>
   \<exists>ts. columnTokens (take k rows) c = (rowTokens (rows ! 0) ! c) # ts"
  by (cases rows; cases k) (simp_all add: columnTokens_def)

lemma length_parsedSamples:
  "length (parsedSamples P ty toks) = length (filter (\<lambda>t. \<not> shouldIgnoreToken t) toks)"
  by (simp add: parsedSamples_def)

text \<open>
  Claim C5. In a read that succeeds, after each number \<open>k \<ge> 1\<close> of data rows the flag of a
  column is whether its first-row token contains \<^verbatim>\<open>Ux\<close>. For a column with the marker the
  buffer and the count stay what the first row left (the one parsed value), and the cell
  step returns the state unchanged for any token at all, so later tokens are neither
  parsed nor stored. A column without the marker holds one sample for each of its tokens
  so far that is not the ignore pattern.
\<close>

theorem distribution_column_fixed_by_first_row:
  assumes "readerAfter P ty expectedHeaders header rows (length rows) = Inr (rc, st)"
    and "1 \<le> k" "k \<le> length rows" "c < length expectedHeaders"
  shows "\<exists>st_k. readerAfter P ty expectedHeaders header rows k = Inr (int k, st_k)
          \<and> uxColumns st_k ! c = strstr (rowTokens (rows ! 0) ! c) ''Ux''
          \<and> (strstr (rowTokens (rows ! 0) ! c) ''Ux'' \<longrightarrow>
               sampleValues st_k ! c
                 = the (parseChecked P ty (rowTokens (rows ! 0) ! c))
                     # replicate (kCommonConstantMaxNumberOfInputSamples - 1) 0
               \<and> sampleCounts st_k ! c = 1
               \<and> (\<forall>rowCount token. processCell P ty rowCount c token st_k = Inr st_k))
          \<and> (\<not> strstr (rowTokens (rows ! 0) ! c) ''Ux'' \<longrightarrow>
               sampleCounts st_k ! c
                 = length (filter (\<lambda>t. \<not> shouldIgnoreToken t) (columnTokens (take k rows) c))
               \<and> take (sampleCounts st_k ! c) (sampleValues st_k ! c)
                 = parsedSamples P ty (columnTokens (take k rows) c))"
proof -
  from readerAfter_prefix [OF assms(1,3,4)] obtain st_k where
    run: "readerAfter P ty expectedHeaders header rows k = Inr (int k, st_k)"
    and col: "columnOf st_k c = columnResult P ty (columnTokens (take k rows) c)" by blast
  from columnTokens_take_hd [OF assms(2,3)] obtain ts where
    toks: "columnTokens (take k rows) c = (rowTokens (rows ! 0) ! c) # ts" by blast
  let ?t0 = "rowTokens (rows ! 0) ! c"
  show ?thesis
  proof (cases "strstr ?t0 ''Ux''")
    case True
    with col toks have
      "uxColumns st_k ! c" 
      "sampleValues st_k ! c = the (parseChecked P ty ?t0)
                                 # replicate (kCommonConstantMaxNumberOfInputSamples - 1) 0"
      "sampleCounts st_k ! c = 1"
      by (simp_all add: columnOf_def columnResult_def)
    moreover from this(1) have "\<forall>rowCount token. processCell P ty rowCount c token st_k = Inr st_k"
      by (simp add: processCell_def)
    ultimately show ?thesis using run True by simp
  next
    case False
    with col toks have ux: "\<not> uxColumns st_k ! c"
      and cnt: "sampleCounts st_k ! c = length (parsedSamples P ty (columnTokens (take k rows) c))"
      and buf: "sampleValues st_k ! c = parsedSamples P ty (columnTokens (take k rows) c)
                  @ replicate (kCommonConstantMaxNumberOfInputSamples
                                - length (parsedSamples P ty (columnTokens (take k rows) c))) 0"
      by (simp_all add: columnOf_def columnResult_def)
    have "take (sampleCounts st_k ! c) (sampleValues st_k ! c)
            = parsedSamples P ty (columnTokens (take k rows) c)"
      unfolding cnt buf by simp
    then show ?thesis using run False ux cnt by (simp add: length_parsedSamples)
  qed
qed

theorem distribution_column_fixed_by_first_row_witness:
  "\<exists>st_k. readerAfter
            (examplePlatform (exampleFile [])) kFloatingPointVariableTypeDouble [''a'', ''b'']
            (''a,b'' @ [newline]) [''7Ux,- '' @ [newline], ''x,4'' @ [newline]] 2 = Inr (2, st_k)
          \<and> uxColumns st_k ! 0 \<and> sampleCounts st_k ! 0 = 1
          \<and> sampleValues st_k ! 0 = 7 # replicate 9999 0
          \<and> \<not> uxColumns st_k ! 1 \<and> sampleCounts st_k ! 1 = 1
          \<and> take 1 (sampleValues st_k ! 1) = [4]"
proof -
  let ?rows = "[''7Ux,- '' @ [newline], ''x,4'' @ [newline]]"
  let ?P = "examplePlatform (exampleFile [])"
  let ?ty = "kFloatingPointVariableTypeDouble"
  let ?hdrs = "[''a'', ''b'']"
  let ?header = "''a,b'' @ [newline]"
  have K: "kCommonConstantMaxNumberOfInputSamples = 10000"
    by (simp add: kCommonConstantMaxNumberOfInputSamples_def)
  have t: "map rowTokens ?rows = [[''7Ux'', ''- '' @ [newline]], [''x'', ''4'' @ [newline]]]"
    by (simp add: example_eval)
  have c0: "columnTokens ?rows 0 = [''7Ux'', ''x'']"
    and c1: "columnTokens ?rows 1 = [''- '' @ [newline], ''4'' @ [newline]]"
    using t by (simp_all add: columnTokens_def)
  have ca: "\<forall>c<length ?hdrs. columnAccepted ?P ?ty (columnTokens ?rows c)"
    using c0 c1 by (simp add: less_Suc_eq numeral_2_eq_2 columnAccepted_def example_eval)
  have "\<exists>st. readLines ?P ?ty ?hdrs (?header # ?rows) (- 1) (initialState (length ?hdrs))
               = Inr (int (length ?rows), st)"
    using header_ab ca t by (intro readLines_file_success) (simp_all add: K)
  then obtain st where run: "readerAfter ?P ?ty ?hdrs ?header ?rows (length ?rows) = Inr (2, st)"
    by (auto simp: readerAfter_def)
  have p0: "parseChecked ?P ?ty ''7Ux'' = Some 7"
    and p1: "parsedSamples ?P ?ty (columnTokens ?rows 1) = [4]"
    unfolding c1 by (simp_all add: parsedSamples_def example_eval)
  from distribution_column_fixed_by_first_row [OF run, of 2 0] t p0
  obtain s0 where s0: "readerAfter ?P ?ty ?hdrs ?header ?rows 2 = Inr (2, s0)"
    "uxColumns s0 ! 0" "sampleCounts s0 ! 0 = 1" "sampleValues s0 ! 0 = 7 # replicate 9999 0"
    by (auto simp: K)
  from distribution_column_fixed_by_first_row [OF run, of 2 1] t p1 c1
  obtain s1 where s1: "readerAfter ?P ?ty ?hdrs ?header ?rows 2 = Inr (2, s1)"
    "\<not> uxColumns s1 ! 1" "sampleCounts s1 ! 1 = 1" "take 1 (sampleValues s1 ! 1) = [4]"
    by (auto simp: shouldIgnoreToken_def safeIsspace_def)
  from s0(1) s1(1) have "s1 = s0" by simp
  with s0 s1 show ?thesis by blast
qed

text \<open>
  Claim C6. In a read that succeeds, let a column have no marker in its first-row token.
  Wherever one of its tokens is a minus sign followed by white space only, the cell step
  stores a zero at the fill index of the column and changes nothing else: the count does
  not advance and no error is raised. At the end the sample count falls short of the number
  of data rows by the number of such tokens.
\<close>

theorem ignored_placeholder_not_counted:
  assumes "readerAfter P ty expectedHeaders header rows (length rows) = Inr (rc, st)"
    and "c < length expectedHeaders" "rows \<noteq> []"
    and "\<not> strstr (rowTokens (rows ! 0) ! c) ''Ux''"
  shows "(\<forall>k<length rows. shouldIgnoreToken (rowTokens (rows ! k) ! c) \<longrightarrow>
            (\<exists>st_k. readerAfter P ty expectedHeaders header rows k = Inr (int k, st_k)
               \<and> \<not> uxColumns st_k ! c
               \<and> processCell P ty (int k) c (rowTokens (rows ! k) ! c) st_k
                   = Inr (st_k\<lparr>sampleValues :=
                                 (sampleValues st_k)[c := (sampleValues st_k ! c)
                                                           [sampleCounts st_k ! c := 0]]\<rparr>)))
       \<and> sampleCounts st ! c + length (filter shouldIgnoreToken (columnTokens rows c)) = length rows"
proof -
  let ?K = "kCommonConstantMaxNumberOfInputSamples"
  let ?t0 = "rowTokens (rows ! 0) ! c"
  have local: "\<exists>st_k. readerAfter P ty expectedHeaders header rows k = Inr (int k, st_k)
               \<and> \<not> uxColumns st_k ! c
               \<and> processCell P ty (int k) c (rowTokens (rows ! k) ! c) st_k
                   = Inr (st_k\<lparr>sampleValues :=
                                 (sampleValues st_k)[c := (sampleValues st_k ! c)
                                                           [sampleCounts st_k ! c := 0]]\<rparr>)"
    if k: "k < length rows" and ig: "shouldIgnoreToken (rowTokens (rows ! k) ! c)" for k
  proof -
    from k have kle: "k \<le> length rows" by simp
    from readerAfter_prefix [OF assms(1) kle assms(2)] obtain st_k where
      run: "readerAfter P ty expectedHeaders header rows k = Inr (int k, st_k)"
      and col: "columnOf st_k c = columnResult P ty (columnTokens (take k rows) c)"
      and cap: "length rows \<le> ?K" by blast
    let ?toks = "columnTokens (take k rows) c"
    have res: "columnResult P ty ?toks
                 = (False, parsedSamples P ty ?toks @ replicate (?K - length (parsedSamples P ty ?toks)) 0,
                    length (parsedSamples P ty ?toks))"
    proof (cases "k = 0")
      case True
      then show ?thesis by (simp add: columnTokens_def columnResult_def parsedSamples_def)
    next
      case False
      then have "1 \<le> k" by simp
      from columnTokens_take_hd [OF this kle] obtain ts where "?toks = ?t0 # ts" by blast
      with assms(4) show ?thesis by (simp add: columnResult_def)
    qed
    have lp: "length (parsedSamples P ty ?toks) \<le> k"
      using k by (simp add: length_parsedSamples) (metis length_filter_le length_columnTokens length_take min.absorb2 less_imp_le_nat)
    from col res have ux: "\<not> uxColumns st_k ! c"
      and cnt: "sampleCounts st_k ! c = length (parsedSamples P ty ?toks)"
      and buf: "length (sampleValues st_k ! c) = ?K"
      using lp k cap by (simp_all add: columnOf_def)
    have inb: "sampleCounts st_k ! c < length (sampleValues st_k ! c)"
      using cnt buf lp k cap by simp
    have noux: "\<not> strstr (rowTokens (rows ! k) ! c) ''Ux''" using ig ignore_not_Ux by blast
    have "processCell P ty (int k) c (rowTokens (rows ! k) ! c) st_k
            = Inr (st_k\<lparr>sampleValues :=
                          (sampleValues st_k)[c := (sampleValues st_k ! c)[sampleCounts st_k ! c := 0]]\<rparr>)"
      using ux ig noux inb by (simp add: processCell_def storeSample_def Let_def)
    with run ux show ?thesis by blast
  qed
  have count: "sampleCounts st ! c + length (filter shouldIgnoreToken (columnTokens rows c)) = length rows"
  proof -
    from readerAfter_prefix [OF assms(1) order_refl assms(2)] assms(1)
    have col: "columnOf st c = columnResult P ty (columnTokens rows c)" by simp
    from assms(3) obtain ts where "columnTokens rows c = ?t0 # ts"
      by (cases rows) (simp_all add: columnTokens_def)
    with col assms(4) have "sampleCounts st ! c = length (parsedSamples P ty (columnTokens rows c))"
      by (simp add: columnOf_def columnResult_def)
    then show ?thesis
      using sum_length_filter_compl [of shouldIgnoreToken "columnTokens rows c"]
      by (simp add: length_parsedSamples)
  qed
  from local count show ?thesis by blast
qed

theorem ignored_placeholder_not_counted_witness:
  "\<exists>st st0. readerAfter
            (examplePlatform (exampleFile [])) kFloatingPointVariableTypeFloat [''a'', ''b'', ''c'']
            (''a,b,c'' @ [newline]) [''1, -   ,3'' @ [newline], ''4,5,6'' @ [newline]] 2 = Inr (2, st)
          \<and> sampleCounts st ! 1 + 1 = 2 \<and> sampleCounts st ! 0 = 2
          \<and> readerAfter
            (examplePlatform (exampleFile [])) kFloatingPointVariableTypeFloat [''a'', ''b'', ''c'']
            (''a,b,c'' @ [newline]) [''1, -   ,3'' @ [newline], ''4,5,6'' @ [newline]] 0 = Inr (0, st0)
          \<and> processCell (examplePlatform (exampleFile [])) kFloatingPointVariableTypeFloat 0 1
                ''-   '' st0
              = Inr (st0\<lparr>sampleValues :=
                            (sampleValues st0)[1 := (sampleValues st0 ! 1)[sampleCounts st0 ! 1 := 0]]\<rparr>)"
proof -
  let ?rows = "[''1, -   ,3'' @ [newline], ''4,5,6'' @ [newline]]"
  let ?P = "examplePlatform (exampleFile [])"
  let ?ty = "kFloatingPointVariableTypeFloat"
  let ?hdrs = "[''a'', ''b'', ''c'']"
  let ?header = "''a,b,c'' @ [newline]"
  have K: "kCommonConstantMaxNumberOfInputSamples = 10000"
    by (simp add: kCommonConstantMaxNumberOfInputSamples_def)
  have t: "map rowTokens ?rows = [[''1'', ''-   '', ''3'' @ [newline]], [''4'', ''5'', ''6'' @ [newline]]]"
    by (simp add: example_eval)
  have c0: "columnTokens ?rows 0 = [''1'', ''4'']" and c1: "columnTokens ?rows 1 = [''-   '', ''5'']"
    and c2: "columnTokens ?rows 2 = [''3'' @ [newline], ''6'' @ [newline]]"
    using t by (simp_all add: columnTokens_def)
  have ca: "\<forall>c<length ?hdrs. columnAccepted ?P ?ty (columnTokens ?rows c)"
    using c0 c1 c2 by (simp add: less_Suc_eq numeral_3_eq_3 columnAccepted_def example_eval)
  have "\<exists>st. readLines ?P ?ty ?hdrs (?header # ?rows) (- 1) (initialState (length ?hdrs))
               = Inr (int (length ?rows), st)"
    using header_abc ca t by (intro readLines_file_success) (simp_all add: K)
  then obtain st where run: "readerAfter ?P ?ty ?hdrs ?header ?rows (length ?rows) = Inr (2, st)"
    by (auto simp: readerAfter_def)
  have ig: "shouldIgnoreToken ''-   ''" "\<not> shouldIgnoreToken ''5''" "\<not> shouldIgnoreToken ''1''"
    "\<not> shouldIgnoreToken ''4''"
    by (simp_all add: shouldIgnoreToken_def safeIsspace_def)
  from ignored_placeholder_not_counted [OF run, of 1] t c1 ig
  obtain st0 where a: "sampleCounts st ! 1 + 1 = 2"
    "readerAfter ?P ?ty ?hdrs ?header ?rows 0 = Inr (0, st0)"
    "processCell ?P ?ty 0 1 ''-   '' st0
       = Inr (st0\<lparr>sampleValues :=
                    (sampleValues st0)[1 := (sampleValues st0 ! 1)[sampleCounts st0 ! 1 := 0]]\<rparr>)"
    by (auto simp: less_Suc_eq numeral_2_eq_2)
  from ignored_placeholder_not_counted [OF run, of 0] t c0 ig
  have b: "sampleCounts st ! 0 = 2" by simp
  have len2: "length ?rows = 2" by simp
  from run have run2: "readerAfter ?P ?ty ?hdrs ?header ?rows 2 = Inr (2, st)"
    by (simp only: len2)
  from run2 a b show ?thesis by blast
qed

subsection \<open>The capacity of the sample buffers\<close>

lemma cellStep_no_overrun:
  "cellStep P ty rc c t (u, buf, cnt) = Inl (BufferOverrun a b) \<Longrightarrow> \<not> cnt < length buf"
  by (auto simp: cellStep_def split: if_splits option.splits)

lemma cellStep_grows:
  "cellStep P ty rc c t (u, buf, cnt) = Inr (u', buf', cnt') \<Longrightarrow>
   length buf' = length buf \<and> cnt' \<le> Suc cnt"
  by (auto simp: cellStep_def split: if_splits option.splits)

lemma processTokens_error:
  assumes "processTokens P ty n rc toks cc st = Inl e" "wfState n st" "cc \<le> n"
  shows "e = MoreThanExpectedEntries rc
       \<or> (\<exists>j tok. cc \<le> j \<and> j < n \<and> cellStep P ty rc j tok (columnOf st j) = Inl e)"
  using assms
proof (induction toks arbitrary: cc st)
  case Nil
  then show ?case by simp
next
  case (Cons tok rest)
  let ?token = "dropWhile safeIsspace tok"
  show ?case
  proof (cases "cc = n")
    case True
    with Cons.prems(1) show ?thesis by (simp add: Let_def)
  next
    case False
    with Cons.prems(3) have lt: "cc < n" by simp
    note pc = processCell_cellStep [OF Cons.prems(2) lt, of P ty rc ?token]
    show ?thesis
    proof (cases "cellStep P ty rc cc ?token (columnOf st cc)")
      case (Inl e')
      with Cons.prems(1) False pc have "e' = e" by (simp add: Let_def)
      with Inl lt show ?thesis by blast
    next
      case (Inr s)
      define st1 where "st1 = setColumn st cc s"
      from Inr Cons.prems(1) False pc
      have rest: "processTokens P ty n rc rest (Suc cc) st1 = Inl e" by (simp add: Let_def st1_def)
      have wf1: "wfState n st1" using Cons.prems(2) by (simp add: st1_def wfState_setColumn)
      from Cons.IH [OF rest wf1] lt
      consider "e = MoreThanExpectedEntries rc"
        | j tok' where "Suc cc \<le> j" "j < n" "cellStep P ty rc j tok' (columnOf st1 j) = Inl e"
        by auto
      then show ?thesis
      proof cases
        case 1
        then show ?thesis by simp
      next
        case 2
        from 2(1) have "j \<noteq> cc" by simp
        then have "columnOf st1 j = columnOf st j"
          using columnOf_setColumn [OF Cons.prems(2) lt] by (simp add: st1_def)
        with 2 have "cc \<le> j \<and> j < n \<and> cellStep P ty rc j tok' (columnOf st j) = Inl e" by simp
        then show ?thesis by blast
      qed
    qed
  qed
qed

lemma capacityInvariant_row:
  assumes inv: "capacityInvariant n rc st"
    and pt: "processTokens P ty n rc toks 0 st = Inr (cc', st')"
  shows "capacityInvariant n (rc + 1) st'"
proof -
  from inv have wf: "wfState n st" and rc: "0 \<le> rc" by (simp_all add: capacityInvariant_def)
  note cols = processTokens_columns [OF pt wf, simplified]
  have "length (sampleValues st' ! c) = kCommonConstantMaxNumberOfInputSamples
          \<and> int (sampleCounts st' ! c) \<le> rc + 1" if c: "c < n" for c
  proof -
    from inv c have old: "length (sampleValues st ! c) = kCommonConstantMaxNumberOfInputSamples"
      "int (sampleCounts st ! c) \<le> rc" by (simp_all add: capacityInvariant_def)
    from cols c have "(\<exists>tok. cellStep P ty rc c tok (columnOf st c) = Inr (columnOf st' c))
                       \<or> columnOf st' c = columnOf st c"
      by (metis (full_types))
    then show ?thesis
    proof
      assume "\<exists>tok. cellStep P ty rc c tok (columnOf st c) = Inr (columnOf st' c)"
      then obtain tok where "cellStep P ty rc c tok (columnOf st c) = Inr (columnOf st' c)" by blast
      from cellStep_grows [OF this [unfolded columnOf_def]] old show ?thesis by simp
    next
      assume "columnOf st' c = columnOf st c"
      with old show ?thesis by (simp add: columnOf_def)
    qed
  qed
  with cols rc show ?thesis by (simp add: capacityInvariant_def)
qed

lemma readLines_no_overrun:
  assumes "capacityInvariant (length hdrs) rc st"
  shows "readLines P ty hdrs rows rc st \<noteq> Inl (BufferOverrun a b)"
  using assms
proof (induction rows arbitrary: rc st)
  case Nil
  then show ?case by simp
next
  case (Cons row rest)
  let ?n = "length hdrs"
  let ?K = "kCommonConstantMaxNumberOfInputSamples"
  from Cons.prems have rc: "0 \<le> rc" and wf: "wfState ?n st" by (simp_all add: capacityInvariant_def)
  show ?case
  proof (cases "rc \<ge> int ?K")
    case True
    with rc show ?thesis by simp
  next
    case False
    show ?thesis
    proof (cases "processTokens P ty ?n rc (strtok_tokens row '','') 0 st")
      case (Inl e)
      have "e \<noteq> BufferOverrun a b"
      proof
        assume e: "e = BufferOverrun a b"
        from processTokens_error [OF Inl wf] e obtain j tok where
          j: "j < ?n" and cs: "cellStep P ty rc j tok (columnOf st j) = Inl (BufferOverrun a b)"
          by auto
        from Cons.prems j have "length (sampleValues st ! j) = ?K" "int (sampleCounts st ! j) \<le> rc"
          by (simp_all add: capacityInvariant_def)
        with False have "sampleCounts st ! j < length (sampleValues st ! j)" by simp
        with cellStep_no_overrun [OF cs [unfolded columnOf_def]] show False by simp
      qed
      with Inl rc False show ?thesis by simp
    next
      case (Inr r)
      obtain cc' st' where r: "r = (cc', st')" by (cases r)
      from capacityInvariant_row [OF Cons.prems Inr [unfolded r]]
      have "capacityInvariant ?n (rc + 1) st'" .
      from Cons.IH [OF this] Inr r rc False show ?thesis by simp
    qed
  qed
qed

lemma capacityInvariant_initial: "capacityInvariant n 0 (initialState n)"
  by (simp add: capacityInvariant_def wfState_def initialState_def)

lemma validateHeaderTokens_no_overrun:
  "validateHeaderTokens hdrs toks cc \<noteq> Inl (BufferOverrun a b)"
  "validateHeaderTokens hdrs toks cc \<noteq> Inl (TooManyRows k)"
  by (induction toks arbitrary: cc) (simp_all add: Let_def)

lemma readLines_file_no_overrun:
  "readLines P ty hdrs lines (- 1) (initialState (length hdrs)) \<noteq> Inl (BufferOverrun a b)"
proof (cases lines)
  case Nil
  then show ?thesis by simp
next
  case (Cons header rows)
  show ?thesis
  proof (cases "validateInputDistributionCSVHeader header hdrs")
    case (Inl e)
    from Inl have "e \<noteq> BufferOverrun a b"
      using validateHeaderTokens_no_overrun(1) [of hdrs "strtok_tokens header '',''" 0 a b]
      by (auto simp: validateInputDistributionCSVHeader_def)
    with Inl Cons show ?thesis by (simp add: readLines_header)
  next
    case (Inr u)
    with Cons readLines_no_overrun [OF capacityInvariant_initial, where hdrs = hdrs and P = P and ty = ty
        and rows = rows and a = a and b = b]
    show ?thesis by (simp add: readLines_header)
  qed
qed

lemma cellStep_not_too_many: "cellStep P ty rc c t s \<noteq> Inl (TooManyRows k)"
  by (cases s) (auto simp: cellStep_def split: if_splits option.splits)

lemma readLines_not_too_many:
  assumes "0 \<le> rc" "rc + int (length rows) \<le> int kCommonConstantMaxNumberOfInputSamples"
    and "wfState (length hdrs) st"
  shows "readLines P ty hdrs rows rc st \<noteq> Inl (TooManyRows k)"
  using assms
proof (induction rows arbitrary: rc st)
  case Nil
  then show ?case by simp
next
  case (Cons row rest)
  let ?n = "length hdrs"
  from Cons.prems(2) have cap: "\<not> rc \<ge> int kCommonConstantMaxNumberOfInputSamples" by simp
  show ?case
  proof (cases "processTokens P ty ?n rc (strtok_tokens row '','') 0 st")
    case (Inl e)
    from processTokens_error [OF Inl Cons.prems(3)] have "e \<noteq> TooManyRows k"
      by (auto simp: cellStep_not_too_many)
    with Inl Cons.prems(1) cap show ?thesis by simp
  next
    case (Inr r)
    obtain cc' st' where r: "r = (cc', st')" by (cases r)
    from processTokens_columns [OF Inr [unfolded r] Cons.prems(3)] have wf1: "wfState ?n st'" by simp
    have "readLines P ty hdrs rest (rc + 1) st' \<noteq> Inl (TooManyRows k)"
      using Cons.prems(1,2) by (intro Cons.IH [OF _ _ wf1]) simp_all
    with Inr r Cons.prems(1) cap show ?thesis by simp
  qed
qed

lemma readerAfter_not_too_many:
  assumes "length rows \<le> kCommonConstantMaxNumberOfInputSamples"
  shows "readerAfter P ty hdrs header rows k \<noteq> Inl (TooManyRows n)"
proof (cases "validateInputDistributionCSVHeader header hdrs")
  case (Inl e)
  then have "e \<noteq> TooManyRows n"
    using validateHeaderTokens_no_overrun(2) [of hdrs "strtok_tokens header '',''" 0 n]
    by (auto simp: validateInputDistributionCSVHeader_def)
  with Inl show ?thesis by (simp add: readerAfter_def readLines_header)
next
  case (Inr u)
  have "readLines P ty hdrs (take k rows) 0 (initialState (length hdrs)) \<noteq> Inl (TooManyRows n)"
    using assms by (intro readLines_not_too_many wfState_initial) simp_all
  with Inr show ?thesis by (simp add: readerAfter_def readLines_header)
qed

lemma readerAfter_too_many:
  assumes "kCommonConstantMaxNumberOfInputSamples < length rows"
  shows "(\<exists>e. readerAfter P ty hdrs header rows (length rows) = Inl e)
       \<and> ((\<exists>x. readerAfter P ty hdrs header rows kCommonConstantMaxNumberOfInputSamples = Inr x)
            \<longrightarrow> readerAfter P ty hdrs header rows (length rows)
                  = Inl (TooManyRows (int kCommonConstantMaxNumberOfInputSamples)))"
proof -
  let ?K = "kCommonConstantMaxNumberOfInputSamples"
  let ?init = "initialState (length hdrs)"
  have never: "\<exists>e. readerAfter P ty hdrs header rows (length rows) = Inl e"
  proof (cases "readerAfter P ty hdrs header rows (length rows)")
    case (Inl e)
    then show ?thesis by blast
  next
    case (Inr r)
    obtain rc st where "r = (rc, st)" by (cases r)
    with Inr have "readLines P ty hdrs (header # rows) (- 1) ?init = Inr (rc, st)"
      by (simp add: readerAfter_def)
    from readLines_file [OF this] assms show ?thesis by simp
  qed
  have limit: "readerAfter P ty hdrs header rows (length rows) = Inl (TooManyRows (int ?K))"
    if "readerAfter P ty hdrs header rows ?K = Inr x" for x
  proof -
    obtain rc st where x: "x = (rc, st)" by (cases x)
    with that have pre: "readLines P ty hdrs (header # take ?K rows) (- 1) ?init = Inr (rc, st)"
      by (simp add: readerAfter_def)
    from readLines_file [OF pre] assms have rc: "rc = int ?K" by simp
    from assms obtain row rest where d: "drop ?K rows = row # rest"
      by (cases "drop ?K rows") simp_all
    have "header # rows = (header # take ?K rows) @ (row # rest)"
      using d by (metis append_Cons append_take_drop_id)
    then have "readLines P ty hdrs (header # rows) (- 1) ?init
                 = readLines P ty hdrs (row # rest) rc st"
      using pre by (simp only: readLines_append) simp
    also have "\<dots> = Inl (TooManyRows (int ?K))"
      using rc by (simp add: kCommonConstantMaxNumberOfInputSamples_def)
    finally show ?thesis by (simp add: readerAfter_def)
  qed
  from never limit show ?thesis by blast
qed

lemma readInput_readerAfter:
  assumes "expectedHeaders \<noteq> []" "ty \<noteq> kFloatingPointVariableTypeUnknown"
    "inputFilePath \<noteq> ''stdin''" "fopen_read P inputFilePath = Some (header # rows)"
  shows "readInputDistributionsFromCSV P inputFilePath expectedHeaders ty
           = (case readerAfter P ty expectedHeaders header rows (length rows) of
                Inl e \<Rightarrow> Inl e
              | Inr (rc, st) \<Rightarrow> Inr (distributionsOfState P ty (length expectedHeaders) st))"
  using assms by (simp add: readInputDistributionsFromCSV_def readerAfter_def Let_def)

lemma readInput_not_too_many:
  assumes "fopen_read P inputFilePath = Some (header # rows)"
    "length rows \<le> kCommonConstantMaxNumberOfInputSamples"
  shows "readInputDistributionsFromCSV P inputFilePath expectedHeaders ty \<noteq> Inl (TooManyRows n)"
proof -
  have "readLines P ty expectedHeaders (header # rows) (- 1) (initialState (length expectedHeaders))
          \<noteq> Inl (TooManyRows n)"
    using readerAfter_not_too_many [OF assms(2), of P ty expectedHeaders header "length rows" n]
    by (simp add: readerAfter_def)
  then show ?thesis
    using assms(1) by (auto simp: readInputDistributionsFromCSV_def Let_def split: sum.splits)
qed

subsection \<open>Tokens and fields\<close>

lemma csvFields_split:
  "csvFields s = takeWhile (\<lambda>c. c \<noteq> CHR '','') s
                   # (case dropWhile (\<lambda>c. c \<noteq> CHR '','') s of [] \<Rightarrow> [] | _ # r \<Rightarrow> csvFields r)"
  by (induction s) (auto split: list.splits)

lemma csvFields_leading_commas:
  "filter (\<lambda>f. f \<noteq> []) (csvFields (dropWhile (\<lambda>c. c = CHR '','') s))
     = filter (\<lambda>f. f \<noteq> []) (csvFields s)"
  by (induction s) (auto split: list.splits)

lemma strtok_r_comma:
  "strtok_r s '','' =
     (if dropWhile (\<lambda>c. c = CHR '','') s = [] then None
      else Some (takeWhile (\<lambda>c. c \<noteq> CHR '','') (dropWhile (\<lambda>c. c = CHR '','') s),
                 drop 1 (dropWhile (\<lambda>c. c \<noteq> CHR '','') (dropWhile (\<lambda>c. c = CHR '','') s))))"
  by (simp add: strtok_r_def Let_def)

lemma csvFields_nonempty_fields:
  "strtok_tokens s delim = filter (\<lambda>f. f \<noteq> []) (csvFields s)" if "delim = '',''"
  using that
proof (induction s delim rule: strtok_tokens.induct)
  case (1 s delim)
  let ?s1 = "dropWhile (\<lambda>c. c = CHR '','') s"
  show ?case
  proof (cases "?s1 = []")
    case True
    then have "strtok_r s delim = None" using 1(2) by (simp add: strtok_r_comma)
    then have "strtok_tokens s delim = []" by (subst strtok_tokens.simps) simp
    moreover have "filter (\<lambda>f. f \<noteq> []) (csvFields ?s1) = []" by (simp only: True) simp
    ultimately show ?thesis by (simp only: csvFields_leading_commas)
  next
    case False
    let ?tok = "takeWhile (\<lambda>c. c \<noteq> CHR '','') ?s1"
    let ?rest = "drop 1 (dropWhile (\<lambda>c. c \<noteq> CHR '','') ?s1)"
    have r: "strtok_r s delim = Some (?tok, ?rest)"
      using False 1(2) by (simp add: strtok_r_comma)
    have tokne: "?tok \<noteq> []"
    proof -
      from False obtain c cs where c: "?s1 = c # cs" by (cases ?s1) auto
      then have "c \<noteq> CHR '',''" by (metis (mono_tags, lifting) hd_dropWhile list.sel(1) False)
      with c show ?thesis by simp
    qed
    have ih: "strtok_tokens ?rest delim = filter (\<lambda>f. f \<noteq> []) (csvFields ?rest)"
      using 1(1) [OF r refl 1(2)] .
    have "strtok_tokens s delim = ?tok # strtok_tokens ?rest delim"
      by (subst strtok_tokens.simps) (simp add: r)
    also have "\<dots> = ?tok # filter (\<lambda>f. f \<noteq> []) (csvFields ?rest)" by (simp only: ih)
    also have "\<dots> = filter (\<lambda>f. f \<noteq> []) (csvFields ?s1)"
    proof (cases "dropWhile (\<lambda>c. c \<noteq> CHR '','') ?s1")
      case Nil
      have "csvFields ?s1 = [?tok]" by (subst csvFields_split) (simp only: Nil list.case)
      moreover have "?rest = []" by (simp only: Nil drop_Nil)
      ultimately show ?thesis using tokne by (simp only: csvFields.simps filter.simps) simp
    next
      case (Cons d r)
      have "csvFields ?s1 = ?tok # csvFields r" by (subst csvFields_split) (simp only: Cons list.case)
      moreover have "?rest = r" by (simp only: Cons) simp
      ultimately show ?thesis using tokne by (simp only: filter.simps) simp
    qed
    also have "\<dots> = filter (\<lambda>f. f \<noteq> []) (csvFields s)" by (rule csvFields_leading_commas)
    finally show ?thesis .
  qed
qed

lemma columnResult_bounds:
  assumes "length toks \<le> kCommonConstantMaxNumberOfInputSamples"
  shows "length (fst (snd (columnResult P ty toks))) = kCommonConstantMaxNumberOfInputSamples
       \<and> snd (snd (columnResult P ty toks)) \<le> kCommonConstantMaxNumberOfInputSamples"
proof -
  have K: "0 < kCommonConstantMaxNumberOfInputSamples"
    by (simp add: kCommonConstantMaxNumberOfInputSamples_def)
  have "length (parsedSamples P ty toks) \<le> length toks" by (simp add: parsedSamples_def)
  with assms have "length (parsedSamples P ty toks) \<le> kCommonConstantMaxNumberOfInputSamples" by simp
  with K show ?thesis by (cases toks) (auto simp: columnResult_def)
qed

text \<open>
  Claim C7. After any number of rows every buffer has its 10000 entries and no more than
  10000 of them are counted as samples, and the reader never writes behind a buffer. A
  file with more than 10000 data rows is never read with success; when its header and its
  first 10000 rows are accepted, the read ends with the diagnostic for too many rows,
  whatever the later rows hold. A file with at most 10000 data rows never gets that
  diagnostic.
\<close>

theorem sample_buffer_capacity:
  "(readerAfter P ty expectedHeaders header rows k = Inr (rc, st) \<and> c < length expectedHeaders
      \<longrightarrow> length (sampleValues st ! c) = kCommonConstantMaxNumberOfInputSamples
          \<and> sampleCounts st ! c \<le> kCommonConstantMaxNumberOfInputSamples)
   \<and> readerAfter P ty expectedHeaders header rows k \<noteq> Inl (BufferOverrun a b)
   \<and> (kCommonConstantMaxNumberOfInputSamples < length rows
      \<longrightarrow> (\<exists>e. readerAfter P ty expectedHeaders header rows (length rows) = Inl e)
          \<and> ((\<exists>x. readerAfter P ty expectedHeaders header rows
                     kCommonConstantMaxNumberOfInputSamples = Inr x)
               \<longrightarrow> readerAfter P ty expectedHeaders header rows (length rows)
                     = Inl (TooManyRows (int kCommonConstantMaxNumberOfInputSamples))))
   \<and> (kCommonConstantMaxNumberOfInputSamples < length rows \<and> expectedHeaders \<noteq> []
        \<and> inputFilePath \<noteq> ''stdin'' \<and> fopen_read P inputFilePath = Some (header # rows)
        \<and> (\<exists>x. readerAfter P kFloatingPointVariableTypeFloat expectedHeaders header rows
                     kCommonConstantMaxNumberOfInputSamples = Inr x)
      \<longrightarrow> readInputFloatDistributionsFromCSV P inputFilePath expectedHeaders
            = Inl (TooManyRows (int kCommonConstantMaxNumberOfInputSamples)))
   \<and> (kCommonConstantMaxNumberOfInputSamples < length rows \<and> expectedHeaders \<noteq> []
        \<and> inputFilePath \<noteq> ''stdin'' \<and> fopen_read P inputFilePath = Some (header # rows)
        \<and> (\<exists>x. readerAfter P kFloatingPointVariableTypeDouble expectedHeaders header rows
                     kCommonConstantMaxNumberOfInputSamples = Inr x)
      \<longrightarrow> readInputDoubleDistributionsFromCSV P inputFilePath expectedHeaders
            = Inl (TooManyRows (int kCommonConstantMaxNumberOfInputSamples)))
   \<and> (length rows \<le> kCommonConstantMaxNumberOfInputSamples
        \<and> fopen_read P inputFilePath = Some (header # rows)
      \<longrightarrow> readInputFloatDistributionsFromCSV P inputFilePath expectedHeaders \<noteq> Inl (TooManyRows n)
          \<and> readInputDoubleDistributionsFromCSV P inputFilePath expectedHeaders \<noteq> Inl (TooManyRows n))"
proof -
  let ?K = "kCommonConstantMaxNumberOfInputSamples"
  have bound: "length (sampleValues st ! c) = ?K \<and> sampleCounts st ! c \<le> ?K"
    if "readerAfter P ty expectedHeaders header rows k = Inr (rc, st)" "c < length expectedHeaders"
  proof -
    from that(1) have run: "readLines P ty expectedHeaders (header # take k rows) (- 1)
                              (initialState (length expectedHeaders)) = Inr (rc, st)"
      by (simp add: readerAfter_def)
    from readLines_file [OF run] that(2)
    have len: "length (take k rows) \<le> ?K"
      and col: "columnOf st c = columnResult P ty (columnTokens (take k rows) c)" by simp_all
    have "length (columnTokens (take k rows) c) \<le> ?K" using len by simp
    from columnResult_bounds [OF this, of P ty] col [symmetric] show ?thesis
      by (simp add: columnOf_def)
  qed
  have noover: "readerAfter P ty expectedHeaders header rows k \<noteq> Inl (BufferOverrun a b)"
    unfolding readerAfter_def by (rule readLines_file_no_overrun)
  have public: "readInputDistributionsFromCSV P inputFilePath expectedHeaders ty'
                  = Inl (TooManyRows (int ?K))"
    if "?K < length rows" "expectedHeaders \<noteq> []" "inputFilePath \<noteq> ''stdin''"
      "fopen_read P inputFilePath = Some (header # rows)"
      "\<exists>x. readerAfter P ty' expectedHeaders header rows ?K = Inr x"
      "ty' \<noteq> kFloatingPointVariableTypeUnknown" for ty'
    using readerAfter_too_many [OF that(1), of P ty' expectedHeaders header] that(5)
    by (simp add: readInput_readerAfter [OF that(2,6,3,4)])
  show ?thesis
    unfolding readInputFloatDistributionsFromCSV_def readInputDoubleDistributionsFromCSV_def
    using bound noover readerAfter_too_many [of rows P ty expectedHeaders header]
      public [of kFloatingPointVariableTypeFloat] public [of kFloatingPointVariableTypeDouble]
      readInput_not_too_many [of P inputFilePath header rows]
    by (intro conjI impI) (blast | simp)+
qed

theorem sample_buffer_capacity_witness:
  "kCommonConstantMaxNumberOfInputSamples < length (replicate 10001 (''1'' @ [newline]))
   \<and> readInputFloatDistributionsFromCSV
        (examplePlatform (exampleFile ((''a'' @ [newline]) # replicate 10001 (''1'' @ [newline]))))
        ''input.csv'' [''a'']
       = Inl (TooManyRows 10000)"
proof -
  let ?row = "''1'' @ [newline]"
  let ?rows = "replicate 10001 ?row"
  let ?P = "examplePlatform (exampleFile ((''a'' @ [newline]) # ?rows))"
  let ?ty = "kFloatingPointVariableTypeFloat"
  have K: "kCommonConstantMaxNumberOfInputSamples = 10000"
    by (simp add: kCommonConstantMaxNumberOfInputSamples_def)
  have tk: "take 10000 ?rows = replicate 10000 ?row" by simp
  have rt: "rowTokens ?row = [?row]" by (simp add: example_eval)
  have acc: "acceptableToken ?P ?ty ?row" by (simp add: example_eval)
  have noux: "\<not> strstr ?row ''Ux''" by simp
  have ct: "columnTokens (replicate 10000 ?row) 0 = ?row # replicate 9999 ?row"
    using rt replicate_Suc [of 9999 ?row] by (simp add: columnTokens_def del: replicate_Suc)
  have ca: "\<forall>c<length [''a'']. columnAccepted ?P ?ty (columnTokens (replicate 10000 ?row) c)"
    unfolding columnAccepted_def using ct noux acc
    by (simp add: list_all_iff del: replicate_Suc)
  have "\<exists>st'. readLines ?P ?ty [''a''] ((''a'' @ [newline]) # replicate 10000 ?row) (- 1)
                (initialState (length [''a''])) = Inr (int (length (replicate 10000 ?row)), st')"
    using header_a ca rt by (intro readLines_file_success) (simp_all add: K)
  then have pre: "\<exists>x. readerAfter ?P ?ty [''a''] (''a'' @ [newline]) ?rows
                        kCommonConstantMaxNumberOfInputSamples = Inr x"
    unfolding readerAfter_def K tk by blast
  have big: "kCommonConstantMaxNumberOfInputSamples < length ?rows" by (simp add: K)
  have opened: "fopen_read ?P ''input.csv'' = Some ((''a'' @ [newline]) # ?rows)"
    by (simp add: examplePlatform_def exampleFile_def)
  from sample_buffer_capacity [of ?P ?ty "[''a'']" "''a'' @ [newline]" ?rows _ _ _ _ _ _ "''input.csv''"]
    big pre opened
  have "readInputFloatDistributionsFromCSV ?P ''input.csv'' [''a'']
          = Inl (TooManyRows (int kCommonConstantMaxNumberOfInputSamples))"
    by simp
  with big show ?thesis by (simp add: K)
qed

text \<open>
  Claim C10, as amended. The tokens of a line buffer are its non-empty fields, in order:
  an empty field between two commas, at the start of the buffer or at its very end gives
  no token, and the number of columns the reader counts is the number of non-empty
  fields. The data row \<^verbatim>\<open>1,,2\<close> against two expected columns is read as the samples \<open>1\<close>
  and \<open>2\<close>. A field that holds the newline of the line is not empty.
\<close>

theorem empty_fields_yield_no_token:
  "strtok_tokens buffer '','' = filter (\<lambda>field. field \<noteq> []) (csvFields buffer)
   \<and> length (rowTokens buffer) = length (filter (\<lambda>field. field \<noteq> []) (csvFields buffer))
   \<and> readInputFloatDistributionsFromCSV
        (examplePlatform (exampleFile [''a,b'' @ [newline], ''1,,2'' @ [newline]]))
        ''input.csv'' [''a'', ''b'']
       = Inr [1, 2]"
proof -
  let ?rows = "[''1,,2'' @ [newline]]"
  let ?P = "examplePlatform (exampleFile [''a,b'' @ [newline], ''1,,2'' @ [newline]])"
  let ?ty = "kFloatingPointVariableTypeFloat"
  have a: "strtok_tokens buffer '','' = filter (\<lambda>field. field \<noteq> []) (csvFields buffer)"
    by (rule csvFields_nonempty_fields) simp
  have t: "rowTokens (''1,,2'' @ [newline]) = [''1'', ''2'' @ [newline]]"
    by (simp add: example_eval)
  have K: "kCommonConstantMaxNumberOfInputSamples = 10000"
    by (simp add: kCommonConstantMaxNumberOfInputSamples_def)
  have cells: "\<forall>r<length ?rows. \<forall>c<length [''a'', ''b''].
              acceptableToken ?P ?ty (rowTokens (?rows ! r) ! c)
              \<or> (0 < r \<and> strstr (rowTokens (?rows ! 0) ! c) ''Ux'')"
    using t by (simp add: less_Suc_eq numeral_2_eq_2 acceptableToken_def parseChecked_def
        parseFloatChecked_def examplePlatform_def strtoDecimal_def isDecimalDigit_def safeIsspace_def)
  have r: "readInputDistributionsFromCSV ?P ''input.csv'' [''a'', ''b''] ?ty
              = Inr (map (\<lambda>c. expectedDistribution ?P ?ty (columnTokens ?rows c))
                      [0..<length [''a'', ''b'']])"
    using header_ab cells t
    by (intro read_well_formed) (simp_all add: examplePlatform_def exampleFile_def K)
  have e: "map (\<lambda>c. expectedDistribution ?P ?ty (columnTokens ?rows c)) [0..<length [''a'', ''b'']]
             = [1, 2]"
    using t by (simp add: upt_2 expectedDistribution_def columnTokens_def parsedSamples_def
        samplesToDistribution_def K parseChecked_def parseFloatChecked_def examplePlatform_def
        strtoDecimal_def isDecimalDigit_def safeIsspace_def decimalValue_def meanOfSamples_def
        shouldIgnoreToken_def)
  from a r e show ?thesis
    by (simp add: rowTokens_def readInputFloatDistributionsFromCSV_def)
qed

theorem empty_fields_yield_no_token_witness:
  "csvFields ('',1,,2,'') = [[], ''1'', [], ''2'', []]
   \<and> strtok_tokens '',1,,2,'' '','' = [''1'', ''2'']
   \<and> length (rowTokens '',1,,2,'') = 2"
proof -
  have f: "csvFields ('',1,,2,'') = [[], ''1'', [], ''2'', []]" by simp
  with empty_fields_yield_no_token [of "'',1,,2,''"] show ?thesis by simp
qed

text \<open>
  Claim C10 as stated fails at the end of a line that ends with a newline: behind the last
  comma of \<^verbatim>\<open>1,2,\<close> the newline is a token of its own, and the row is rejected for having
  more than the two expected entries.
\<close>

theorem empty_fields_yield_no_token_counterexample:
  "strtok_tokens (''1,2,'' @ [newline]) '','' = [''1'', ''2'', [newline]]
   \<and> readInputFloatDistributionsFromCSV
        (examplePlatform (exampleFile [''a,b'' @ [newline], ''1,2,'' @ [newline]]))
        ''input.csv'' [''a'', ''b'']
       = Inl (MoreThanExpectedEntries 0)"
  by (simp add: example_eval readInputFloatDistributionsFromCSV_def readInputDistributionsFromCSV_def
      validateInputDistributionCSVHeader_def strncmp_eq_def initialState_def processCell_def
      storeSample_def kCommonConstantMaxNumberOfInputSamples_def Let_def)


end
